theory Spec2Isabelle
  imports Main "HOL-Library.Word" "HOL-Library.Monad_Syntax"
begin

unbundle bit_operations_syntax

section \<open>The heap as a byte-addressed memory\<close>

text \<open>
  The allocator of \<^verbatim>\<open>mm.c\<close> works on raw addresses. An address is an \<open>int\<close>, the
  null pointer is \<open>0\<close> and \<open>(void *)-1\<close> is \<open>-1\<close>. Memory is a function from
  addresses to bytes; a 4-byte word (\<^verbatim>\<open>unsigned int\<close>) and an 8-byte pointer
  (\<^verbatim>\<open>char *\<close>) are stored little-endian. The sizes \<^verbatim>\<open>size_t\<close> are 64-bit
  words, a boundary tag is a 32-bit word.

  A result \<open>None\<close> stands for an execution with no defined result: an access outside
  the heap \<open>[mem_start, mem_brk)\<close>, a shift by 32 or more, or a loop that does not end.
\<close>

type_synonym addr = int
type_synonym memory = "int \<Rightarrow> 8 word"

record heap_state =
  mem :: memory
  mem_start :: int
  mem_brk :: int
  mem_max_addr :: int
  heap_listp :: int
  freelists :: "nat \<Rightarrow> int"

fun load_le :: "memory \<Rightarrow> int \<Rightarrow> nat \<Rightarrow> int" where
  "load_le m a 0 = 0"
| "load_le m a (Suc n) = uint (m a) + 256 * load_le m (a + 1) n"

fun store_le :: "memory \<Rightarrow> int \<Rightarrow> nat \<Rightarrow> int \<Rightarrow> memory" where
  "store_le m a 0 v = m"
| "store_le m a (Suc n) v = store_le (m(a := word_of_int v)) (a + 1) n (v div 256)"

definition in_heap_range :: "heap_state \<Rightarrow> int \<Rightarrow> int \<Rightarrow> bool" where
  "in_heap_range s a n \<longleftrightarrow> mem_start s \<le> a \<and> a + n \<le> mem_brk s"

subsection \<open>The macros\<close>

definition WSIZE :: int where "WSIZE = 4"
definition DSIZE :: int where "DSIZE = 8"
definition NUMLIST :: nat where "NUMLIST = 25"
definition MINSIZE :: "64 word" where "MINSIZE = 16"
definition CHUNKSIZE :: "64 word" where "CHUNKSIZE = push_bit 8 1"

definition PACK :: "64 word \<Rightarrow> 64 word \<Rightarrow> 64 word" where
  "PACK sz alloc = sz OR alloc"

definition GET :: "heap_state \<Rightarrow> int \<Rightarrow> 32 word option" where
  "GET s p = (if in_heap_range s p 4 then Some (word_of_int (load_le (mem s) p 4)) else None)"

text \<open>\<^verbatim>\<open>PUT\<close> stores an \<^verbatim>\<open>unsigned int\<close>: a 64-bit value is cut to its low 32 bits.\<close>

definition PUT :: "heap_state \<Rightarrow> int \<Rightarrow> 64 word \<Rightarrow> heap_state option" where
  "PUT s p val =
     (if in_heap_range s p 4
      then Some (s\<lparr>mem := store_le (mem s) p 4 (uint (ucast val :: 32 word))\<rparr>)
      else None)"

definition GET_SIZE :: "heap_state \<Rightarrow> int \<Rightarrow> 32 word option" where
  "GET_SIZE s p = map_option (\<lambda>w. w AND NOT 7) (GET s p)"

definition GET_ALLOC :: "heap_state \<Rightarrow> int \<Rightarrow> 32 word option" where
  "GET_ALLOC s p = map_option (\<lambda>w. w AND 1) (GET s p)"

definition HDRP :: "int \<Rightarrow> int" where
  "HDRP bp = bp - WSIZE"

definition FTRP :: "heap_state \<Rightarrow> int \<Rightarrow> int option" where
  "FTRP s bp = do { sz \<leftarrow> GET_SIZE s (HDRP bp); Some (bp + uint sz - DSIZE) }"

definition SUCC :: "heap_state \<Rightarrow> int \<Rightarrow> int option" where
  "SUCC s bp = (if in_heap_range s bp 8 then Some (load_le (mem s) bp 8) else None)"

definition set_SUCC :: "heap_state \<Rightarrow> int \<Rightarrow> int \<Rightarrow> heap_state option" where
  "set_SUCC s bp q =
     (if in_heap_range s bp 8 then Some (s\<lparr>mem := store_le (mem s) bp 8 q\<rparr>) else None)"

definition NEXT_BLKP :: "heap_state \<Rightarrow> int \<Rightarrow> int option" where
  "NEXT_BLKP s bp = do { sz \<leftarrow> GET_SIZE s (bp - WSIZE); Some (bp + uint sz) }"

definition PREV_BLKP :: "heap_state \<Rightarrow> int \<Rightarrow> int option" where
  "PREV_BLKP s bp = do { sz \<leftarrow> GET_SIZE s (bp - DSIZE); Some (bp - uint sz) }"

definition ALIGN :: "64 word \<Rightarrow> 64 word" where
  "ALIGN p = (p + 7) AND NOT 7"

subsection \<open>The heap-growth provider\<close>

text \<open>
  Modelled from the spec: \<^verbatim>\<open>mem_sbrk\<close> of \<^verbatim>\<open>memlib.c\<close> is not part of the sources.
  The spec gives \<^verbatim>\<open>grow(byte_count) -> old_top_address | failure\<close>, extending the heap
  contiguously and failing when the backing store is exhausted. The backing store ends at
  \<open>mem_max_addr\<close>; failure is the pointer \<open>-1\<close>, as the callers in \<^verbatim>\<open>mm.c\<close> test it.
\<close>

definition mem_sbrk :: "heap_state \<Rightarrow> int \<Rightarrow> int \<times> heap_state" where
  "mem_sbrk s incr =
     (if incr < 0 \<or> mem_brk s + incr > mem_max_addr s then (- 1, s)
      else (mem_brk s, s\<lparr>mem_brk := mem_brk s + incr\<rparr>))"

section \<open>Free-list maintenance\<close>

text \<open>
  The loop \<^verbatim>\<open>for (i = 0; size > (unsigned int) 1<<i; i++) {}\<close>: the shift of a 32-bit
  value by 32 or more has no defined result.
\<close>

function class_loop :: "64 word \<Rightarrow> nat \<Rightarrow> nat option" where
  "class_loop sz i =
     (if 32 \<le> i then None
      else if sz > push_bit i 1 then class_loop sz (i + 1)
      else Some i)"
  by pat_completeness auto
termination
  by (relation "measure (\<lambda>(sz, i). 32 - i)") auto

declare class_loop.simps [simp del]

definition freelist_insert :: "heap_state \<Rightarrow> int \<Rightarrow> heap_state option" where
  "freelist_insert s bp = do {
     sz \<leftarrow> GET_SIZE s (HDRP bp);
     i0 \<leftarrow> class_loop (ucast sz) 0;
     let i = min i0 (NUMLIST - 1);
     s1 \<leftarrow> set_SUCC s bp (freelists s i);
     Some (s1\<lparr>freelists := (freelists s1)(i := bp)\<rparr>)
   }"

text \<open>The loop \<^verbatim>\<open>while (SUCC(prevptr) != bp) prevptr = SUCC(prevptr);\<close>\<close>

partial_function (option) find_pred :: "heap_state \<Rightarrow> int \<Rightarrow> int \<Rightarrow> int option" where
  "find_pred s prevptr bp = do {
     n \<leftarrow> SUCC s prevptr;
     if n \<noteq> bp then find_pred s n bp else Some prevptr
   }"

declare find_pred.simps [code]

definition freelist_remove :: "heap_state \<Rightarrow> int \<Rightarrow> heap_state option" where
  "freelist_remove s bp = do {
     sc \<leftarrow> SUCC s bp;
     succ_alloc \<leftarrow> GET_ALLOC s (HDRP sc);
     sz \<leftarrow> GET_SIZE s (HDRP bp);
     i0 \<leftarrow> class_loop (ucast sz) 0;
     let i = min i0 (NUMLIST - 1);
     if bp = freelists s i \<and> succ_alloc \<noteq> 0
     then Some (s\<lparr>freelists := (freelists s)(i := heap_listp s)\<rparr>)
     else if bp = freelists s i \<and> succ_alloc = 0
     then do { sc' \<leftarrow> SUCC s bp; Some (s\<lparr>freelists := (freelists s)(i := sc')\<rparr>) }
     else do {
       prevptr \<leftarrow> find_pred s (freelists s i) bp;
       sc' \<leftarrow> SUCC s bp;
       set_SUCC s prevptr sc'
     }
   }"

section \<open>Coalescing, placement and fit search\<close>

definition coalesce :: "heap_state \<Rightarrow> int \<Rightarrow> (int \<times> heap_state) option" where
  "coalesce s bp = do {
     pb \<leftarrow> PREV_BLKP s bp;
     pf \<leftarrow> FTRP s pb;
     prev_alloc \<leftarrow> GET_ALLOC s pf;
     nb \<leftarrow> NEXT_BLKP s bp;
     next_alloc \<leftarrow> GET_ALLOC s (HDRP nb);
     sz \<leftarrow> GET_SIZE s (HDRP bp);
     let csz = (ucast sz :: 64 word);
     if prev_alloc \<noteq> 0 \<and> next_alloc \<noteq> 0
     then do { s1 \<leftarrow> freelist_insert s bp; Some (bp, s1) }
     else if prev_alloc \<noteq> 0 \<and> next_alloc = 0
     then do {
       nb1 \<leftarrow> NEXT_BLKP s bp;
       s1 \<leftarrow> freelist_remove s nb1;
       nb2 \<leftarrow> NEXT_BLKP s1 bp;
       nsz \<leftarrow> GET_SIZE s1 (HDRP nb2);
       let csz = csz + ucast nsz;
       s2 \<leftarrow> PUT s1 (HDRP bp) (PACK csz 0);
       f \<leftarrow> FTRP s2 bp;
       s3 \<leftarrow> PUT s2 f (PACK csz 0);
       s4 \<leftarrow> freelist_insert s3 bp;
       Some (bp, s4)
     }
     else if prev_alloc = 0 \<and> next_alloc \<noteq> 0
     then do {
       pb1 \<leftarrow> PREV_BLKP s bp;
       s1 \<leftarrow> freelist_remove s pb1;
       pb2 \<leftarrow> PREV_BLKP s1 bp;
       psz \<leftarrow> GET_SIZE s1 (HDRP pb2);
       let csz = csz + ucast psz;
       f \<leftarrow> FTRP s1 bp;
       s2 \<leftarrow> PUT s1 f (PACK csz 0);
       pb3 \<leftarrow> PREV_BLKP s2 bp;
       s3 \<leftarrow> PUT s2 (HDRP pb3) (PACK csz 0);
       bp' \<leftarrow> PREV_BLKP s3 bp;
       s4 \<leftarrow> freelist_insert s3 bp';
       Some (bp', s4)
     }
     else do {
       nb1 \<leftarrow> NEXT_BLKP s bp;
       s1 \<leftarrow> freelist_remove s nb1;
       pb1 \<leftarrow> PREV_BLKP s1 bp;
       s2 \<leftarrow> freelist_remove s1 pb1;
       pb2 \<leftarrow> PREV_BLKP s2 bp;
       psz \<leftarrow> GET_SIZE s2 (HDRP pb2);
       nb2 \<leftarrow> NEXT_BLKP s2 bp;
       nf \<leftarrow> FTRP s2 nb2;
       nsz \<leftarrow> GET_SIZE s2 nf;
       let csz = csz + (ucast (psz + nsz) :: 64 word);
       pb3 \<leftarrow> PREV_BLKP s2 bp;
       s3 \<leftarrow> PUT s2 (HDRP pb3) (PACK csz 0);
       nb3 \<leftarrow> NEXT_BLKP s3 bp;
       nf3 \<leftarrow> FTRP s3 nb3;
       s4 \<leftarrow> PUT s3 nf3 (PACK csz 0);
       bp' \<leftarrow> PREV_BLKP s4 bp;
       s5 \<leftarrow> freelist_insert s4 bp';
       Some (bp', s5)
     }
   }"

definition place :: "heap_state \<Rightarrow> int \<Rightarrow> 64 word \<Rightarrow> heap_state option" where
  "place s bp asize = do {
     sz \<leftarrow> GET_SIZE s (HDRP bp);
     let csize = (ucast sz :: 64 word);
     s1 \<leftarrow> freelist_remove s bp;
     if csize - asize \<ge> MINSIZE
     then do {
       s2 \<leftarrow> PUT s1 (HDRP bp) (PACK asize 1);
       f \<leftarrow> FTRP s2 bp;
       s3 \<leftarrow> PUT s2 f (PACK asize 1);
       bp' \<leftarrow> NEXT_BLKP s3 bp;
       s4 \<leftarrow> PUT s3 (HDRP bp') (PACK (csize - asize) 0);
       f' \<leftarrow> FTRP s4 bp';
       s5 \<leftarrow> PUT s4 f' (PACK (csize - asize) 0);
       (r, s6) \<leftarrow> coalesce s5 bp';
       Some s6
     }
     else do {
       s2 \<leftarrow> PUT s1 (HDRP bp) (PACK csize 1);
       f \<leftarrow> FTRP s2 bp;
       PUT s2 f (PACK csize 1)
     }
   }"

text \<open>
  The scan of one bucket, \<^verbatim>\<open>while (!GET_ALLOC(HDRP(bp)))\<close>: \<open>Some (Some bp)\<close> is the
  \<^verbatim>\<open>return bp\<close> inside the loop, \<open>Some None\<close> is the loop left without a fit.
\<close>

partial_function (option) scan_list :: "heap_state \<Rightarrow> 64 word \<Rightarrow> int \<Rightarrow> int option option" where
  "scan_list s asize bp = do {
     a \<leftarrow> GET_ALLOC s (HDRP bp);
     if a = 0
     then do {
       sz \<leftarrow> GET_SIZE s (HDRP bp);
       if asize \<le> ucast sz then Some (Some bp)
       else do { n \<leftarrow> SUCC s bp; scan_list s asize n }
     }
     else Some None
   }"

declare scan_list.simps [code]

text \<open>The loop \<^verbatim>\<open>for (i = 0; i < NUMLIST; i++)\<close> of \<^verbatim>\<open>find_fit\<close>, from index \<open>i\<close> on.\<close>

function find_fit_loop :: "heap_state \<Rightarrow> 64 word \<Rightarrow> nat \<Rightarrow> int option" where
  "find_fit_loop s asize i =
     (if i < NUMLIST
      then (if asize \<le> push_bit i 1
            then do {
              r \<leftarrow> scan_list s asize (freelists s i);
              case r of Some bp \<Rightarrow> Some bp | None \<Rightarrow> find_fit_loop s asize (i + 1)
            }
            else find_fit_loop s asize (i + 1))
      else Some 0)"
  by pat_completeness auto
termination
  by (relation "measure (\<lambda>(s, asize, i). NUMLIST - i)") auto

declare find_fit_loop.simps [simp del]

definition find_fit :: "heap_state \<Rightarrow> 64 word \<Rightarrow> int option" where
  "find_fit s asize =
     (if asize > push_bit (NUMLIST - 1) 1
      then do {
        r \<leftarrow> scan_list s asize (freelists s (NUMLIST - 1));
        case r of Some bp \<Rightarrow> Some bp | None \<Rightarrow> Some 0
      }
      else find_fit_loop s asize 0)"

section \<open>The allocator\<close>

text \<open>\<^verbatim>\<open>size = (words % 2) ? (words+1) * WSIZE : words * WSIZE\<close>\<close>

definition extend_size :: "64 word \<Rightarrow> 64 word" where
  "extend_size words = (if words mod 2 \<noteq> 0 then (words + 1) * 4 else words * 4)"

definition extend_heap :: "heap_state \<Rightarrow> 64 word \<Rightarrow> (int \<times> heap_state) option" where
  "extend_heap s words =
     (let sz = extend_size words;
          (bp, s1) = mem_sbrk s (uint sz)
      in if bp = - 1 then Some (0, s1)
         else do {
           s2 \<leftarrow> PUT s1 (HDRP bp) (PACK sz 0);
           f \<leftarrow> FTRP s2 bp;
           s3 \<leftarrow> PUT s2 f (PACK sz 0);
           nb \<leftarrow> NEXT_BLKP s3 bp;
           s4 \<leftarrow> PUT s3 (HDRP nb) (PACK 0 1);
           coalesce s4 bp
         })"

definition adjust_size :: "64 word \<Rightarrow> 64 word" where
  "adjust_size sz = max (ALIGN (sz + 8)) MINSIZE"

definition malloc :: "heap_state \<Rightarrow> 64 word \<Rightarrow> (int \<times> heap_state) option" where
  "malloc s sz =
     (let asize = adjust_size sz in
      do {
        bp \<leftarrow> find_fit s asize;
        if bp \<noteq> 0
        then do { s1 \<leftarrow> place s bp asize; Some (bp, s1) }
        else do {
          (bp', s1) \<leftarrow> extend_heap s (max asize CHUNKSIZE div 4);
          if bp' = 0 then Some (0, s1)
          else do { s2 \<leftarrow> place s1 bp' asize; Some (bp', s2) }
        }
      })"

definition free :: "heap_state \<Rightarrow> int \<Rightarrow> heap_state option" where
  "free s ptr =
     (if ptr = 0 then Some s
      else do {
        sz \<leftarrow> GET_SIZE s (HDRP ptr);
        let csz = (ucast sz :: 64 word);
        s1 \<leftarrow> PUT s (HDRP ptr) (PACK csz 0);
        f \<leftarrow> FTRP s1 ptr;
        s2 \<leftarrow> PUT s1 f (PACK csz 0);
        (r, s3) \<leftarrow> coalesce s2 ptr;
        Some s3
      })"

text \<open>
  \<^verbatim>\<open>memcpy\<close> of \<open>n\<close> bytes. Both ranges have to lie in the heap; copying between
  overlapping ranges has no defined result.
\<close>

definition memcpy :: "heap_state \<Rightarrow> int \<Rightarrow> int \<Rightarrow> int \<Rightarrow> heap_state option" where
  "memcpy s dst src n =
     (if in_heap_range s dst n \<and> in_heap_range s src n
         \<and> (dst + n \<le> src \<or> src + n \<le> dst \<or> n = 0)
      then Some (s\<lparr>mem := (\<lambda>a. if dst \<le> a \<and> a < dst + n then mem s (src + (a - dst))
                                else mem s a)\<rparr>)
      else None)"

definition realloc :: "heap_state \<Rightarrow> int \<Rightarrow> 64 word \<Rightarrow> (int \<times> heap_state) option" where
  "realloc s oldptr sz =
     (if sz = 0 then do { s1 \<leftarrow> free s oldptr; Some (0, s1) }
      else if oldptr = 0 then malloc s sz
      else do {
        (newptr, s1) \<leftarrow> malloc s sz;
        if newptr = 0 then Some (0, s1)
        else do {
          osz \<leftarrow> GET_SIZE s1 (HDRP oldptr);
          let oldsize = min (ucast osz) sz;
          s2 \<leftarrow> memcpy s1 newptr oldptr (uint oldsize);
          s3 \<leftarrow> free s2 oldptr;
          Some (newptr, s3)
        }
      })"

text \<open>
  The loop \<^verbatim>\<open>for (i = 0; i < payload_size; i = i + WSIZE) PUT(bp + i, 0);\<close> of
  \<^verbatim>\<open>calloc\<close>. Both \<open>i\<close> and \<open>payload_size\<close> are \<^verbatim>\<open>int\<close>; \<open>payload_size\<close>
  is below \<open>2^31\<close> and a multiple of 8 or negative, so \<open>i + 4\<close> does not overflow.
\<close>

function zero_loop :: "heap_state \<Rightarrow> int \<Rightarrow> int \<Rightarrow> int \<Rightarrow> heap_state option" where
  "zero_loop s bp i payload_size =
     (if i < payload_size
      then do { s1 \<leftarrow> PUT s (bp + i) 0; zero_loop s1 bp (i + WSIZE) payload_size }
      else Some s)"
  by pat_completeness auto
termination
  by (relation "measure (\<lambda>(s, bp, i, payload_size). nat (payload_size - i))")
     (auto simp: WSIZE_def)

declare zero_loop.simps [simp del]

definition calloc :: "heap_state \<Rightarrow> 64 word \<Rightarrow> 64 word \<Rightarrow> (int \<times> heap_state) option" where
  "calloc s nmemb sz = do {
     (bp, s1) \<leftarrow> malloc s (nmemb * sz);
     bsz \<leftarrow> GET_SIZE s1 (HDRP bp);
     let payload_size = sint (bsz - 8);
     s2 \<leftarrow> zero_loop s1 bp 0 payload_size;
     Some (bp, s2)
   }"

text \<open>\<^verbatim>\<open>mm_init\<close> returns \<open>-1\<close> on error and \<open>0\<close> on success.\<close>

definition mm_init :: "heap_state \<Rightarrow> (int \<times> heap_state) option" where
  "mm_init s =
     (let (p, s0) = mem_sbrk s (4 * WSIZE) in
      if p = - 1 then Some (- 1, s0\<lparr>heap_listp := p\<rparr>)
      else do {
        let s1 = s0\<lparr>heap_listp := p\<rparr>;
        s2 \<leftarrow> PUT s1 (heap_listp s1) 0;
        s3 \<leftarrow> PUT s2 (heap_listp s2 + 1 * WSIZE) (PACK 8 1);
        s4 \<leftarrow> PUT s3 (heap_listp s3 + 2 * WSIZE) (PACK 8 1);
        s5 \<leftarrow> PUT s4 (heap_listp s4 + 3 * WSIZE) (PACK 0 1);
        let s6 = s5\<lparr>heap_listp := heap_listp s5 + 2 * WSIZE\<rparr>;
        let s7 = s6\<lparr>freelists := (\<lambda>i. if i < NUMLIST then heap_listp s6 else freelists s6 i)\<rparr>;
        (r, s8) \<leftarrow> extend_heap s7 (CHUNKSIZE div 4);
        if r = 0 then Some (- 1, s8) else Some (0, s8)
      })"

section \<open>The consistency checker\<close>

text \<open>
  \<^verbatim>\<open>in_heap\<close> is \<^verbatim>\<open>p <= mem_heap_hi() && p >= mem_heap_lo()\<close>.
  Modelled from the spec: \<^verbatim>\<open>mem_heap_lo\<close> and \<^verbatim>\<open>mem_heap_hi\<close> of \<^verbatim>\<open>memlib.c\<close> are
  not part of the sources. The spec gives \<^verbatim>\<open>heap_lower_bound()\<close> and
  \<^verbatim>\<open>heap_upper_bound()\<close>, the current valid range: the first and the last byte the
  provider has handed out.
\<close>

definition in_heap :: "heap_state \<Rightarrow> int \<Rightarrow> bool" where
  "in_heap s p \<longleftrightarrow> p \<le> mem_brk s - 1 \<and> p \<ge> mem_start s"

text \<open>
  The walk of \<^verbatim>\<open>mm_checkheap\<close> over the physical blocks,
  \<^verbatim>\<open>curptr = heap_listp + DSIZE; while (in_heap(curptr)) { ... curptr = NEXT_BLKP(curptr); }\<close>,
  with the block pointers it visits as its result. A header of size zero inside the heap
  keeps the walk in place for ever: then there is no result.
\<close>

partial_function (option) heap_walk :: "heap_state \<Rightarrow> int \<Rightarrow> int list option" where
  "heap_walk s curptr =
     (if in_heap s curptr
      then do { nx \<leftarrow> NEXT_BLKP s curptr; rest \<leftarrow> heap_walk s nx; Some (curptr # rest) }
      else Some [])"

declare heap_walk.simps [code]

text \<open>
  The test \<^verbatim>\<open>GET(HDRP(curptr)) != GET(FTRP(curptr))\<close> of the checker, negated; the reads
  have to be inside the heap. \<open>headers_match\<close> is this test on the prologue block and on
  every block of the walk, the two places where \<^verbatim>\<open>mm_checkheap\<close> makes it.
\<close>

definition header_eq_footer :: "heap_state \<Rightarrow> int \<Rightarrow> bool" where
  "header_eq_footer s bp =
     (case GET s (HDRP bp) of
        Some h \<Rightarrow> (case FTRP s bp of Some f \<Rightarrow> GET s f = Some h | None \<Rightarrow> False)
      | None \<Rightarrow> False)"

definition headers_match :: "heap_state \<Rightarrow> bool" where
  "headers_match s \<longleftrightarrow>
     header_eq_footer s (heap_listp s)
     \<and> (case heap_walk s (heap_listp s + DSIZE) of
          Some bps \<Rightarrow> list_all (header_eq_footer s) bps | None \<Rightarrow> False)"

section \<open>Specification-level notions\<close>

text \<open>
  The state before \<^verbatim>\<open>mm_init\<close>: the static variables are zero, the provider has given
  nothing yet and can give \<open>cap\<close> bytes from address \<open>start\<close> on.
\<close>

definition fresh_heap :: "int \<Rightarrow> int \<Rightarrow> heap_state" where
  "fresh_heap start cap =
     \<lparr>mem = (\<lambda>_. 0), mem_start = start, mem_brk = start, mem_max_addr = start + cap,
      heap_listp = 0, freelists = (\<lambda>_. 0)\<rparr>"

text \<open>
  A bucket read in link order: \<open>bucket_chain s p bs\<close> holds when following the links from
  \<open>p\<close> visits exactly the free blocks \<open>bs\<close> (payload address and size field) and then
  reaches a block whose header has the allocated bit.
\<close>

fun bucket_chain :: "heap_state \<Rightarrow> int \<Rightarrow> (int \<times> 32 word) list \<Rightarrow> bool" where
  "bucket_chain s p [] = (case GET_ALLOC s (HDRP p) of Some a \<Rightarrow> a \<noteq> 0 | None \<Rightarrow> False)"
| "bucket_chain s p ((q, sz) # rest) =
     (p = q \<and> GET_ALLOC s (HDRP p) = Some 0 \<and> GET_SIZE s (HDRP p) = Some sz
      \<and> (case SUCC s p of Some n \<Rightarrow> bucket_chain s n rest | None \<Rightarrow> False))"

text \<open>
  Fit search as the specification words it: the smallest bucket index \<open>i\<close> with
  \<open>required \<le> 2^i\<close>, or the last bucket if there is none; then the first block of size at
  least \<open>required\<close> in the buckets from there on, in ascending order, each in link order.
\<close>

definition start_bucket :: "64 word \<Rightarrow> nat" where
  "start_bucket required =
     (case find (\<lambda>i. required \<le> 2 ^ i) [0..<NUMLIST] of Some i \<Rightarrow> i | None \<Rightarrow> NUMLIST - 1)"

definition first_fit :: "64 word \<Rightarrow> (int \<times> 32 word) list \<Rightarrow> int" where
  "first_fit required blocks =
     (case find (\<lambda>(bp, sz). required \<le> ucast sz) blocks of Some (bp, sz) \<Rightarrow> bp | None \<Rightarrow> 0)"

definition fit_search :: "64 word \<Rightarrow> (nat \<Rightarrow> (int \<times> 32 word) list) \<Rightarrow> int" where
  "fit_search required buckets =
     first_fit required (concat (map buckets [start_bucket required..<NUMLIST]))"

text \<open>Example states: an initialised heap of 1024 bytes, and one whose provider is exhausted.\<close>

definition initial_heap :: heap_state where
  "initial_heap =
     (case mm_init (fresh_heap 4096 1024) of Some (r, s) \<Rightarrow> s | None \<Rightarrow> fresh_heap 4096 1024)"

definition example_heap :: heap_state where
  "example_heap =
     (case do { (a, s1) \<leftarrow> malloc initial_heap 16; (b, s2) \<leftarrow> malloc s1 16; free s2 a } of
        Some s \<Rightarrow> s | None \<Rightarrow> initial_heap)"

definition example_buckets :: "nat \<Rightarrow> (int \<times> 32 word) list" where
  "example_buckets = (\<lambda>i. [])(5 := [(4112, 24)], 8 := [(4160, 208)])"

definition full_heap :: heap_state where
  "full_heap =
     (case do { (r, s) \<leftarrow> mm_init (fresh_heap 4096 272); (p, s1) \<leftarrow> malloc s 16; Some s1 } of
        Some s \<Rightarrow> s | None \<Rightarrow> fresh_heap 4096 272)"

definition same_bounds :: "heap_state \<Rightarrow> heap_state \<Rightarrow> bool" where
  "same_bounds s s' \<longleftrightarrow>
     mem_start s' = mem_start s \<and> mem_brk s' = mem_brk s \<and> mem_max_addr s' = mem_max_addr s
     \<and> heap_listp s' = heap_listp s"

text \<open>
  The third invariant of the specification, read off the checker's walk: no block of the
  walk and its successor both have a clear allocated bit in the header.
\<close>

definition is_free :: "heap_state \<Rightarrow> int \<Rightarrow> bool" where
  "is_free s bp \<longleftrightarrow> GET_ALLOC s (HDRP bp) = Some 0"

fun no_free_pair :: "heap_state \<Rightarrow> int list \<Rightarrow> bool" where
  "no_free_pair s [] = True"
| "no_free_pair s [b] = True"
| "no_free_pair s (b # c # bs) = (\<not> (is_free s b \<and> is_free s c) \<and> no_free_pair s (c # bs))"

definition no_adjacent_free_blocks :: "heap_state \<Rightarrow> bool" where
  "no_adjacent_free_blocks s \<longleftrightarrow>
     (case heap_walk s (heap_listp s + DSIZE) of
        Some bps \<Rightarrow> no_free_pair s bps | None \<Rightarrow> False)"

text \<open>
  What is assumed of the provider before \<^verbatim>\<open>mm_init\<close>: it has handed out nothing, its
  addresses are positive and below \<open>2^64\<close> (a link takes 8 bytes), and it can give less
  than \<open>2^31\<close> bytes (a boundary tag holds the size in 32 bits).
\<close>

definition provider_ok :: "heap_state \<Rightarrow> bool" where
  "provider_ok s \<longleftrightarrow>
     0 < mem_start s \<and> mem_brk s = mem_start s
     \<and> mem_max_addr s - mem_start s < 2 ^ 31 \<and> mem_max_addr s < 2 ^ 64"

text \<open>
  The public operations as requests. \<open>call\<close> performs one and gives the returned pointer
  (null for \<^verbatim>\<open>free\<close>) with the new state. \<open>permitted L q\<close> is the caller's side of the
  contract when \<open>L\<close> are the live pointers: \<^verbatim>\<open>free\<close> and \<^verbatim>\<open>realloc\<close> take null or a
  live pointer. \<open>live_after\<close> gives the live pointers after a request that returned
  \<open>r\<close>. \<open>run\<close> performs a sequence of requests, each of them permitted and each
  returning. \<open>size_in_range\<close> holds of every request but a \<^verbatim>\<open>realloc\<close> with a size above
  \<open>2^64 - 16\<close>, the sizes whose adjusted size wraps around.
\<close>

datatype request = Malloc "64 word" | Free int | Realloc int "64 word" | Calloc "64 word" "64 word"

fun call :: "heap_state \<Rightarrow> request \<Rightarrow> (int \<times> heap_state) option" where
  "call s (Malloc n) = malloc s n"
| "call s (Free p) = do { s' \<leftarrow> free s p; Some (0, s') }"
| "call s (Realloc p n) = realloc s p n"
| "call s (Calloc k n) = calloc s k n"

fun permitted :: "int list \<Rightarrow> request \<Rightarrow> bool" where
  "permitted L (Malloc n) = True"
| "permitted L (Free p) = (p = 0 \<or> p \<in> set L)"
| "permitted L (Realloc p n) = (p = 0 \<or> p \<in> set L)"
| "permitted L (Calloc k n) = True"

fun live_after :: "int list \<Rightarrow> request \<Rightarrow> int \<Rightarrow> int list" where
  "live_after L (Malloc n) r = (if r = 0 then L else r # L)"
| "live_after L (Free p) r = removeAll p L"
| "live_after L (Realloc p n) r =
     (if n = 0 then removeAll p L else if r = 0 then L else r # removeAll p L)"
| "live_after L (Calloc k n) r = (if r = 0 then L else r # L)"

fun run :: "heap_state \<Rightarrow> int list \<Rightarrow> request list \<Rightarrow> (heap_state \<times> int list) option" where
  "run s L [] = Some (s, L)"
| "run s L (q # qs) =
     (if permitted L q then do { (r, s') \<leftarrow> call s q; run s' (live_after L q r) qs } else None)"

fun size_in_range :: "request \<Rightarrow> bool" where
  "size_in_range (Realloc p n) = (n \<le> - 16)"
| "size_in_range q = True"

text \<open>The required block size in the words of the specification, over the integers.\<close>

definition round_up_to_8 :: "int \<Rightarrow> int" where
  "round_up_to_8 x = (x + 7) div 8 * 8"

definition required_block_size :: "64 word \<Rightarrow> int" where
  "required_block_size requested = max (round_up_to_8 (uint requested + 8)) 16"

text \<open>
  More example states: two heaps reached by permitted requests, and a sequence of
  permitted requests that ends with \<^verbatim>\<open>realloc\<close> of the live pointer \<open>4216\<close> to
  \<open>2^64 - 1\<close> bytes. Then three states inside \<^verbatim>\<open>free\<close>, when the tags of the block have
  been cleared and \<^verbatim>\<open>coalesce\<close> has not run yet: \<open>released_heap\<close> for the first block
  (at \<open>4112\<close>, 24 bytes) of a heap with one allocated block, \<open>second_released\<close> for the
  second block (at \<open>4136\<close>, 24 bytes) of a heap with two, and \<open>tampered_released\<close>,
  which is \<open>second_released\<close> with another size in the header of the first block.
\<close>

definition served_heap :: heap_state where
  "served_heap =
     (case run initial_heap [] [Malloc 16, Malloc 16, Free 4112] of
        Some (s, L) \<Rightarrow> s | None \<Rightarrow> initial_heap)"

definition resized_heap :: heap_state where
  "resized_heap =
     (case run initial_heap [] [Malloc 24, Calloc 4 4, Realloc 4112 100, Free 0] of
        Some (s, L) \<Rightarrow> s | None \<Rightarrow> initial_heap)"

definition overrun_requests :: "request list" where
  "overrun_requests =
     [Malloc 16, Malloc 24, Malloc 40, Malloc 16, Malloc 24, Malloc 16,
      Free 4240, Free 4168, Free 4112, Realloc 4216 (- 1)]"

definition released_heap :: heap_state where
  "released_heap =
     (case do { (a, s1) \<leftarrow> malloc initial_heap 16;
                s2 \<leftarrow> PUT s1 (HDRP a) (PACK 24 0);
                f \<leftarrow> FTRP s2 a;
                PUT s2 f (PACK 24 0) } of
        Some s \<Rightarrow> s | None \<Rightarrow> initial_heap)"

definition second_released :: heap_state where
  "second_released =
     (case do { (a, s1) \<leftarrow> malloc initial_heap 16;
                (b, s2) \<leftarrow> malloc s1 16;
                s3 \<leftarrow> PUT s2 (HDRP b) (PACK 24 0);
                f \<leftarrow> FTRP s3 b;
                PUT s3 f (PACK 24 0) } of
        Some s \<Rightarrow> s | None \<Rightarrow> initial_heap)"

definition tampered_released :: heap_state where
  "tampered_released =
     (case PUT second_released (HDRP 4112) (PACK 1048576 1) of
        Some s \<Rightarrow> s | None \<Rightarrow> second_released)"

section \<open>Heap invariant\<close>

text \<open>
  The heap is described by the list of its blocks in address order, each with its size and
  its allocated bit. \<open>mk_tag\<close> is the boundary tag of such a block and \<open>tagw m a\<close> the
  32-bit word of the memory at \<open>a\<close>. \<open>bpl a bs\<close> gives every block its payload address
  when the first payload is at \<open>a\<close>, and \<open>blocks m a bs\<close> says that the memory holds
  these blocks one after the other: sizes are multiples of 8 and at least 16, and header
  and footer of each block hold its tag.
\<close>

definition mk_tag :: "int \<Rightarrow> bool \<Rightarrow> 32 word" where
  "mk_tag sz al = word_of_int (sz + (if al then 1 else 0))"

definition tagw :: "memory \<Rightarrow> int \<Rightarrow> 32 word" where
  "tagw m a = word_of_int (load_le m a 4)"

type_synonym block = "int \<times> bool"

fun total :: "block list \<Rightarrow> int" where
  "total [] = 0"
| "total ((sz, al) # bs) = sz + total bs"

fun bpl :: "int \<Rightarrow> block list \<Rightarrow> (int \<times> int \<times> bool) list" where
  "bpl a [] = []"
| "bpl a ((sz, al) # bs) = (a, sz, al) # bpl (a + sz) bs"

fun blocks :: "memory \<Rightarrow> int \<Rightarrow> block list \<Rightarrow> bool" where
  "blocks m a [] = True"
| "blocks m a ((sz, al) # bs) =
     (16 \<le> sz \<and> 8 dvd sz \<and> tagw m (a - 4) = mk_tag sz al
      \<and> tagw m (a + sz - 8) = mk_tag sz al \<and> blocks m (a + sz) bs)"

fun no_adjacent_free :: "block list \<Rightarrow> bool" where
  "no_adjacent_free [] = True"
| "no_adjacent_free [b] = True"
| "no_adjacent_free ((s1, a1) # (s2, a2) # bs) =
     ((a1 \<or> a2) \<and> no_adjacent_free ((s2, a2) # bs))"

text \<open>
  \<open>fpath m p ps r\<close>: following the links in the memory from \<open>p\<close> visits the payload
  addresses \<open>ps\<close> and then reaches \<open>r\<close>. \<open>bucket_of\<close> is the size class in the words
  of the specification and of the header comment of \<^verbatim>\<open>mm.c\<close>: the smallest index \<open>i\<close>
  with \<open>size \<le> 2^i\<close>, and the last bucket when no index has it. That the loops of
  \<^verbatim>\<open>freelist_insert\<close> and \<^verbatim>\<open>freelist_remove\<close> compute this index is the lemma
  \<open>class_loop_bucket\<close>.
\<close>

fun fpath :: "memory \<Rightarrow> int \<Rightarrow> int list \<Rightarrow> int \<Rightarrow> bool" where
  "fpath m p [] r = (p = r)"
| "fpath m p (q # qs) r = (p = q \<and> fpath m (load_le m q 8) qs r)"

definition bucket_of :: "int \<Rightarrow> nat" where
  "bucket_of sz =
     (case find (\<lambda>i. sz \<le> 2 ^ i) [0..<NUMLIST] of Some i \<Rightarrow> i | None \<Rightarrow> NUMLIST - 1)"

definition free_set :: "int \<Rightarrow> block list \<Rightarrow> (int \<times> int) set" where
  "free_set a bs = {(bp, sz). (bp, sz, False) \<in> set (bpl a bs)}"

text \<open>
  \<open>layout s bs\<close>: the heap of \<open>s\<close> is the padding word, the prologue (header and footer
  of size 8, allocated), the blocks \<open>bs\<close> and the epilogue header (size 0, allocated), and
  the provider is as \<open>provider_ok\<close> has it. \<open>lists_ok s FL\<close>: bucket \<open>i\<close> is a chain
  without repetition from its head to the prologue through exactly the blocks of \<open>FL\<close>
  whose size belongs to \<open>i\<close>. \<open>heap_at s bs FL\<close> has the buckets hold the free blocks
  \<open>FL\<close> among those of \<open>bs\<close>; \<open>heap_inv s bs\<close> has them hold all free blocks, with no
  two free blocks next to each other.
\<close>

definition layout :: "heap_state \<Rightarrow> block list \<Rightarrow> bool" where
  "layout s bs \<longleftrightarrow>
     0 < mem_start s \<and> heap_listp s = mem_start s + 8
     \<and> mem_brk s = mem_start s + 16 + total bs
     \<and> mem_brk s \<le> mem_max_addr s \<and> mem_max_addr s - mem_start s < 2 ^ 31
     \<and> mem_max_addr s < 2 ^ 64
     \<and> tagw (mem s) (mem_start s + 4) = mk_tag 8 True
     \<and> tagw (mem s) (mem_start s + 8) = mk_tag 8 True
     \<and> tagw (mem s) (mem_brk s - 4) = mk_tag 0 True
     \<and> blocks (mem s) (mem_start s + 16) bs"

definition lists_ok :: "heap_state \<Rightarrow> (int \<times> int) set \<Rightarrow> bool" where
  "lists_ok s FL \<longleftrightarrow>
     (\<forall>i<NUMLIST. \<exists>ps. fpath (mem s) (freelists s i) ps (heap_listp s) \<and> distinct ps
        \<and> set ps = {bp. \<exists>sz. (bp, sz) \<in> FL \<and> bucket_of sz = i})"

definition heap_at :: "heap_state \<Rightarrow> block list \<Rightarrow> (int \<times> int) set \<Rightarrow> bool" where
  "heap_at s bs FL \<longleftrightarrow>
     layout s bs \<and> FL \<subseteq> free_set (mem_start s + 16) bs \<and> lists_ok s FL"

definition heap_inv :: "heap_state \<Rightarrow> block list \<Rightarrow> bool" where
  "heap_inv s bs \<longleftrightarrow> heap_at s bs (free_set (mem_start s + 16) bs) \<and> no_adjacent_free bs"

text \<open>
  A block between the blocks \<open>pre\<close> and \<open>post\<close>: \<open>prev_free\<close> and \<open>next_free\<close> say
  whether it has a free neighbour on that side (the prologue and the epilogue are
  allocated), \<open>prev_size\<close> and \<open>next_size\<close> are the sizes of the free neighbours and 0
  without one, and \<open>coalesced pre sz post\<close> is the block list after merging a free block
  of size \<open>sz\<close> with them. \<open>FLout a pre old post\<close> are the free blocks outside the blocks
  \<open>old\<close>; \<open>free_region\<close> are the addresses of the free blocks, from the header up to the
  footer; \<open>alloc_set\<close> are the allocated blocks; \<open>placed csz n\<close> is what \<^verbatim>\<open>place\<close> makes
  of a free block of size \<open>csz\<close> for a request of \<open>n\<close> bytes.
\<close>

definition prev_free :: "block list \<Rightarrow> bool" where
  "prev_free pre \<longleftrightarrow> pre \<noteq> [] \<and> \<not> snd (last pre)"

definition next_free :: "block list \<Rightarrow> bool" where
  "next_free post \<longleftrightarrow> post \<noteq> [] \<and> \<not> snd (hd post)"

definition FLout :: "int \<Rightarrow> block list \<Rightarrow> block list \<Rightarrow> block list \<Rightarrow> (int \<times> int) set" where
  "FLout a pre old post = free_set a pre \<union> free_set (a + total pre + total old) post"

definition free_region :: "int \<Rightarrow> block list \<Rightarrow> int set" where
  "free_region a bs = {x. \<exists>q z. (q, z) \<in> free_set a bs \<and> q - 4 \<le> x \<and> x < q + z - 4}"

definition prev_size :: "block list \<Rightarrow> int" where
  "prev_size pre = (if prev_free pre then fst (last pre) else 0)"

definition next_size :: "block list \<Rightarrow> int" where
  "next_size post = (if next_free post then fst (hd post) else 0)"

definition coalesced :: "block list \<Rightarrow> int \<Rightarrow> block list \<Rightarrow> block list" where
  "coalesced pre sz post =
     (if prev_free pre then butlast pre else pre)
     @ [(prev_size pre + sz + next_size post, False)]
     @ (if next_free post then tl post else post)"

definition alloc_set :: "int \<Rightarrow> block list \<Rightarrow> (int \<times> int) set" where
  "alloc_set a bs = {(bp, sz). (bp, sz, True) \<in> set (bpl a bs)}"

definition placed :: "int \<Rightarrow> int \<Rightarrow> block list" where
  "placed csz n = (if 16 \<le> csz - n then [(n, True), (csz - n, False)] else [(csz, True)])"

text \<open>The invariant of a sequence of requests: the live pointers are the allocated blocks.\<close>

definition live_inv :: "heap_state \<Rightarrow> int list \<Rightarrow> bool" where
  "live_inv s L \<longleftrightarrow> (\<exists>bs. heap_inv s bs \<and> set L = fst ` alloc_set (mem_start s + 16) bs)"

section \<open>Size arithmetic\<close>

lemma uint_pow2_64: "n < 64 \<Longrightarrow> uint (2 ^ n :: 64 word) = 2 ^ n"
proof -
  assume n: "n < 64"
  have "uint (word_of_int (2 ^ n) :: 64 word) = 2 ^ n mod 2 ^ 64"
    by (simp only: uint_word_of_int) simp
  moreover have "(2::int) ^ n < 2 ^ 64"
    using power_strict_increasing[of n 64 "2::int"] n by simp
  ultimately show ?thesis by (simp add: word_of_int_2p)
qed

lemma pow2_mono64: "i \<le> j \<Longrightarrow> j < 64 \<Longrightarrow> (2 ^ i :: 64 word) \<le> 2 ^ j"
  by (simp add: word_le_def uint_pow2_64)

lemma adjust_size_wraps: "2 ^ 64 - 16 < sz \<Longrightarrow> adjust_size sz = 16"
proof -
  assume h: "2 ^ 64 - 16 < sz"
  have lo: "uint sz > 2 ^ 64 - 16" using h by (simp add: word_less_def)
  have hi: "uint sz < 2 ^ 64" using uint_lt2p[of sz] by simp
  have "uint (sz + 15) = (uint sz + 15) mod 2 ^ 64"
    by (simp add: uint_word_ariths)
  also have "\<dots> = uint sz + 15 - 2 ^ 64" using lo hi
    by (simp add: mod_pos_geq)
  finally have u: "uint (sz + 15) < 15" using hi by simp
  have "(sz + 15) AND NOT 7 \<le> sz + 15" by (rule word_and_le2)
  then have "uint ((sz + 15) AND NOT 7) < 16" using u by (simp add: word_le_def)
  then have "ALIGN (sz + 8) < 16" by (simp add: word_less_def ALIGN_def add.assoc)
  then show ?thesis by (auto simp: adjust_size_def MINSIZE_def max_def)
qed

lemma malloc_adjust_cong: "adjust_size a = adjust_size b \<Longrightarrow> malloc s a = malloc s b"
  by (simp add: malloc_def)

text \<open>
  C10. For every requested size above \<open>SIZE_MAX - 15\<close> the adjusted block size wraps around
  to 16, and on the initialised example heap \<^verbatim>\<open>malloc\<close> then returns a block whose header
  is \<open>17\<close> (size 16, allocated): a payload of 8 bytes for a request of almost \<open>2^64\<close>.
\<close>

theorem malloc_size_wraps:
  "2 ^ 64 - 16 < sz \<Longrightarrow>
   adjust_size sz = 16 \<and>
   do { (bp, s') \<leftarrow> malloc initial_heap sz; h \<leftarrow> GET s' (HDRP bp); Some (bp, h) }
     = Some (4112, 17)"
proof -
  assume h: "2 ^ 64 - 16 < sz"
  have a: "adjust_size sz = 16" using h by (rule adjust_size_wraps)
  have "adjust_size sz = adjust_size 0" unfolding a by (simp add: adjust_size_def ALIGN_def MINSIZE_def)
  then have m: "malloc initial_heap sz = malloc initial_heap 0" by (rule malloc_adjust_cong)
  have "do { (bp, s') \<leftarrow> malloc initial_heap 0; h \<leftarrow> GET s' (HDRP bp); Some (bp, h) }
          = Some (4112, 17)"
    by code_simp
  with a m show ?thesis by simp
qed

theorem malloc_size_wraps_witness:
  "2 ^ 64 - 16 < (- 1 :: 64 word) \<and> adjust_size (- 1) = 16 \<and>
   do { (bp, s') \<leftarrow> malloc initial_heap (- 1); h \<leftarrow> GET s' (HDRP bp); Some (bp, h) }
     = Some (4112, 17)"
proof -
  have h: "2 ^ 64 - 16 < (- 1 :: 64 word)" by simp
  show ?thesis using h malloc_size_wraps[OF h] by simp
qed

section \<open>Fit search\<close>

lemma scan_list_chain:
  "bucket_chain s p L \<Longrightarrow>
   scan_list s asize p = Some (map_option fst (find (\<lambda>(bp, sz). asize \<le> ucast sz) L))"
proof (induction L arbitrary: p)
  case Nil
  then show ?case
    by (subst scan_list.simps) (auto split: option.splits)
next
  case (Cons x L)
  obtain q sz where x: "x = (q, sz)" by (cases x)
  from Cons.prems x obtain n where
    h: "q = p" "GET_ALLOC s (HDRP p) = Some 0" "GET_SIZE s (HDRP p) = Some sz"
       "SUCC s p = Some n" "bucket_chain s n L"
    by (auto split: option.splits)
  show ?case
    by (subst scan_list.simps) (simp add: h x Cons.IH[OF h(5)])
qed

lemma find_append_opt:
  "find P (xs @ ys) = (case find P xs of Some x \<Rightarrow> Some x | None \<Rightarrow> find P ys)"
  by (induction xs) auto

lemma first_fit_append:
  "first_fit asize (xs @ ys) =
     (case map_option fst (find (\<lambda>(bp, sz). asize \<le> ucast sz) xs) of
        Some bp \<Rightarrow> bp | None \<Rightarrow> first_fit asize ys)"
  by (auto simp: first_fit_def find_append_opt split: option.splits)

lemma find_fit_loop_chain:
  assumes ch: "\<forall>i<NUMLIST. bucket_chain s (freelists s i) (L i)"
  shows "find_fit_loop s asize i =
         Some (first_fit asize (concat (map L (filter (\<lambda>j. asize \<le> 2 ^ j) [i..<NUMLIST]))))"
proof (induction "NUMLIST - i" arbitrary: i)
  case 0
  then show ?case
    by (subst find_fit_loop.simps) (simp add: first_fit_def)
next
  case (Suc k)
  then have lt: "i < NUMLIST" and k: "k = NUMLIST - Suc i" by auto
  have up: "[i..<NUMLIST] = i # [Suc i..<NUMLIST]"
    using lt by (simp add: upt_conv_Cons)
  note IH = Suc.hyps(1)[OF k]
  show ?case
  proof (cases "asize \<le> 2 ^ i")
    case True
    have sc: "scan_list s asize (freelists s i) =
              Some (map_option fst (find (\<lambda>(bp, sz). asize \<le> ucast sz) (L i)))"
      using ch lt by (simp add: scan_list_chain)
    show ?thesis
      by (subst find_fit_loop.simps)
         (simp add: lt True sc up IH first_fit_append split: option.splits)
  next
    case False
    show ?thesis
      by (subst find_fit_loop.simps) (simp add: lt False up IH)
  qed
qed

lemma filter_pow2_upt:
  "filter (\<lambda>j. (asize :: 64 word) \<le> 2 ^ j) [0..<NUMLIST] =
   (case find (\<lambda>i. asize \<le> 2 ^ i) [0..<NUMLIST] of Some i \<Rightarrow> [i..<NUMLIST] | None \<Rightarrow> [])"
proof -
  have gen: "n \<le> 64 \<Longrightarrow> filter (\<lambda>j. asize \<le> 2 ^ j) [i..<n] =
        (case find (\<lambda>i. asize \<le> 2 ^ i) [i..<n] of Some i \<Rightarrow> [i..<n] | None \<Rightarrow> [])" for i n
  proof (induction "n - i" arbitrary: i)
    case 0
    then show ?case by simp
  next
    case (Suc k)
    then have lt: "i < n" and k: "k = n - (i + 1)" by auto
    have up: "[i..<n] = i # [i + 1..<n]" using lt by (simp add: upt_conv_Cons)
    show ?case
    proof (cases "asize \<le> 2 ^ i")
      case True
      have "\<forall>j\<in>set [i + 1..<n]. asize \<le> 2 ^ j"
      proof
        fix j assume "j \<in> set [i + 1..<n]"
        then have "i \<le> j" "j < 64" using Suc.prems by auto
        then have "(2 ^ i :: 64 word) \<le> 2 ^ j" by (rule pow2_mono64)
        with True show "asize \<le> 2 ^ j" by simp
      qed
      then have "filter (\<lambda>j. asize \<le> 2 ^ j) [i + 1..<n] = [i + 1..<n]"
        by (simp only: filter_True)
      then show ?thesis using True up by simp
    next
      case False
      then show ?thesis using up Suc.hyps(1)[OF k Suc.prems] by simp
    qed
  qed
  show ?thesis using gen[of NUMLIST 0] by (simp add: NUMLIST_def)
qed

lemma find_fit_chain:
  assumes ch: "\<forall>i<NUMLIST. bucket_chain s (freelists s i) (buckets i)"
  shows "find_fit s required = Some (fit_search required buckets)"
proof (cases "required > 2 ^ 24")
  case True
  have nf: "find (\<lambda>i. required \<le> 2 ^ i) [0..<NUMLIST] = None"
  proof -
    have "\<forall>i\<in>set [0..<NUMLIST]. \<not> required \<le> 2 ^ i"
    proof
      fix i assume "i \<in> set [0..<NUMLIST]"
      then have "i \<le> 24" "(24::nat) < 64" by (auto simp: NUMLIST_def)
      then have "(2 ^ i :: 64 word) \<le> 2 ^ 24" by (rule pow2_mono64)
      with True show "\<not> required \<le> 2 ^ i" by simp
    qed
    then show ?thesis by (simp only: find_None_iff) simp
  qed
  have sb: "start_bucket required = 24" unfolding start_bucket_def nf by (simp add: NUMLIST_def)
  have l: "[24..<NUMLIST] = [24]" by (simp add: NUMLIST_def)
  have "bucket_chain s (freelists s 24) (buckets 24)"
    using ch by (simp add: NUMLIST_def)
  then have sc: "scan_list s required (freelists s 24) =
            Some (map_option fst (find (\<lambda>(bp, sz). required \<le> ucast sz) (buckets 24)))"
    by (rule scan_list_chain)
  have ff: "find_fit s required =
        scan_list s required (freelists s 24)
          \<bind> (\<lambda>r. case r of Some bp \<Rightarrow> Some bp | None \<Rightarrow> Some 0)"
    using True by (simp add: find_fit_def NUMLIST_def)
  show ?thesis
    unfolding ff sc fit_search_def sb l
    by (simp add: first_fit_def split: option.splits)
next
  case False
  then have le: "required \<le> 2 ^ 24" by simp
  have "\<not> (\<forall>i\<in>set [0..<NUMLIST]. \<not> required \<le> 2 ^ i)"
    using le by (auto simp: NUMLIST_def intro!: bexI[of _ 24])
  then obtain i where fi: "find (\<lambda>i. required \<le> 2 ^ i) [0..<NUMLIST] = Some i"
    by (cases "find (\<lambda>i. required \<le> 2 ^ i) [0..<NUMLIST]") (simp_all only: find_None_iff, auto)
  have ff: "find_fit s required = find_fit_loop s required 0"
    using False by (simp add: find_fit_def NUMLIST_def)
  show ?thesis
    unfolding ff find_fit_loop_chain[OF ch] filter_pow2_upt fi fit_search_def start_bucket_def
    by simp
qed

lemma all_below_list: "(\<forall>i<n. P i) = list_all P [0..<n]"
  by (auto simp: list_all_iff)

text \<open>
  C5. Whenever every bucket is a well-formed chain, \<^verbatim>\<open>find_fit\<close> returns what the
  specified search returns: the first block of size at least \<open>required\<close> in the buckets
  from \<open>start_bucket required\<close> up to the last one, each read in link order, and the null
  pointer if there is none.
\<close>

theorem find_fit_first_fit:
  "\<forall>i<NUMLIST. bucket_chain s (freelists s i) (buckets i) \<Longrightarrow>
   find_fit s required = Some (fit_search required buckets)"
  by (rule find_fit_chain)

theorem find_fit_first_fit_witness:
  "list_all (\<lambda>i. bucket_chain example_heap (freelists example_heap i) (example_buckets i))
     [0..<NUMLIST]
   \<and> find_fit example_heap 16 = Some 4112
   \<and> fit_search 16 example_buckets = 4112"
proof -
  have l: "list_all (\<lambda>i. bucket_chain example_heap (freelists example_heap i) (example_buckets i))
     [0..<NUMLIST]"
    by code_simp
  then have h: "\<forall>i<NUMLIST. bucket_chain example_heap (freelists example_heap i) (example_buckets i)"
    by (simp only: all_below_list)
  have v: "fit_search 16 example_buckets = 4112"
    by code_simp
  show ?thesis using l v find_fit_first_fit[OF h, of 16] by simp
qed

section \<open>Allocation failure\<close>

lemma same_bounds_refl [simp]: "same_bounds s s"
  by (simp add: same_bounds_def)

lemma same_bounds_trans: "same_bounds s s1 \<Longrightarrow> same_bounds s1 s2 \<Longrightarrow> same_bounds s s2"
  by (simp add: same_bounds_def)

lemma PUT_bounds: "PUT s p v = Some s' \<Longrightarrow> same_bounds s s'"
  by (auto simp: PUT_def same_bounds_def split: if_splits)

lemma set_SUCC_bounds: "set_SUCC s p q = Some s' \<Longrightarrow> same_bounds s s'"
  by (auto simp: set_SUCC_def same_bounds_def split: if_splits)

lemma freelist_insert_bounds: "freelist_insert s bp = Some s' \<Longrightarrow> same_bounds s s'"
  by (auto simp: freelist_insert_def same_bounds_def Let_def set_SUCC_def
      split: if_splits Option.bind_splits)

lemma freelist_remove_bounds: "freelist_remove s bp = Some s' \<Longrightarrow> same_bounds s s'"
  by (auto simp: freelist_remove_def same_bounds_def Let_def set_SUCC_def
      split: if_splits Option.bind_splits)

lemma freelist_insert_in_heap:
  "freelist_insert s bp = Some s' \<Longrightarrow> mem_start s \<le> bp - 4"
  by (auto simp: freelist_insert_def GET_SIZE_def GET_def HDRP_def WSIZE_def in_heap_range_def
      split: if_splits Option.bind_splits)

lemma freelist_insert_facts:
  "freelist_insert s bp = Some s' \<Longrightarrow> same_bounds s s' \<and> mem_start s \<le> bp - 4"
  by (simp add: freelist_insert_bounds freelist_insert_in_heap)

lemma coalesce_bounds:
  "coalesce s bp = Some (r, s') \<Longrightarrow> same_bounds s s' \<and> mem_start s \<le> r - 4"
  unfolding coalesce_def Let_def
  by (auto split: if_splits Option.bind_splits
      dest!: PUT_bounds freelist_remove_bounds freelist_insert_facts
      simp: same_bounds_def)

lemma place_bounds: "place s bp asize = Some s' \<Longrightarrow> same_bounds s s'"
  unfolding place_def Let_def
  by (auto split: if_splits Option.bind_splits
      dest!: PUT_bounds freelist_remove_bounds coalesce_bounds
      simp: same_bounds_def)

lemma extend_heap_null:
  assumes "extend_heap s words = Some (0, s')" and "0 \<le> mem_start s"
      and "mem_start s \<le> mem_brk s"
  shows "fst (mem_sbrk s (uint (extend_size words))) = - 1 \<and> s' = s"
proof (cases "fst (mem_sbrk s (uint (extend_size words))) = - 1")
  case True
  then show ?thesis using assms
    by (auto simp: extend_heap_def Let_def mem_sbrk_def split: if_splits prod.splits)
next
  case False
  then obtain s1 where s1: "mem_sbrk s (uint (extend_size words)) = (mem_brk s, s1)"
      and st: "mem_start s1 = mem_start s"
    by (auto simp: mem_sbrk_def split: if_splits)
  from assms(1) False s1 obtain s4 where "coalesce s4 (mem_brk s) = Some (0, s')"
      and "mem_start s4 = mem_start s"
    using st
    by (auto simp: extend_heap_def Let_def split: if_splits Option.bind_splits
        dest!: PUT_bounds simp: same_bounds_def)
  then have "mem_start s \<le> 0 - 4" by (auto dest!: coalesce_bounds)
  with assms(2) show ?thesis by simp
qed

lemma malloc_null:
  assumes "malloc s sz = Some (0, s')" and "0 \<le> mem_start s"
      and "mem_start s \<le> mem_brk s"
  shows "find_fit s (adjust_size sz) = Some 0
         \<and> fst (mem_sbrk s (uint (extend_size (max (adjust_size sz) CHUNKSIZE div 4)))) = - 1
         \<and> s' = s"
  using assms
  by (auto simp: malloc_def Let_def split: if_splits Option.bind_splits
      dest: extend_heap_null)

lemma malloc_fails:
  assumes "find_fit s (adjust_size sz) = Some 0"
      and "fst (mem_sbrk s (uint (extend_size (max (adjust_size sz) CHUNKSIZE div 4)))) = - 1"
      and "0 \<le> mem_start s" and "mem_start s \<le> mem_brk s"
  shows "malloc s sz = Some (0, s)"
  using assms
  by (auto simp: malloc_def Let_def extend_heap_def mem_sbrk_def split: if_splits prod.splits)

lemma full_heap_bounds: "0 \<le> mem_start full_heap \<and> mem_start full_heap \<le> mem_brk full_heap"
  by code_simp

lemma full_heap_no_fit: "find_fit full_heap (adjust_size 1000) = Some 0"
  by code_simp

lemma full_heap_no_memory:
  "fst (mem_sbrk full_heap (uint (extend_size (max (adjust_size 1000) CHUNKSIZE div 4)))) = - 1"
  by code_simp

text \<open>
  \<^verbatim>\<open>malloc\<close> returns the null pointer exactly when the fit search finds nothing and
  the provider refuses the growth request; in that case the state it returns is the state
  it was given: no block, no bucket and no bound has changed.
\<close>

theorem malloc_null_iff:
  assumes "0 \<le> mem_start s" and "mem_start s \<le> mem_brk s"
  shows "((\<exists>s'. malloc s sz = Some (0, s')) \<longleftrightarrow>
          (find_fit s (adjust_size sz) = Some 0 \<and>
           fst (mem_sbrk s (uint (extend_size (max (adjust_size sz) CHUNKSIZE div 4)))) = - 1))
         \<and> (\<forall>s'. malloc s sz = Some (0, s') \<longrightarrow> s' = s)"
proof -
  let ?fails = "find_fit s (adjust_size sz) = Some 0 \<and>
           fst (mem_sbrk s (uint (extend_size (max (adjust_size sz) CHUNKSIZE div 4)))) = - 1"
  have 1: "?fails \<and> s' = s" if "malloc s sz = Some (0, s')" for s'
    using malloc_null[OF that assms] by simp
  have 2: "malloc s sz = Some (0, s)" if "?fails"
    using that assms by (simp add: malloc_fails)
  show ?thesis using 1 2 by blast
qed

theorem malloc_null_iff_witness:
  "0 \<le> mem_start full_heap \<and> mem_start full_heap \<le> mem_brk full_heap
   \<and> malloc full_heap 1000 = Some (0, full_heap)
   \<and> find_fit full_heap (adjust_size 1000) = Some 0
   \<and> fst (mem_sbrk full_heap (uint (extend_size (max (adjust_size 1000) CHUNKSIZE div 4)))) = - 1"
proof -
  have b: "0 \<le> mem_start full_heap" "mem_start full_heap \<le> mem_brk full_heap"
    using full_heap_bounds by simp_all
  show ?thesis
    using b full_heap_no_fit full_heap_no_memory malloc_null_iff[OF b, of 1000] by blast
qed

text \<open>
  C9 (as amended). \<^verbatim>\<open>realloc(p, 0)\<close> is \<^verbatim>\<open>free(p)\<close> followed by returning null;
  \<^verbatim>\<open>realloc(NULL, n)\<close> is \<^verbatim>\<open>malloc(n)\<close> for every \<open>n\<close> other than 0; and when the
  allocation inside \<^verbatim>\<open>realloc\<close> returns null, \<^verbatim>\<open>realloc\<close> returns null and the
  state is unchanged.
\<close>

theorem realloc_cases:
  assumes "0 \<le> mem_start s" and "mem_start s \<le> mem_brk s"
  shows "realloc s p 0 = map_option (Pair 0) (free s p)
         \<and> (n \<noteq> 0 \<longrightarrow> realloc s 0 n = malloc s n)
         \<and> (n \<noteq> 0 \<and> p \<noteq> 0 \<and> (\<exists>s'. malloc s n = Some (0, s'))
              \<longrightarrow> realloc s p n = Some (0, s) \<and> malloc s n = Some (0, s))"
proof (intro conjI impI)
  show "realloc s p 0 = map_option (Pair 0) (free s p)"
    by (cases "free s p") (simp_all add: realloc_def)
  show "realloc s 0 n = malloc s n" if "n \<noteq> 0"
    using that by (simp add: realloc_def)
  assume h: "n \<noteq> 0 \<and> p \<noteq> 0 \<and> (\<exists>s'. malloc s n = Some (0, s'))"
  then obtain s' where m: "malloc s n = Some (0, s')" by blast
  from malloc_null[OF m assms] have "s' = s" by simp
  with m show "malloc s n = Some (0, s)" by simp
  then show "realloc s p n = Some (0, s)" using h by (simp add: realloc_def)
qed

theorem realloc_cases_witness:
  "0 \<le> mem_start full_heap \<and> mem_start full_heap \<le> mem_brk full_heap
   \<and> (1000 :: 64 word) \<noteq> 0 \<and> (4112 :: int) \<noteq> 0
   \<and> malloc full_heap 1000 = Some (0, full_heap)
   \<and> realloc full_heap 4112 1000 = Some (0, full_heap)
   \<and> realloc full_heap 0 1000 = malloc full_heap 1000
   \<and> realloc full_heap 4112 0 = map_option (Pair 0) (free full_heap 4112)"
proof -
  have b: "0 \<le> mem_start full_heap" "mem_start full_heap \<le> mem_brk full_heap"
    using full_heap_bounds by simp_all
  have m: "malloc full_heap 1000 = Some (0, full_heap)"
    using full_heap_no_fit full_heap_no_memory b by (rule malloc_fails)
  show ?thesis
    using b m realloc_cases[OF b, of 4112 1000] by simp
qed

text \<open>
  The claim C9 as stated fails for \<open>n = 0\<close>: \<^verbatim>\<open>realloc(NULL, 0)\<close> returns null, while
  \<^verbatim>\<open>malloc(0)\<close> returns a block.
\<close>

theorem realloc_null_zero:
  "map_option fst (realloc initial_heap 0 0) = Some 0
   \<and> map_option fst (malloc initial_heap 0) = Some 4112"
  by code_simp

lemma calloc_null:
  assumes "malloc s (nmemb * sz) = Some (0, s1)" and "- 4 < mem_start s1"
  shows "calloc s nmemb sz = None"
  using assms
  by (simp add: calloc_def GET_SIZE_def GET_def HDRP_def WSIZE_def in_heap_range_def)

text \<open>
  C2. On a heap whose provider is exhausted \<^verbatim>\<open>malloc(1000)\<close> returns null; \<^verbatim>\<open>calloc\<close>
  then reads the header of the null pointer, which lies outside the heap, and has no
  result, where the claim has it return null.
\<close>

theorem calloc_null_dereference:
  "do { (bp, s1) \<leftarrow> malloc full_heap (1 * 1000);
        Some (bp, GET_SIZE s1 (HDRP bp), map_option fst (calloc full_heap 1 1000)) }
   = Some (0, None, None)"
  by code_simp

section \<open>Invariant preservation\<close>

lemma store_le_outside: "x < a \<or> a + int n \<le> x \<Longrightarrow> store_le m a n v x = m x"
  by (induction n arbitrary: m a v) auto

lemma load_le_cong:
  "(\<And>x. a \<le> x \<Longrightarrow> x < a + int n \<Longrightarrow> m x = m' x) \<Longrightarrow> load_le m a n = load_le m' a n"
  by (induction n arbitrary: a) auto

lemma load_le_bounds: "0 \<le> load_le m a n \<and> load_le m a n < 256 ^ n"
proof (induction n arbitrary: a)
  case 0
  then show ?case by simp
next
  case (Suc n)
  have "0 \<le> uint (m a)" "uint (m a) < 256" using uint_lt2p[of "m a"] by simp_all
  with Suc[of "a + 1"] show ?case by simp
qed

lemma load_store_le: "load_le (store_le m a n v) a n = v mod 256 ^ n"
proof (induction n arbitrary: m a v)
  case 0
  then show ?case by simp
next
  case (Suc n)
  have "store_le (m(a := word_of_int v)) (a + 1) n (v div 256) a = (word_of_int v :: 8 word)"
    by (simp add: store_le_outside)
  moreover have "uint (word_of_int v :: 8 word) = v mod 256"
    by (simp add: uint_word_of_int)
  moreover have "v mod 256 + 256 * (v div 256 mod 256 ^ n) = v mod (256 * 256 ^ n)"
    using zmod_zmult2_eq[of "256 ^ n" v 256] by simp
  ultimately show ?case using Suc by simp
qed

lemma load_store_le_disj:
  "b + int k \<le> a \<or> a + int n \<le> b \<Longrightarrow> load_le (store_le m a n v) b k = load_le m b k"
  by (rule load_le_cong) (auto simp: store_le_outside)

lemma seven_mask: "(7 :: 'a :: len word) = mask 3"
  by (simp add: mask_eq_exp_minus_1)

lemma and_not_mask_split: "(x AND NOT (mask n)) + (x AND mask n) = (x :: 'a :: len word)"
  by (metis (no_types, lifting) bit.conj_disj_distrib bit.de_Morgan_disj
    disjunctive_add_eq_or word_and_not word_ao_absorbs(3) word_not_not)

lemma uint_take_bit3: "uint (x AND mask 3 :: 'a :: len word) = uint x mod 8"
proof -
  have "uint (take_bit 3 x) = take_bit 3 (uint x)" by (rule unsigned_take_bit_eq)
  then show ?thesis by (simp add: take_bit_eq_mask[symmetric] take_bit_eq_mod)
qed

lemma uint_and_not7: "uint ((x :: 'a :: len word) AND NOT 7) = uint x - uint x mod 8"
proof -
  have "x AND NOT 7 = x - (x AND mask 3)"
    using and_not_mask_split[of x 3] by (simp add: seven_mask algebra_simps)
  moreover have "x AND mask 3 \<le> x" by (rule word_and_le2)
  ultimately show ?thesis
    by (metis uint_minus_simple_iff uint_take_bit3 word_and_le2)
qed

lemma uint_and_1: "uint ((x :: 'a :: len word) AND 1) = uint x mod 2"
  by (metis and_one_eq uint_and unsigned_1)

lemma or_1_even: "even (uint (w :: 'a :: len word)) \<Longrightarrow> w OR 1 = w + 1"
proof -
  assume "even (uint w)"
  then have "uint (w AND 1) = 0" by (simp add: uint_and_1)
  then have "w AND 1 = 0" by (simp only: uint_0_iff)
  then have "even w" by (simp add: and_one_eq even_iff_mod_2_eq_zero)
  then show ?thesis by (simp add: or_one_eq)
qed

lemma uint_mk_tag:
  assumes "8 dvd sz" "0 \<le> sz" "sz < 2 ^ 32"
  shows "uint (mk_tag sz al) = sz + (if al then 1 else 0)"
proof -
  let ?v = "sz + (if al then 1 else 0)"
  have "sz + 8 \<le> 2 ^ 32" using assms by (elim dvdE) simp
  then have r: "0 \<le> ?v" "?v < 2 ^ 32" using assms(2) by simp_all
  have "uint (word_of_int ?v :: 32 word) = ?v mod 2 ^ 32"
    by (simp only: uint_word_of_int) simp
  also have "\<dots> = ?v" using r by (simp only: mod_pos_pos_trivial)
  finally show ?thesis by (simp only: mk_tag_def)
qed

lemma mk_tag_size:
  assumes "8 dvd sz" "0 \<le> sz" "sz < 2 ^ 32"
  shows "uint (mk_tag sz al AND NOT 7) = sz"
proof -
  have u: "uint (mk_tag sz al) = sz + (if al then 1 else 0)"
    by (rule uint_mk_tag[OF assms])
  have "uint (mk_tag sz al AND NOT 7) = uint (mk_tag sz al) - uint (mk_tag sz al) mod 8"
    by (rule uint_and_not7)
  also have "\<dots> = sz" unfolding u using assms(1) by (cases al) presburger+
  finally show ?thesis .
qed

lemma mk_tag_alloc:
  assumes "8 dvd sz" "0 \<le> sz" "sz < 2 ^ 32"
  shows "mk_tag sz al AND 1 = (if al then 1 else 0)"
proof -
  have u: "uint (mk_tag sz al) = sz + (if al then 1 else 0)"
    by (rule uint_mk_tag[OF assms])
  have "uint (mk_tag sz al AND 1) = uint (mk_tag sz al) mod 2"
    by (rule uint_and_1)
  also have "\<dots> = (if al then 1 else 0)" unfolding u using assms(1) by (cases al) presburger+
  finally show ?thesis by (cases al) (simp_all add: word_uint_eq_iff)
qed

lemma tagw_store:
  "tagw (store_le m a 4 (uint (t :: 32 word))) a = t"
proof -
  have "uint t mod 256 ^ 4 = uint t" using uint_lt2p[of t] by simp
  then show ?thesis by (simp add: tagw_def load_store_le)
qed

lemma tagw_store_disj:
  "b + 4 \<le> a \<or> a + int n \<le> b \<Longrightarrow> tagw (store_le m a n v) b = tagw m b"
  using load_store_le_disj[of b 4 a n m v] by (simp add: tagw_def)

lemma uint_ucast_32_64: "uint (ucast (x :: 32 word) :: 64 word) = uint x"
proof -
  have "uint (ucast x :: 64 word) = take_bit 64 (uint x)"
    using unsigned_ucast_eq[of x, where 'a=int and 'c=64] by simp
  moreover have "uint x < 2 ^ 64" using uint_lt2p[of x] by simp
  ultimately show ?thesis by (simp add: take_bit_eq_mod)
qed

lemma PACK_tag0:
  "(ucast (PACK w 0) :: 32 word) = mk_tag (uint w) False"
  unfolding PACK_def mk_tag_def by simp

lemma PACK_tag1:
  assumes "8 dvd uint w" "uint w < 2 ^ 32"
  shows "(ucast (PACK w 1) :: 32 word) = mk_tag (uint w) True"
proof -
  have "even (uint w)" using assms(1) by (elim dvdE) simp
  then have p: "PACK w 1 = w + 1" unfolding PACK_def by (rule or_1_even)
  have "uint (w + 1) = uint w + uint (1 :: 64 word)"
    using uint_add_lem[of w 1] assms(2) by simp
  then have "uint (PACK w 1) = uint w + 1" by (simp add: p)
  then have "(word_of_int (uint (PACK w 1)) :: 32 word) = word_of_int (uint w + 1)"
    by (simp only:)
  then show ?thesis unfolding mk_tag_def by (simp only: ucast_eq if_True)
qed

lemma total_append: "total (xs @ ys) = total xs + total ys"
  by (induction xs) auto

lemma bpl_append: "bpl a (xs @ ys) = bpl a xs @ bpl (a + total xs) ys"
  by (induction xs arbitrary: a) (auto simp: add.assoc)

lemma blocks_append: "blocks m a (xs @ ys) = (blocks m a xs \<and> blocks m (a + total xs) ys)"
  by (induction xs arbitrary: a) (auto simp: add.assoc)

lemma blocks_total_nonneg: "blocks m a bs \<Longrightarrow> 0 \<le> total bs"
  by (induction bs arbitrary: a) auto

lemma tagw_cong: "(\<And>x. a \<le> x \<Longrightarrow> x < a + 4 \<Longrightarrow> m' x = m x) \<Longrightarrow> tagw m' a = tagw m a"
  using load_le_cong[of a 4 m' m] by (simp add: tagw_def)

lemma blocks_frame:
  "blocks m a bs \<Longrightarrow> (\<And>x. a - 4 \<le> x \<Longrightarrow> x < a + total bs - 4 \<Longrightarrow> m' x = m x)
   \<Longrightarrow> blocks m' a bs"
proof (induction bs arbitrary: a)
  case Nil
  then show ?case by simp
next
  case (Cons b bs)
  obtain sz al where b: "b = (sz, al)" by (cases b)
  from Cons.prems(1) b have h: "16 \<le> sz" "8 dvd sz" "tagw m (a - 4) = mk_tag sz al"
    "tagw m (a + sz - 8) = mk_tag sz al" "blocks m (a + sz) bs" by auto
  have t: "0 \<le> total bs" using h(5) by (rule blocks_total_nonneg)
  have eq: "m' x = m x" if "a - 4 \<le> x" "x < a + sz + total bs - 4" for x
    using Cons.prems(2)[of x] that b by (simp add: add.assoc)
  have 1: "tagw m' (a - 4) = tagw m (a - 4)"
    using h(1) t by (intro tagw_cong eq) auto
  have 2: "tagw m' (a + sz - 8) = tagw m (a + sz - 8)"
    using h(1) t by (intro tagw_cong eq) auto
  have 3: "blocks m' (a + sz) bs"
    using h(1) by (intro Cons.IH[OF h(5)] eq) auto
  show ?case using h 1 2 3 b by simp
qed

lemma bpl_bounds:
  "blocks m a bs \<Longrightarrow> (bp, sz, al) \<in> set (bpl a bs)
   \<Longrightarrow> a \<le> bp \<and> bp + sz \<le> a + total bs \<and> 16 \<le> sz \<and> 8 dvd sz
       \<and> tagw m (bp - 4) = mk_tag sz al \<and> tagw m (bp + sz - 8) = mk_tag sz al"
proof (induction bs arbitrary: a)
  case Nil
  then show ?case by simp
next
  case (Cons b bs)
  obtain sz' al' where b: "b = (sz', al')" by (cases b)
  from Cons.prems(1) b have h: "16 \<le> sz'" "blocks m (a + sz') bs" by auto
  have t: "0 \<le> total bs" using h(2) by (rule blocks_total_nonneg)
  show ?case
  proof (cases "(bp, sz, al) = (a, sz', al')")
    case True
    then show ?thesis using Cons.prems(1) b t by auto
  next
    case False
    then have "(bp, sz, al) \<in> set (bpl (a + sz') bs)" using Cons.prems(2) b by auto
    from Cons.IH[OF h(2) this] show ?thesis using h(1) b by auto
  qed
qed

lemma bpl_split:
  "(bp, sz, al) \<in> set (bpl a bs) \<Longrightarrow> \<exists>pre post. bs = pre @ (sz, al) # post \<and> bp = a + total pre"
proof (induction bs arbitrary: a)
  case Nil
  then show ?case by simp
next
  case (Cons b bs)
  obtain sz' al' where b: "b = (sz', al')" by (cases b)
  show ?case
  proof (cases "(bp, sz, al) = (a, sz', al')")
    case True
    then have "b # bs = [] @ (sz, al) # bs \<and> bp = a + total []" using b by simp
    then show ?thesis by blast
  next
    case False
    then have "(bp, sz, al) \<in> set (bpl (a + sz') bs)" using Cons.prems b by auto
    from Cons.IH[OF this] obtain pre post where
      "bs = pre @ (sz, al) # post" "bp = a + sz' + total pre" by auto
    then have "b # bs = (b # pre) @ (sz, al) # post \<and> bp = a + total (b # pre)"
      using b by simp
    then show ?thesis by blast
  qed
qed

lemma bpl_mid: "(a + total pre, sz, al) \<in> set (bpl a (pre @ (sz, al) # post))"
  by (simp add: bpl_append)

lemma bpl_cases:
  assumes "blocks m a (pre @ (sz, al) # post)"
      and "(bp', sz', al') \<in> set (bpl a (pre @ (sz, al) # post))"
  shows "bp' + sz' \<le> a + total pre \<or> (bp', sz', al') = (a + total pre, sz, al)
         \<or> a + total pre + sz \<le> bp'"
proof -
  from assms(1) have p: "blocks m a pre" and q: "blocks m (a + total pre + sz) post"
    by (auto simp: blocks_append)
  from assms(2) consider "(bp', sz', al') \<in> set (bpl a pre)"
    | "(bp', sz', al') = (a + total pre, sz, al)"
    | "(bp', sz', al') \<in> set (bpl (a + total pre + sz) post)"
    by (auto simp: bpl_append)
  then show ?thesis
  proof cases
    case 1
    from bpl_bounds[OF p 1] show ?thesis by simp
  next
    case 2
    then show ?thesis by simp
  next
    case 3
    from bpl_bounds[OF q 3] show ?thesis by simp
  qed
qed

lemma bpl_disjoint:
  assumes "blocks m a bs" "(bp, sz, al) \<in> set (bpl a bs)" "(bp', sz', al') \<in> set (bpl a bs)"
  shows "bp' + sz' \<le> bp \<or> (bp', sz', al') = (bp, sz, al) \<or> bp + sz \<le> bp'"
proof -
  from bpl_split[OF assms(2)] obtain pre post where
    s: "bs = pre @ (sz, al) # post" "bp = a + total pre" by blast
  show ?thesis using bpl_cases[of m a pre sz al post bp' sz' al'] assms(1,3) s by simp
qed

lemma bpl_unique:
  assumes "blocks m a bs" "(bp, sz, al) \<in> set (bpl a bs)" "(bp, sz', al') \<in> set (bpl a bs)"
  shows "sz' = sz \<and> al' = al"
  using bpl_disjoint[OF assms] bpl_bounds[OF assms(1,2)] bpl_bounds[OF assms(1,3)] by auto

lemma blocks_replace:
  assumes "blocks m a (pre @ old @ post)" and "total new = total old"
      and "blocks m' (a + total pre) new"
      and "\<And>x. x < a + total pre - 4 \<or> a + total pre + total old - 4 \<le> x \<Longrightarrow> m' x = m x"
  shows "blocks m' a (pre @ new @ post)"
proof -
  from assms(1) have p: "blocks m a pre" and q: "blocks m (a + total pre + total old) post"
    by (auto simp: blocks_append add.assoc)
  have "blocks m' a pre"
    by (rule blocks_frame[OF p]) (simp add: assms(4))
  moreover have "blocks m' (a + total pre + total old) post"
    by (rule blocks_frame[OF q]) (use blocks_total_nonneg[OF q] in \<open>simp add: assms(4)\<close>)
  ultimately show ?thesis using assms(2,3) by (simp add: blocks_append add.assoc)
qed

lemma blocks_payload_frame:
  assumes "blocks m a bs" and "(bp, sz, al) \<in> set (bpl a bs)"
      and "\<And>x. x < bp \<or> bp + sz - 8 \<le> x \<Longrightarrow> m' x = m x"
  shows "blocks m' a bs"
proof -
  from bpl_split[OF assms(2)] obtain pre post where
    s: "bs = pre @ [(sz, al)] @ post" "bp = a + total pre" by auto
  from assms(1) s have mid: "blocks m bp [(sz, al)]" by (simp add: blocks_append)
  have "tagw m' (bp - 4) = tagw m (bp - 4)" "tagw m' (bp + sz - 8) = tagw m (bp + sz - 8)"
    by (rule tagw_cong, simp add: assms(3))+
  then have mid': "blocks m' (a + total pre) [(sz, al)]"
    using mid s(2) by simp
  have "blocks m' a (pre @ [(sz, al)] @ post)"
  proof (rule blocks_replace[OF assms(1)[unfolded s(1)] refl mid'])
    fix x assume "x < a + total pre - 4 \<or> a + total pre + total [(sz, al)] - 4 \<le> x"
    then show "m' x = m x" using s(2) by (intro assms(3)) auto
  qed
  then show ?thesis using s(1) by simp
qed

lemma mk_tag_size_word:
  assumes "8 dvd sz" "0 \<le> sz" "sz < 2 ^ 32"
  shows "mk_tag sz al AND NOT 7 = word_of_int sz"
  using mk_tag_size[OF assms, of al] word_of_int_uint[of "mk_tag sz al AND NOT 7"] by simp

lemma uint_size_word: "0 \<le> sz \<Longrightarrow> sz < 2 ^ 32 \<Longrightarrow> uint (word_of_int sz :: 32 word) = sz"
  by (simp add: uint_word_of_int)

lemma layout_block:
  assumes "layout s bs" and "(bp, sz, al) \<in> set (bpl (mem_start s + 16) bs)"
  shows "mem_start s + 16 \<le> bp" "bp + sz \<le> mem_brk s" "16 \<le> sz" "8 dvd sz" "sz < 2 ^ 31"
    "tagw (mem s) (bp - 4) = mk_tag sz al" "tagw (mem s) (bp + sz - 8) = mk_tag sz al"
proof -
  from assms(1) have b: "blocks (mem s) (mem_start s + 16) bs" by (simp add: layout_def)
  note bb = bpl_bounds[OF b assms(2)]
  from assms(1) have l: "heap_listp s = mem_start s + 8" "mem_brk s = mem_start s + 16 + total bs"
    "mem_brk s \<le> mem_max_addr s" "mem_max_addr s - mem_start s < 2 ^ 31"
    by (simp_all add: layout_def)
  show "mem_start s + 16 \<le> bp" "bp + sz \<le> mem_brk s" "16 \<le> sz" "8 dvd sz"
    "tagw (mem s) (bp - 4) = mk_tag sz al" "tagw (mem s) (bp + sz - 8) = mk_tag sz al"
    using bb l by simp_all
  show "sz < 2 ^ 31" using bb l assms(1) by (simp add: layout_def)
qed

lemma GET_tag: "in_heap_range s p 4 \<Longrightarrow> GET s p = Some (tagw (mem s) p)"
  by (simp add: GET_def tagw_def)

lemma layout_reads:
  assumes "layout s bs" and "(bp, sz, al) \<in> set (bpl (mem_start s + 16) bs)"
  shows "GET_SIZE s (HDRP bp) = Some (word_of_int sz)"
    "GET_ALLOC s (HDRP bp) = Some (if al then 1 else 0)"
    "GET_SIZE s (bp + sz - 8) = Some (word_of_int sz)"
    "GET_ALLOC s (bp + sz - 8) = Some (if al then 1 else 0)"
    "NEXT_BLKP s bp = Some (bp + sz)"
    "FTRP s bp = Some (bp + sz - 8)"
proof -
  note lb = layout_block[OF assms]
  have r: "8 dvd sz" "0 \<le> sz" "sz < 2 ^ 32" using lb by simp_all
  have h: "GET s (bp - 4) = Some (mk_tag sz al)"
    using lb by (simp add: GET_tag in_heap_range_def)
  have f: "GET s (bp + sz - 8) = Some (mk_tag sz al)"
    using lb by (simp add: GET_tag in_heap_range_def)
  show 1: "GET_SIZE s (HDRP bp) = Some (word_of_int sz)"
    unfolding GET_SIZE_def HDRP_def WSIZE_def h by (simp only: option.map mk_tag_size_word[OF r])
  show "GET_ALLOC s (HDRP bp) = Some (if al then 1 else 0)"
    by (simp add: GET_ALLOC_def HDRP_def WSIZE_def h mk_tag_alloc[OF r])
  show "GET_SIZE s (bp + sz - 8) = Some (word_of_int sz)"
    unfolding GET_SIZE_def f by (simp only: option.map mk_tag_size_word[OF r])
  show "GET_ALLOC s (bp + sz - 8) = Some (if al then 1 else 0)"
    by (simp add: GET_ALLOC_def f mk_tag_alloc[OF r])
  show "NEXT_BLKP s bp = Some (bp + sz)"
    using 1 r by (simp add: NEXT_BLKP_def HDRP_def uint_size_word)
  show "FTRP s bp = Some (bp + sz - 8)"
    using 1 r by (simp add: FTRP_def DSIZE_def uint_size_word)
qed

lemma class_loop_total:
  "uint sz \<le> 2 ^ 31 \<Longrightarrow> i \<le> 31 \<Longrightarrow> \<exists>j. class_loop sz i = Some j"
proof (induction "31 - i" arbitrary: i)
  case 0
  then have i: "i = 31" by simp
  have "uint (2 ^ 31 :: 64 word) = 2 ^ 31" by (rule uint_pow2_64) simp
  then have "\<not> sz > 2 ^ 31" using 0(2) by (simp add: word_less_def)
  then show ?case unfolding i by (subst class_loop.simps) simp
next
  case (Suc k)
  then have "k = 31 - Suc i" "Suc i \<le> 31" by simp_all
  from Suc(1)[OF this(1) Suc(3) this(2)] obtain j where "class_loop sz (Suc i) = Some j" ..
  then show ?case using Suc(2) by (subst class_loop.simps) simp
qed

lemma ucast_size_word:
  "0 \<le> sz \<Longrightarrow> sz < 2 ^ 32 \<Longrightarrow> (ucast (word_of_int sz :: 32 word) :: 64 word) = word_of_int sz"
  by (simp only: ucast_eq uint_size_word)

lemma find_upt_least:
  assumes "j < n" "P j" "\<forall>k<j. \<not> P k"
  shows "find P [0..<n] = Some j"
proof -
  have "\<exists>i<length [0..<n]. P ([0..<n] ! i) \<and> j = [0..<n] ! i \<and> (\<forall>k<i. \<not> P ([0..<n] ! k))"
    using assms by (intro exI[of _ j]) simp
  then show ?thesis by (simp only: find_Some_iff)
qed

lemma find_upt_none: "\<forall>k<n. \<not> P k \<Longrightarrow> find P [0..<n] = None"
  by (simp add: find_None_iff)

lemma class_loop_least:
  "class_loop w i = Some j \<Longrightarrow>
   i \<le> j \<and> j < 32 \<and> uint w \<le> 2 ^ j \<and> (\<forall>k. i \<le> k \<and> k < j \<longrightarrow> 2 ^ k < uint w)"
proof (induction w i rule: class_loop.induct)
  case (1 sz i)
  have i32: "i < 32" using "1.prems" by (subst (asm) class_loop.simps) (simp split: if_splits)
  have p: "uint (push_bit i 1 :: 64 word) = 2 ^ i"
    using i32 uint_pow2_64[of i] by (simp add: push_bit_of_1)
  show ?case
  proof (cases "sz > push_bit i 1")
    case True
    then have r: "class_loop sz (i + 1) = Some j"
      using "1.prems" i32 by (subst (asm) class_loop.simps) simp
    have gt: "2 ^ i < uint sz" using True p by (simp add: word_less_def)
    from "1.IH"[OF _ True r] i32
    have ih: "i + 1 \<le> j" "j < 32" "uint sz \<le> 2 ^ j"
      "\<forall>k. i + 1 \<le> k \<and> k < j \<longrightarrow> 2 ^ k < uint sz"
      by simp_all
    have "2 ^ k < uint sz" if "i \<le> k \<and> k < j" for k
    proof (cases "k = i")
      case True
      then show ?thesis using gt by simp
    next
      case False
      then show ?thesis using that ih(4) by simp
    qed
    then show ?thesis using ih by simp
  next
    case False
    then have "j = i" using "1.prems" i32 by (subst (asm) class_loop.simps) simp
    moreover have "uint sz \<le> 2 ^ i" using False p by (simp add: word_less_def)
    ultimately show ?thesis using i32 by simp
  qed
qed

lemma class_loop_bucket:
  assumes "0 \<le> sz" "sz < 2 ^ 31"
  shows "\<exists>i0. class_loop (ucast (word_of_int sz :: 32 word)) 0 = Some i0
          \<and> min i0 (NUMLIST - 1) = bucket_of sz"
proof -
  have u: "(ucast (word_of_int sz :: 32 word) :: 64 word) = word_of_int sz"
    using assms by (intro ucast_size_word) simp_all
  have us: "uint (word_of_int sz :: 64 word) = sz" using assms by (simp add: uint_word_of_int)
  then have "uint (word_of_int sz :: 64 word) \<le> 2 ^ 31" using assms by simp
  from class_loop_total[OF this, of 0] obtain j where
    j: "class_loop (word_of_int sz :: 64 word) 0 = Some j" by auto
  from class_loop_least[OF j] us
  have l: "sz \<le> 2 ^ j" "\<forall>k<j. \<not> sz \<le> 2 ^ k" by (simp_all add: not_le)
  have "bucket_of sz = min j (NUMLIST - 1)"
  proof (cases "j < NUMLIST")
    case True
    then have "find (\<lambda>i. sz \<le> 2 ^ i) [0..<NUMLIST] = Some j"
      using l by (intro find_upt_least) simp_all
    then show ?thesis using True by (simp add: bucket_of_def)
  next
    case False
    then have "\<forall>k<NUMLIST. \<not> sz \<le> 2 ^ k" using l(2) by simp
    then have "find (\<lambda>i. sz \<le> 2 ^ i) [0..<NUMLIST] = None" by (rule find_upt_none)
    then show ?thesis using False by (simp add: bucket_of_def)
  qed
  then show ?thesis using j unfolding u by simp
qed

lemma bucket_of_less: "bucket_of sz < NUMLIST"
proof (cases "find (\<lambda>i. sz \<le> 2 ^ i) [0..<NUMLIST]")
  case None
  then show ?thesis by (simp add: bucket_of_def NUMLIST_def)
next
  case (Some i)
  then have "i \<in> set [0..<NUMLIST]" by (auto simp: find_Some_iff)
  then show ?thesis using Some by (simp add: bucket_of_def)
qed

lemma fpath_append:
  "fpath m p (xs @ ys) r = (\<exists>q. fpath m p xs q \<and> fpath m q ys r)"
  by (induction xs arbitrary: p) auto

lemma fpath_frame:
  "(\<And>q x. q \<in> set ps \<Longrightarrow> q \<le> x \<Longrightarrow> x < q + 8 \<Longrightarrow> m' x = m x)
   \<Longrightarrow> fpath m' p ps r = fpath m p ps r"
proof (induction ps arbitrary: p)
  case Nil
  then show ?case by simp
next
  case (Cons q ps)
  have "load_le m' q 8 = load_le m q 8"
    by (rule load_le_cong) (rule Cons.prems[of q], simp_all)
  moreover have "fpath m' (load_le m q 8) ps r = fpath m (load_le m q 8) ps r"
    by (rule Cons.IH) (rule Cons.prems, simp_all)
  ultimately show ?case by simp
qed

lemma fpath_head: "fpath m p ps r \<Longrightarrow> p = r \<or> p \<in> set ps"
  by (cases ps) auto

lemma fpath_unique_end: "fpath m p ps r \<Longrightarrow> fpath m p ps r' \<Longrightarrow> r = r'"
  by (induction ps arbitrary: p) auto

lemma SUCC_read: "in_heap_range s bp 8 \<Longrightarrow> SUCC s bp = Some (load_le (mem s) bp 8)"
  by (simp add: SUCC_def)

lemma find_pred_path:
  assumes "fpath (mem s) h xs bp" "xs \<noteq> []" "bp \<notin> set xs"
      and "\<And>q. q \<in> set xs \<Longrightarrow> in_heap_range s q 8"
  shows "find_pred s h bp = Some (last xs)"
  using assms
proof (induction xs arbitrary: h)
  case Nil
  then show ?case by simp
next
  case (Cons x xs)
  from Cons.prems(1) have h: "h = x" and p: "fpath (mem s) (load_le (mem s) x 8) xs bp" by auto
  have r: "SUCC s x = Some (load_le (mem s) x 8)" by (rule SUCC_read) (simp add: Cons.prems(4))
  show ?case
  proof (cases xs)
    case Nil
    then have "load_le (mem s) x 8 = bp" using p by simp
    then show ?thesis unfolding h by (subst find_pred.simps) (simp add: r Nil)
  next
    case (Cons y ys)
    then have "load_le (mem s) x 8 = y" using p by simp
    moreover have "y \<noteq> bp" using Cons.prems(3) \<open>xs = y # ys\<close> Cons by auto
    moreover have "find_pred s (load_le (mem s) x 8) bp = Some (last xs)"
      using Cons.prems(3,4) Cons by (intro Cons.IH[OF p]) auto
    ultimately show ?thesis unfolding h
      by (subst find_pred.simps) (simp add: r Cons)
  qed
qed

lemma free_setD: "(bp, sz) \<in> free_set a bs \<Longrightarrow> (bp, sz, False) \<in> set (bpl a bs)"
  by (simp add: free_set_def)

lemma layout_blocks: "layout s bs \<Longrightarrow> blocks (mem s) (mem_start s + 16) bs"
  by (simp add: layout_def)

lemma layout_mem_update:
  assumes "layout s bs"
      and "tagw m' (mem_start s + 4) = tagw (mem s) (mem_start s + 4)"
      and "tagw m' (mem_start s + 8) = tagw (mem s) (mem_start s + 8)"
      and "tagw m' (mem_brk s - 4) = tagw (mem s) (mem_brk s - 4)"
      and "blocks m' (mem_start s + 16) bs"
      and "same_bounds s s'" and "mem s' = m'"
  shows "layout s' bs"
  using assms by (auto simp: layout_def same_bounds_def)

lemma layoutD:
  assumes "layout s bs"
  shows "0 < mem_start s" "heap_listp s = mem_start s + 8" "mem_start s + 16 \<le> mem_brk s"
    "mem_brk s \<le> mem_max_addr s" "mem_max_addr s < 2 ^ 64" "mem_max_addr s - mem_start s < 2 ^ 31"
    "mem_brk s = mem_start s + 16 + total bs"
    "tagw (mem s) (mem_start s + 4) = mk_tag 8 True"
    "tagw (mem s) (mem_start s + 8) = mk_tag 8 True"
    "tagw (mem s) (mem_brk s - 4) = mk_tag 0 True"
  using assms blocks_total_nonneg[of "mem s" "mem_start s + 16" bs]
  by (auto simp: layout_def)

lemma layout_payload_write:
  assumes L: "layout s bs" and t: "(bp, sz, al) \<in> set (bpl (mem_start s + 16) bs)"
      and fr: "\<And>x. x < bp \<or> bp + sz - 8 \<le> x \<Longrightarrow> mem s' x = mem s x"
      and sb: "same_bounds s s'"
  shows "layout s' bs"
proof -
  note lb = layout_block[OF L t]
  have 1: "tagw (mem s') (mem_start s + 4) = tagw (mem s) (mem_start s + 4)"
    by (rule tagw_cong) (use lb in \<open>auto intro!: fr\<close>)
  have 2: "tagw (mem s') (mem_start s + 8) = tagw (mem s) (mem_start s + 8)"
    by (rule tagw_cong) (use lb in \<open>auto intro!: fr\<close>)
  have 3: "tagw (mem s') (mem_brk s - 4) = tagw (mem s) (mem_brk s - 4)"
    by (rule tagw_cong) (use lb in \<open>auto intro!: fr\<close>)
  have 4: "blocks (mem s') (mem_start s + 16) bs"
    by (rule blocks_payload_frame[OF layout_blocks[OF L] t]) (rule fr)
  show ?thesis by (rule layout_mem_update[OF L 1 2 3 4 sb refl])
qed

lemma FL_link_disjoint:
  assumes L: "layout s bs" and sub: "FL \<subseteq> free_set (mem_start s + 16) bs"
      and t: "(bp, sz, al) \<in> set (bpl (mem_start s + 16) bs)"
      and q: "(q, z) \<in> FL" and ne: "q \<noteq> bp"
  shows "q + 16 \<le> bp \<or> bp + 16 \<le> q"
proof -
  have tq: "(q, z, False) \<in> set (bpl (mem_start s + 16) bs)" using sub q by (auto dest: free_setD)
  from bpl_disjoint[OF layout_blocks[OF L] t tq] layout_block(3)[OF L t] layout_block(3)[OF L tq] ne
  show ?thesis by auto
qed

lemma FL_unique:
  assumes L: "layout s bs" and sub: "FL \<subseteq> free_set (mem_start s + 16) bs"
      and "(q, z) \<in> FL" "(q, z') \<in> FL"
  shows "z = z'"
proof -
  have "(q, z, False) \<in> set (bpl (mem_start s + 16) bs)" "(q, z', False) \<in> set (bpl (mem_start s + 16) bs)"
    using sub assms(3,4) by (auto dest: free_setD)
  from bpl_unique[OF layout_blocks[OF L] this] show ?thesis by simp
qed

lemma lists_ok_head_range:
  assumes L: "layout s bs" and sub: "FL \<subseteq> free_set (mem_start s + 16) bs"
      and lo: "lists_ok s FL" and i: "i < NUMLIST"
  shows "0 \<le> freelists s i \<and> freelists s i < 2 ^ 64"
proof -
  from lo i obtain ps where ps: "fpath (mem s) (freelists s i) ps (heap_listp s)"
    "set ps = {bp. \<exists>sz. (bp, sz) \<in> FL \<and> bucket_of sz = i}"
    by (auto simp: lists_ok_def)
  from fpath_head[OF ps(1)] show ?thesis
  proof
    assume "freelists s i = heap_listp s"
    then show ?thesis using layoutD[OF L] by simp
  next
    assume "freelists s i \<in> set ps"
    then obtain z where "(freelists s i, z) \<in> FL" using ps(2) by auto
    then have "(freelists s i, z, False) \<in> set (bpl (mem_start s + 16) bs)"
      using sub by (auto dest: free_setD)
    from layout_block(1,2,3)[OF L this] show ?thesis using layoutD[OF L] by simp
  qed
qed

lemma lists_ok_frame_other:
  assumes L: "layout s bs" and sub: "FL \<subseteq> free_set (mem_start s + 16) bs"
      and t: "(bp, sz, al) \<in> set (bpl (mem_start s + 16) bs)"
      and nin: "bp \<notin> set ps"
      and fr: "\<And>x. x < bp \<or> bp + 8 \<le> x \<Longrightarrow> m' x = mem s x"
      and ps: "set ps \<subseteq> {q. \<exists>z. (q, z) \<in> FL}"
  shows "fpath m' p ps r = fpath (mem s) p ps r"
proof (rule fpath_frame)
  fix q x assume q: "q \<in> set ps" and x: "q \<le> x" "x < q + 8"
  from q ps obtain z where z: "(q, z) \<in> FL" by auto
  have "q \<noteq> bp" using nin q by auto
  from FL_link_disjoint[OF L sub t z this] x show "m' x = mem s x"
    by (intro fr) auto
qed

lemma freelist_insert_spec:
  assumes L: "layout s bs" and sub: "FL \<subseteq> free_set (mem_start s + 16) bs"
      and lo: "lists_ok s FL"
      and b: "(bp, sz) \<in> free_set (mem_start s + 16) bs" and n: "(bp, sz) \<notin> FL"
  shows "\<exists>s'. freelist_insert s bp = Some s' \<and> layout s' bs
           \<and> lists_ok s' (insert (bp, sz) FL) \<and> same_bounds s s'
           \<and> (\<forall>x. x < bp \<or> bp + 8 \<le> x \<longrightarrow> mem s' x = mem s x)"
proof -
  have t: "(bp, sz, False) \<in> set (bpl (mem_start s + 16) bs)" using b by (rule free_setD)
  note lb = layout_block[OF L t]
  note ld = layoutD[OF L]
  define i where "i = bucket_of sz"
  have i: "i < NUMLIST" unfolding i_def by (rule bucket_of_less)
  obtain i0 where i0: "class_loop (ucast (word_of_int sz :: 32 word)) 0 = Some i0"
      "min i0 (NUMLIST - 1) = i"
    using class_loop_bucket[of sz] lb unfolding i_def by auto
  define m' where "m' = store_le (mem s) bp 8 (freelists s i)"
  define s' where "s' = s\<lparr>mem := m', freelists := (freelists s)(i := bp)\<rparr>"
  have rng: "in_heap_range s bp 8" using lb by (simp add: in_heap_range_def)
  have run: "freelist_insert s bp = Some s'"
    using i0(2)
    by (simp add: freelist_insert_def layout_reads(1)[OF L t] i0(1) set_SUCC_def rng s'_def m'_def
        Let_def)
  have sb: "same_bounds s s'" by (simp add: same_bounds_def s'_def)
  have fr: "m' x = mem s x" if "x < bp \<or> bp + 8 \<le> x" for x
    using that unfolding m'_def by (intro store_le_outside) auto
  have ms: "mem s' = m'" by (simp add: s'_def)
  have lay: "layout s' bs"
    by (rule layout_payload_write[OF L t _ sb]) (use lb in \<open>auto simp: ms intro!: fr\<close>)
  have nin: "(bp, z) \<notin> FL" for z
  proof
    assume "(bp, z) \<in> FL"
    then have "(bp, z, False) \<in> set (bpl (mem_start s + 16) bs)" using sub by (auto dest: free_setD)
    from bpl_unique[OF layout_blocks[OF L] t this] have "z = sz" by simp
    with \<open>(bp, z) \<in> FL\<close> n show False by simp
  qed
  have hr: "0 \<le> freelists s i" "freelists s i < 2 ^ 64"
    using lists_ok_head_range[OF L sub lo i] by simp_all
  have ld8: "load_le m' bp 8 = freelists s i"
    unfolding m'_def using hr by (simp add: load_store_le)
  have "lists_ok s' (insert (bp, sz) FL)"
    unfolding lists_ok_def
  proof (intro allI impI)
    fix j assume j: "j < NUMLIST"
    from lo j obtain ps where ps: "fpath (mem s) (freelists s j) ps (heap_listp s)" "distinct ps"
      "set ps = {q. \<exists>z. (q, z) \<in> FL \<and> bucket_of z = j}"
      by (auto simp: lists_ok_def)
    have sub': "set ps \<subseteq> {q. \<exists>z. (q, z) \<in> FL}" using ps(3) by auto
    have bn: "bp \<notin> set ps" using ps(3) nin by auto
    have p': "fpath m' (freelists s j) ps (heap_listp s)"
      using lists_ok_frame_other[OF L sub t bn fr sub'] ps(1) by simp
    show "\<exists>ps. fpath (mem s') (freelists s' j) ps (heap_listp s') \<and> distinct ps
            \<and> set ps = {q. \<exists>z. (q, z) \<in> insert (bp, sz) FL \<and> bucket_of z = j}"
    proof (cases "j = i")
      case True
      have "fpath (mem s') (freelists s' j) (bp # ps) (heap_listp s')"
        using p' True by (simp add: s'_def ld8)
      moreover have "distinct (bp # ps)" using bn ps(2) by simp
      moreover have "set (bp # ps) = {q. \<exists>z. (q, z) \<in> insert (bp, sz) FL \<and> bucket_of z = j}"
        using ps(3) True i_def by auto
      ultimately show ?thesis by blast
    next
      case False
      have "fpath (mem s') (freelists s' j) ps (heap_listp s')"
        using p' False by (simp add: s'_def)
      moreover have "set ps = {q. \<exists>z. (q, z) \<in> insert (bp, sz) FL \<and> bucket_of z = j}"
        using ps(3) False i_def by auto
      ultimately show ?thesis using ps(2) by blast
    qed
  qed
  with run lay sb fr ms show ?thesis by auto
qed

lemma layout_freelists_update [simp]: "layout (s\<lparr>freelists := f\<rparr>) bs = layout s bs"
  by (simp add: layout_def)

lemma prologue_alloc:
  assumes L: "layout s bs"
  shows "GET_ALLOC s (HDRP (heap_listp s)) = Some 1"
proof -
  note ld = layoutD[OF L]
  have h: "HDRP (heap_listp s) = mem_start s + 4" using ld(2) by (simp add: HDRP_def WSIZE_def)
  have "in_heap_range s (mem_start s + 4) 4" using ld by (simp add: in_heap_range_def)
  then have g: "GET s (mem_start s + 4) = Some (mk_tag 8 True)"
    by (simp only: GET_tag ld(8))
  have a: "mk_tag 8 True AND 1 = 1" using mk_tag_alloc[of 8 True] by simp
  show ?thesis unfolding h GET_ALLOC_def g by (simp only: option.map a)
qed

lemma freelist_remove_spec:
  assumes L: "layout s bs" and sub: "FL \<subseteq> free_set (mem_start s + 16) bs"
      and lo: "lists_ok s FL" and b: "(bp, sz) \<in> FL"
  shows "\<exists>s'. freelist_remove s bp = Some s' \<and> layout s' bs
           \<and> lists_ok s' (FL - {(bp, sz)}) \<and> same_bounds s s'
           \<and> (\<forall>x. (\<forall>q z. (q, z) \<in> FL \<longrightarrow> x < q \<or> q + 8 \<le> x) \<longrightarrow> mem s' x = mem s x)"
proof -
  have t: "(bp, sz, False) \<in> set (bpl (mem_start s + 16) bs)" using b sub by (auto dest: free_setD)
  note lb = layout_block[OF L t]
  note ld = layoutD[OF L]
  define i where "i = bucket_of sz"
  have i: "i < NUMLIST" unfolding i_def by (rule bucket_of_less)
  obtain i0 where i0: "class_loop (ucast (word_of_int sz :: 32 word)) 0 = Some i0"
      "min i0 (NUMLIST - 1) = i"
    using class_loop_bucket[of sz] lb unfolding i_def by auto
  have uniq: "z = sz" if "(bp, z) \<in> FL" for z using FL_unique[OF L sub that b] .
  have rngq: "in_heap_range s q 8" if "(q, z) \<in> FL" for q z
  proof -
    have "(q, z, False) \<in> set (bpl (mem_start s + 16) bs)" using that sub by (auto dest: free_setD)
    from layout_block[OF L this] show ?thesis by (simp add: in_heap_range_def)
  qed
  have freeq: "GET_ALLOC s (HDRP q) = Some 0" if "(q, z) \<in> FL" for q z
  proof -
    have "(q, z, False) \<in> set (bpl (mem_start s + 16) bs)" using that sub by (auto dest: free_setD)
    from layout_reads(2)[OF L this] show ?thesis by simp
  qed
  from lo i obtain ps where ps: "fpath (mem s) (freelists s i) ps (heap_listp s)" "distinct ps"
      "set ps = {q. \<exists>z. (q, z) \<in> FL \<and> bucket_of z = i}"
    by (auto simp: lists_ok_def)
  have "bp \<in> set ps" using ps(3) b i_def by auto
  then obtain xs ys where sp: "ps = xs @ bp # ys" by (auto dest: split_list)
  have nx: "bp \<notin> set xs" and ny: "bp \<notin> set ys" and dxy: "distinct (xs @ ys)"
    using ps(2) sp by auto
  define sc where "sc = load_le (mem s) bp 8"
  from ps(1) sp have px: "fpath (mem s) (freelists s i) xs bp"
    and py: "fpath (mem s) sc ys (heap_listp s)"
    by (auto simp: fpath_append sc_def)
  have rsc: "SUCC s bp = Some sc" unfolding sc_def by (rule SUCC_read) (rule rngq[OF b])
  have rsz: "GET_SIZE s (HDRP bp) = Some (word_of_int sz)" by (rule layout_reads(1)[OF L t])
  have salloc: "GET_ALLOC s (HDRP sc) = Some (if ys = [] then 1 else 0)"
  proof (cases ys)
    case Nil
    then have "sc = heap_listp s" using py by simp
    then show ?thesis using prologue_alloc[OF L] Nil by simp
  next
    case (Cons y ys')
    then have "sc = y" using py by simp
    moreover have "y \<in> set ps" using sp Cons by simp
    then obtain z where "(y, z) \<in> FL" using ps(3) by auto
    ultimately show ?thesis using freeq Cons by simp
  qed
  have newset: "set (xs @ ys) = {q. \<exists>z. (q, z) \<in> FL - {(bp, sz)} \<and> bucket_of z = i}"
  proof -
    have "set (xs @ ys) = set ps - {bp}" using sp nx ny by auto
    also have "\<dots> = {q. \<exists>z. (q, z) \<in> FL - {(bp, sz)} \<and> bucket_of z = i}"
      unfolding ps(3) using uniq by auto
    finally show ?thesis .
  qed
  have otherset: "{q. \<exists>z. (q, z) \<in> FL \<and> bucket_of z = j}
      = {q. \<exists>z. (q, z) \<in> FL - {(bp, sz)} \<and> bucket_of z = j}" if "j \<noteq> i" for j
    using that i_def by auto
  show ?thesis
  proof (cases xs)
    case Nil
    then have hd: "freelists s i = bp" using px by simp
    define s' where "s' = s\<lparr>freelists := (freelists s)(i := sc)\<rparr>"
    have sch: "ys = [] \<Longrightarrow> sc = heap_listp s" using py by auto
    have run: "freelist_remove s bp = Some s'"
    proof (cases "ys = []")
      case True
      note e = sch[OF True, symmetric]
      show ?thesis using i0(2)
        by (simp add: freelist_remove_def rsc salloc True rsz i0(1) Let_def hd s'_def e)
    next
      case False
      show ?thesis using i0(2)
        by (simp add: freelist_remove_def rsc salloc False rsz i0(1) Let_def hd s'_def)
    qed
    have sb: "same_bounds s s'" by (simp add: same_bounds_def s'_def)
    have ms: "mem s' = mem s" by (simp add: s'_def)
    have lay: "layout s' bs" using L by (simp add: s'_def)
    have "lists_ok s' (FL - {(bp, sz)})"
      unfolding lists_ok_def
    proof (intro allI impI)
      fix j assume j: "j < NUMLIST"
      show "\<exists>ps. fpath (mem s') (freelists s' j) ps (heap_listp s') \<and> distinct ps
            \<and> set ps = {q. \<exists>z. (q, z) \<in> FL - {(bp, sz)} \<and> bucket_of z = j}"
      proof (cases "j = i")
        case True
        have "fpath (mem s') (freelists s' j) ys (heap_listp s')"
          using py True by (simp add: s'_def)
        moreover have "distinct ys" using dxy by simp
        moreover have "set ys = {q. \<exists>z. (q, z) \<in> FL - {(bp, sz)} \<and> bucket_of z = j}"
          using newset Nil True by simp
        ultimately show ?thesis by blast
      next
        case False
        from lo j obtain qs where qs: "fpath (mem s) (freelists s j) qs (heap_listp s)"
          "distinct qs" "set qs = {q. \<exists>z. (q, z) \<in> FL \<and> bucket_of z = j}"
          by (auto simp: lists_ok_def)
        have "fpath (mem s') (freelists s' j) qs (heap_listp s')"
          using qs(1) False by (simp add: s'_def)
        then show ?thesis using qs(2,3) otherset[OF False] by auto
      qed
    qed
    with run lay sb ms show ?thesis by auto
  next
    case (Cons x0 xs0)
    then have xne: "xs \<noteq> []" by simp
    define l where "l = last xs"
    define xs' where "xs' = butlast xs"
    have xs: "xs = xs' @ [l]" using xne by (simp add: l_def xs'_def)
    have lps: "l \<in> set ps" using sp xs by simp
    then obtain zl where zl: "(l, zl) \<in> FL" "bucket_of zl = i" using ps(3) by auto
    have tl: "(l, zl, False) \<in> set (bpl (mem_start s + 16) bs)"
      using zl sub by (auto dest: free_setD)
    note lbl = layout_block[OF L tl]
    have hdne: "freelists s i \<noteq> bp"
      using px Cons nx by auto
    have inr: "\<And>q. q \<in> set xs \<Longrightarrow> in_heap_range s q 8"
    proof -
      fix q assume "q \<in> set xs"
      then have "q \<in> set ps" using sp by simp
      then obtain z where "(q, z) \<in> FL" using ps(3) by auto
      then show "in_heap_range s q 8" by (rule rngq)
    qed
    have fp: "find_pred s (freelists s i) bp = Some l"
      unfolding l_def by (rule find_pred_path[OF px xne nx inr])
    define m' where "m' = store_le (mem s) l 8 sc"
    define s' where "s' = s\<lparr>mem := m'\<rparr>"
    have run: "freelist_remove s bp = Some s'"
      using i0(2) hdne
      by (simp add: freelist_remove_def rsc salloc rsz i0(1) Let_def fp set_SUCC_def
          rngq[OF zl(1)] s'_def m'_def)
    have sb: "same_bounds s s'" by (simp add: same_bounds_def s'_def)
    have ms: "mem s' = m'" by (simp add: s'_def)
    have fr: "m' x = mem s x" if "x < l \<or> l + 8 \<le> x" for x
      using that unfolding m'_def by (intro store_le_outside) auto
    have lay: "layout s' bs"
      by (rule layout_payload_write[OF L tl _ sb]) (use lbl in \<open>auto simp: ms intro!: fr\<close>)
    have scr: "0 \<le> sc" "sc < 2 ^ 64"
      using load_le_bounds[of "mem s" bp 8] by (simp_all add: sc_def)
    have ld8: "load_le m' l 8 = sc" unfolding m'_def using scr by (simp add: load_store_le)
    have "lists_ok s' (FL - {(bp, sz)})"
      unfolding lists_ok_def
    proof (intro allI impI)
      fix j assume j: "j < NUMLIST"
      show "\<exists>ps. fpath (mem s') (freelists s' j) ps (heap_listp s') \<and> distinct ps
            \<and> set ps = {q. \<exists>z. (q, z) \<in> FL - {(bp, sz)} \<and> bucket_of z = j}"
      proof (cases "j = i")
        case True
        from px xs have px': "fpath (mem s) (freelists s i) xs' l" 
          by (auto simp: fpath_append)
        have lx: "l \<notin> set xs'" and ly: "l \<notin> set ys" using dxy xs by auto
        have subx: "set xs' \<subseteq> {q. \<exists>z. (q, z) \<in> FL}" using ps(3) sp xs by auto
        have suby: "set ys \<subseteq> {q. \<exists>z. (q, z) \<in> FL}" using ps(3) sp by auto
        have 1: "fpath m' (freelists s i) xs' l"
          using lists_ok_frame_other[OF L sub tl lx fr subx] px' by simp
        have 2: "fpath m' sc ys (heap_listp s)"
          using lists_ok_frame_other[OF L sub tl ly fr suby] py by simp
        have "fpath m' (freelists s i) (xs' @ l # ys) (heap_listp s)"
          using 1 2 by (auto simp: fpath_append ld8)
        then have "fpath (mem s') (freelists s' j) (xs @ ys) (heap_listp s')"
          using True xs by (simp add: s'_def)
        then show ?thesis using dxy newset True by blast
      next
        case False
        from lo j obtain qs where qs: "fpath (mem s) (freelists s j) qs (heap_listp s)"
          "distinct qs" "set qs = {q. \<exists>z. (q, z) \<in> FL \<and> bucket_of z = j}"
          by (auto simp: lists_ok_def)
        have lq: "l \<notin> set qs"
        proof
          assume "l \<in> set qs"
          then obtain z where "(l, z) \<in> FL" "bucket_of z = j" using qs(3) by auto
          with FL_unique[OF L sub this(1) zl(1)] zl(2) False show False by simp
        qed
        have subq: "set qs \<subseteq> {q. \<exists>z. (q, z) \<in> FL}" using qs(3) by auto
        have "fpath m' (freelists s j) qs (heap_listp s)"
          using lists_ok_frame_other[OF L sub tl lq fr subq] qs(1) by simp
        then have "fpath (mem s') (freelists s' j) qs (heap_listp s')"
          by (simp add: s'_def)
        then show ?thesis using qs(2,3) otherset[OF False] by auto
      qed
    qed
    moreover have "mem s' x = mem s x" if "\<forall>q z. (q, z) \<in> FL \<longrightarrow> x < q \<or> q + 8 \<le> x" for x
      using that zl(1) fr[of x] ms by auto
    ultimately show ?thesis using run lay sb by auto
  qed
qed

lemma lists_ok_frame:
  assumes lo: "lists_ok s FL"
      and fr: "\<And>q z x. (q, z) \<in> FL \<Longrightarrow> q \<le> x \<Longrightarrow> x < q + 8 \<Longrightarrow> mem s' x = mem s x"
      and fl: "freelists s' = freelists s" and hp: "heap_listp s' = heap_listp s"
  shows "lists_ok s' FL"
  unfolding lists_ok_def
proof (intro allI impI)
  fix i assume "i < NUMLIST"
  with lo obtain ps where ps: "fpath (mem s) (freelists s i) ps (heap_listp s)" "distinct ps"
      "set ps = {q. \<exists>z. (q, z) \<in> FL \<and> bucket_of z = i}"
    by (auto simp: lists_ok_def)
  have "fpath (mem s') (freelists s i) ps (heap_listp s) = fpath (mem s) (freelists s i) ps (heap_listp s)"
  proof (rule fpath_frame)
    fix q x assume "q \<in> set ps" "q \<le> x" "x < q + 8"
    then obtain z where "(q, z) \<in> FL" using ps(3) by auto
    then show "mem s' x = mem s x" using \<open>q \<le> x\<close> \<open>x < q + 8\<close> by (rule fr)
  qed
  then show "\<exists>ps. fpath (mem s') (freelists s' i) ps (heap_listp s') \<and> distinct ps
            \<and> set ps = {q. \<exists>z. (q, z) \<in> FL \<and> bucket_of z = i}"
    using ps fl hp by auto
qed

lemma free_set_append:
  "free_set a (xs @ ys) = free_set a xs \<union> free_set (a + total xs) ys"
  by (auto simp: free_set_def bpl_append)

lemma free_set_Nil [simp]: "free_set a [] = {}"
  by (simp add: free_set_def)

lemma free_set_Cons:
  "free_set a ((sz, al) # bs) = (if al then {} else {(a, sz)}) \<union> free_set (a + sz) bs"
  by (auto simp: free_set_def)

lemma layout_replace:
  assumes L: "layout s (pre @ old @ post)" and tot: "total new = total old"
      and blk: "blocks (mem s') (mem_start s + 16 + total pre) new"
      and fr: "\<And>x. x < mem_start s + 16 + total pre - 4
                  \<or> mem_start s + 16 + total pre + total old - 4 \<le> x \<Longrightarrow> mem s' x = mem s x"
      and sb: "same_bounds s s'"
  shows "layout s' (pre @ new @ post)"
proof -
  let ?a = "mem_start s + 16"
  note ld = layoutD[OF L]
  have b: "blocks (mem s) ?a (pre @ old @ post)" by (rule layout_blocks[OF L])
  then have bp: "blocks (mem s) ?a pre" and bq: "blocks (mem s) (?a + total pre + total old) post"
    by (auto simp: blocks_append add.assoc)
  have tp: "0 \<le> total pre" and tq: "0 \<le> total post"
    using blocks_total_nonneg[OF bp] blocks_total_nonneg[OF bq] by simp_all
  have brk: "mem_brk s = ?a + total pre + total old + total post"
    using ld(7) by (simp add: total_append)
  have 1: "tagw (mem s') (mem_start s + 4) = tagw (mem s) (mem_start s + 4)"
    by (rule tagw_cong) (use tp in \<open>auto intro!: fr\<close>)
  have 2: "tagw (mem s') (mem_start s + 8) = tagw (mem s) (mem_start s + 8)"
    by (rule tagw_cong) (use tp in \<open>auto intro!: fr\<close>)
  have 3: "tagw (mem s') (mem_brk s - 4) = tagw (mem s) (mem_brk s - 4)"
    by (rule tagw_cong) (use tq brk in \<open>auto intro!: fr\<close>)
  have 4: "blocks (mem s') ?a (pre @ new @ post)"
    by (rule blocks_replace[OF b tot blk]) (rule fr)
  show ?thesis
    using ld 1 2 3 4 sb tot by (simp add: layout_def same_bounds_def total_append)
qed

lemma heap_at_replace:
  assumes H: "heap_at s (pre @ old @ post) FL"
      and dis: "FL \<inter> free_set (mem_start s + 16 + total pre) old = {}"
      and tot: "total new = total old"
      and blk: "blocks (mem s') (mem_start s + 16 + total pre) new"
      and fr: "\<And>x. x < mem_start s + 16 + total pre - 4
                  \<or> mem_start s + 16 + total pre + total old - 4 \<le> x \<Longrightarrow> mem s' x = mem s x"
      and sb: "same_bounds s s'" and fl: "freelists s' = freelists s"
  shows "heap_at s' (pre @ new @ post) FL"
proof -
  let ?a = "mem_start s + 16"
  from H have L: "layout s (pre @ old @ post)" and sub: "FL \<subseteq> free_set ?a (pre @ old @ post)"
    and lo: "lists_ok s FL" by (simp_all add: heap_at_def)
  have b: "blocks (mem s) ?a (pre @ old @ post)" by (rule layout_blocks[OF L])
  then have bp: "blocks (mem s) ?a pre" and bq: "blocks (mem s) (?a + total pre + total old) post"
    by (auto simp: blocks_append add.assoc)
  have L': "layout s' (pre @ new @ post)" by (rule layout_replace[OF L tot blk fr sb])
  have parts: "(q, z) \<in> free_set ?a pre \<or> (q, z) \<in> free_set (?a + total pre + total old) post"
    if "(q, z) \<in> FL" for q z
    using that sub dis by (auto simp: free_set_append add.assoc)
  have sub': "FL \<subseteq> free_set (mem_start s' + 16) (pre @ new @ post)"
    using parts sb tot by (auto simp: free_set_append same_bounds_def add.assoc)
  have lo': "lists_ok s' FL"
  proof (rule lists_ok_frame[OF lo _ fl])
    fix q z x assume q: "(q, z) \<in> FL" and x: "q \<le> x" "x < q + 8"
    from parts[OF q] show "mem s' x = mem s x"
    proof
      assume "(q, z) \<in> free_set ?a pre"
      then have "(q, z, False) \<in> set (bpl ?a pre)" by (rule free_setD)
      from bpl_bounds[OF bp this] x show ?thesis by (intro fr) auto
    next
      assume "(q, z) \<in> free_set (?a + total pre + total old) post"
      then have "(q, z, False) \<in> set (bpl (?a + total pre + total old) post)" by (rule free_setD)
      from bpl_bounds[OF bq this] x show ?thesis by (intro fr) auto
    qed
  next
    show "heap_listp s' = heap_listp s" using sb by (simp add: same_bounds_def)
  qed
  show ?thesis using L' sub' lo' by (simp add: heap_at_def)
qed

lemma coalesce_reads_prev:
  assumes L: "layout s (pre @ (sz, al) # post)" and bp: "bp = mem_start s + 16 + total pre"
  shows "\<exists>pb pf. PREV_BLKP s bp = Some pb \<and> FTRP s pb = Some pf
           \<and> GET_ALLOC s pf = Some (if prev_free pre then 0 else 1)
           \<and> (pre \<noteq> [] \<longrightarrow> pb = bp - fst (last pre))"
proof (cases "pre = []")
  case True
  note ld = layoutD[OF L]
  have bp8: "bp - 8 = mem_start s + 8" using bp True by simp
  have sw: "mk_tag 8 True AND NOT 7 = word_of_int 8" by (rule mk_tag_size_word) simp_all
  have u8: "uint (word_of_int 8 :: 32 word) = 8" by simp
  have g1: "GET s (mem_start s + 8) = Some (mk_tag 8 True)"
    using ld by (simp add: GET_tag in_heap_range_def)
  have g2: "GET s (mem_start s + 4) = Some (mk_tag 8 True)"
    using ld by (simp add: GET_tag in_heap_range_def)
  have gs1: "GET_SIZE s (mem_start s + 8) = Some (word_of_int 8)"
    unfolding GET_SIZE_def g1 by (simp only: option.map sw)
  have gs2: "GET_SIZE s (mem_start s + 4) = Some (word_of_int 8)"
    unfolding GET_SIZE_def g2 by (simp only: option.map sw)
  have p: "PREV_BLKP s bp = Some (mem_start s + 8)"
    unfolding PREV_BLKP_def DSIZE_def bp8 gs1 using u8 by (simp add: bp True)
  have h4: "mem_start s + 8 - 4 = mem_start s + 4" by simp
  have f: "FTRP s (mem_start s + 8) = Some (mem_start s + 8)"
    unfolding FTRP_def HDRP_def WSIZE_def DSIZE_def h4 gs2 using u8 by simp
  have a: "GET_ALLOC s (mem_start s + 8) = Some 1"
    unfolding GET_ALLOC_def g1 using mk_tag_alloc[of 8 True] by simp
  show ?thesis using p f a True by (simp add: prev_free_def)
next
  case False
  then obtain pre' psz pal where pre: "pre = pre' @ [(psz, pal)]"
    by (metis append_butlast_last_id surj_pair)
  have t: "(mem_start s + 16 + total pre', psz, pal) \<in> set (bpl (mem_start s + 16) (pre @ (sz, al) # post))"
    unfolding pre by (simp add: bpl_append)
  note lb = layout_block[OF L t]
  note lr = layout_reads[OF L t]
  have e: "bp - 8 = mem_start s + 16 + total pre' + psz - 8" using bp pre by (simp add: total_append)
  have r: "0 \<le> psz" "psz < 2 ^ 32" using lb by simp_all
  have p: "PREV_BLKP s bp = Some (mem_start s + 16 + total pre')"
    unfolding PREV_BLKP_def DSIZE_def e lr(3) using r bp pre
    by (simp add: uint_size_word total_append)
  show ?thesis using p lr(6,4) e bp pre by (auto simp: prev_free_def total_append)
qed

lemma coalesce_reads_next:
  assumes L: "layout s (pre @ (sz, al) # post)" and bp: "bp = mem_start s + 16 + total pre"
  shows "NEXT_BLKP s bp = Some (bp + sz)"
    and "GET_ALLOC s (HDRP (bp + sz)) = Some (if next_free post then 0 else 1)"
proof -
  have t: "(bp, sz, al) \<in> set (bpl (mem_start s + 16) (pre @ (sz, al) # post))"
    unfolding bp by (rule bpl_mid)
  show "NEXT_BLKP s bp = Some (bp + sz)" by (rule layout_reads(5)[OF L t])
  show "GET_ALLOC s (HDRP (bp + sz)) = Some (if next_free post then 0 else 1)"
  proof (cases post)
    case Nil
    note ld = layoutD[OF L]
    have e: "bp + sz - 4 = mem_brk s - 4" using ld(7) bp Nil by (simp add: total_append)
    have "in_heap_range s (mem_brk s - 4) 4" using ld by (simp add: in_heap_range_def)
    then have g: "GET s (mem_brk s - 4) = Some (mk_tag 0 True)" by (simp only: GET_tag ld(10))
    have a: "mk_tag 0 True AND 1 = 1" using mk_tag_alloc[of 0 True] by simp
    show ?thesis unfolding HDRP_def WSIZE_def e GET_ALLOC_def g
      by (simp only: option.map a) (simp add: next_free_def Nil)
  next
    case (Cons n post')
    obtain nsz nal where n: "n = (nsz, nal)" by (cases n)
    have tn: "(bp + sz, nsz, nal) \<in> set (bpl (mem_start s + 16) (pre @ (sz, al) # post))"
      unfolding bp Cons n by (simp add: bpl_append)
    show ?thesis using layout_reads(2)[OF L tn] by (simp add: next_free_def Cons n)
  qed
qed

lemma PUT_spec:
  "in_heap_range s p 4 \<Longrightarrow>
   PUT s p v = Some (s\<lparr>mem := store_le (mem s) p 4 (uint (ucast v :: 32 word))\<rparr>)"
  by (simp add: PUT_def)

lemma GET_SIZE_tag:
  assumes "in_heap_range s p 4" "tagw (mem s) p = mk_tag n al" "8 dvd n" "0 \<le> n" "n < 2 ^ 32"
  shows "GET_SIZE s p = Some (word_of_int n)"
  unfolding GET_SIZE_def GET_tag[OF assms(1)] assms(2)
  by (simp only: option.map mk_tag_size_word[OF assms(3-5)])

lemma FTRP_tag:
  assumes "in_heap_range s (bp - 4) 4" "tagw (mem s) (bp - 4) = mk_tag n al"
    "8 dvd n" "0 \<le> n" "n < 2 ^ 32"
  shows "FTRP s bp = Some (bp + n - 8)"
  unfolding FTRP_def HDRP_def WSIZE_def DSIZE_def GET_SIZE_tag[OF assms]
  using assms(4,5) by (simp add: uint_size_word)

lemma NEXT_BLKP_tag:
  assumes "in_heap_range s (bp - 4) 4" "tagw (mem s) (bp - 4) = mk_tag n al"
    "8 dvd n" "0 \<le> n" "n < 2 ^ 32"
  shows "NEXT_BLKP s bp = Some (bp + n)"
  unfolding NEXT_BLKP_def WSIZE_def GET_SIZE_tag[OF assms]
  using assms(4,5) by (simp add: uint_size_word)

lemma PREV_BLKP_tag:
  assumes "in_heap_range s (bp - 8) 4" "tagw (mem s) (bp - 8) = mk_tag n al"
    "8 dvd n" "0 \<le> n" "n < 2 ^ 32"
  shows "PREV_BLKP s bp = Some (bp - n)"
  unfolding PREV_BLKP_def DSIZE_def GET_SIZE_tag[OF assms]
  using assms(4,5) by (simp add: uint_size_word)

lemma uint_size64:
  "0 \<le> a \<Longrightarrow> a < 2 ^ 32 \<Longrightarrow> uint (ucast (word_of_int a :: 32 word) :: 64 word) = a"
  by (simp only: uint_ucast_32_64 uint_size_word)

lemma uint_add64:
  "uint (x :: 64 word) + uint y < 2 ^ 64 \<Longrightarrow> uint (x + y) = uint x + uint y"
  using uint_add_lem[of x y] by simp

lemma FLout_bounds:
  assumes "blocks m a (pre @ old @ post)" "(q, z) \<in> FLout a pre old post"
  shows "16 \<le> z \<and> (q + z \<le> a + total pre \<or> a + total pre + total old \<le> q)"
proof -
  from assms(1) have bp: "blocks m a pre" and bq: "blocks m (a + total pre + total old) post"
    by (auto simp: blocks_append add.assoc)
  from assms(2) show ?thesis unfolding FLout_def
  proof
    assume "(q, z) \<in> free_set a pre"
    then have "(q, z, False) \<in> set (bpl a pre)" by (rule free_setD)
    from bpl_bounds[OF bp this] show ?thesis by simp
  next
    assume "(q, z) \<in> free_set (a + total pre + total old) post"
    then have "(q, z, False) \<in> set (bpl (a + total pre + total old) post)" by (rule free_setD)
    from bpl_bounds[OF bq this] show ?thesis by simp
  qed
qed

lemma FLout_sub: "FLout a pre old post \<subseteq> free_set a (pre @ old @ post)"
  by (auto simp: FLout_def free_set_append add.assoc)

lemma FLout_dis:
  assumes "blocks m a (pre @ old @ post)"
  shows "FLout a pre old post \<inter> free_set (a + total pre) old = {}"
proof -
  from assms have bo: "blocks m (a + total pre) old" by (auto simp: blocks_append)
  { fix q z assume 1: "(q, z) \<in> FLout a pre old post" and 2: "(q, z) \<in> free_set (a + total pre) old"
    from 2 have "(q, z, False) \<in> set (bpl (a + total pre) old)" by (rule free_setD)
    from bpl_bounds[OF bo this] FLout_bounds[OF assms 1] have False by auto }
  then show ?thesis by auto
qed

lemma FLout_full:
  "free_set a (pre @ [(n, False)] @ post) = insert (a + total pre, n) (FLout a pre [(n, False)] post)"
  by (simp add: FLout_def free_set_append free_set_Cons add.assoc)

text \<open>Writing the tags of one free block over a run of blocks, then entering it in its bucket.\<close>

lemma retag_insert:
  assumes H: "heap_at s (pre @ old @ post) (FLout (mem_start s + 16) pre old post)"
      and n: "n = total old" and bp: "bp = mem_start s + 16 + total pre"
      and blk: "blocks (mem s') bp [(n, False)]"
      and fr: "\<And>x. x < bp - 4 \<or> bp + n - 4 \<le> x \<Longrightarrow> mem s' x = mem s x"
      and sb: "same_bounds s s'" and fl: "freelists s' = freelists s"
  shows "\<exists>s''. freelist_insert s' bp = Some s''
           \<and> heap_at s'' (pre @ [(n, False)] @ post)
                (free_set (mem_start s + 16) (pre @ [(n, False)] @ post))
           \<and> same_bounds s s''
           \<and> (\<forall>x. x < bp - 4 \<or> bp + n - 4 \<le> x \<longrightarrow> mem s'' x = mem s x)"
proof -
  let ?a = "mem_start s + 16"
  let ?FL = "FLout ?a pre old post"
  from H have L: "layout s (pre @ old @ post)" by (simp add: heap_at_def)
  have b: "blocks (mem s) ?a (pre @ old @ post)" by (rule layout_blocks[OF L])
  have tot: "total [(n, False)] = total old" using n by simp
  have H': "heap_at s' (pre @ [(n, False)] @ post) ?FL"
    by (rule heap_at_replace[OF H FLout_dis[OF b] tot _ _ sb fl])
       (use blk bp fr n in auto)
  then have L': "layout s' (pre @ [(n, False)] @ post)"
    and sub': "?FL \<subseteq> free_set (mem_start s' + 16) (pre @ [(n, False)] @ post)"
    and lo': "lists_ok s' ?FL" by (simp_all add: heap_at_def)
  have ms: "mem_start s' = mem_start s" using sb by (simp add: same_bounds_def)
  have el: "(bp, n) \<in> free_set (mem_start s' + 16) (pre @ [(n, False)] @ post)"
    unfolding ms bp by (simp add: free_set_def bpl_append)
  have nin: "(bp, n) \<notin> ?FL"
  proof
    assume "(bp, n) \<in> ?FL"
    from FLout_bounds[OF b this] show False using bp n by auto
  qed
  from freelist_insert_spec[OF L' sub' lo' el nin] obtain s'' where
    r: "freelist_insert s' bp = Some s''" "layout s'' (pre @ [(n, False)] @ post)"
       "lists_ok s'' (insert (bp, n) ?FL)" "same_bounds s' s''"
       "\<forall>x. x < bp \<or> bp + 8 \<le> x \<longrightarrow> mem s'' x = mem s' x" by blast
  have sb'': "same_bounds s s''" using sb r(4) by (simp add: same_bounds_def)
  have full: "free_set ?a (pre @ [(n, False)] @ post) = insert (bp, n) ?FL"
    unfolding bp FLout_def using n by (simp add: free_set_append free_set_Cons add.assoc)
  have "16 \<le> n" using blk by simp
  then have fr'': "mem s'' x = mem s x" if "x < bp - 4 \<or> bp + n - 4 \<le> x" for x
    using that r(5) fr[of x] by auto
  have "heap_at s'' (pre @ [(n, False)] @ post) (free_set ?a (pre @ [(n, False)] @ post))"
    unfolding full using r(2,3) sb'' full
    by (simp add: heap_at_def same_bounds_def)
  with r(1) sb'' fr'' show ?thesis by blast
qed

lemma tags_after_stores:
  assumes "m3 = store_le (store_le m x 4 (uint (t :: 32 word))) y 4 (uint t)"
      and "x + 4 \<le> y \<or> y + 4 \<le> x"
  shows "tagw m3 x = t" "tagw m3 y = t"
    "\<And>z. \<not> (x \<le> z \<and> z < x + 4) \<Longrightarrow> \<not> (y \<le> z \<and> z < y + 4) \<Longrightarrow> m3 z = m z"
proof -
  show "tagw m3 y = t" unfolding assms(1) by (rule tagw_store)
  have "tagw m3 x = tagw (store_le m x 4 (uint t)) x"
    unfolding assms(1) using assms(2) by (intro tagw_store_disj) auto
  then show "tagw m3 x = t" by (simp add: tagw_store)
  fix z assume "\<not> (x \<le> z \<and> z < x + 4)" "\<not> (y \<le> z \<and> z < y + 4)"
  then have "z < y \<or> y + int 4 \<le> z" "z < x \<or> x + int 4 \<le> z" by auto
  then show "m3 z = m z" unfolding assms(1) by (simp only: store_le_outside)
qed

lemma in_heap_range_mem [simp]: "in_heap_range (s\<lparr>mem := m\<rparr>) p n = in_heap_range s p n"
  by (simp add: in_heap_range_def)

lemma same_bounds_mem [simp]: "same_bounds s (s\<lparr>mem := m\<rparr>)"
  by (simp add: same_bounds_def)

lemma same_bounds_range: "same_bounds s s' \<Longrightarrow> in_heap_range s' p n = in_heap_range s p n"
  by (simp add: same_bounds_def in_heap_range_def)

lemma coalesce_case1:
  assumes H: "heap_at s (pre @ [(sz, False)] @ post) (FLout (mem_start s + 16) pre [(sz, False)] post)"
      and bp: "bp = mem_start s + 16 + total pre"
      and np: "\<not> prev_free pre" and nn: "\<not> next_free post"
  shows "\<exists>s'. coalesce s bp = Some (bp, s')
           \<and> heap_at s' (pre @ [(sz, False)] @ post)
                (free_set (mem_start s + 16) (pre @ [(sz, False)] @ post))
           \<and> same_bounds s s'
           \<and> (\<forall>x. x < bp - 4 \<or> bp + sz - 4 \<le> x \<longrightarrow> mem s' x = mem s x)"
proof -
  from H have L: "layout s (pre @ (sz, False) # post)" by (simp add: heap_at_def)
  from coalesce_reads_prev[OF L bp] np obtain pb pf where
    rp: "PREV_BLKP s bp = Some pb" "FTRP s pb = Some pf" "GET_ALLOC s pf = Some 1" by auto
  note rn = coalesce_reads_next[OF L bp]
  have t: "(bp, sz, False) \<in> set (bpl (mem_start s + 16) (pre @ (sz, False) # post))"
    unfolding bp by (rule bpl_mid)
  have blk: "blocks (mem s) bp [(sz, False)]"
    using layout_block[OF L t] by simp
  from retag_insert[OF H _ bp blk _ _ refl] obtain s' where
    r: "freelist_insert s bp = Some s'"
       "heap_at s' (pre @ [(sz, False)] @ post)
          (free_set (mem_start s + 16) (pre @ [(sz, False)] @ post))"
       "same_bounds s s'"
       "\<forall>x. x < bp - 4 \<or> bp + sz - 4 \<le> x \<longrightarrow> mem s' x = mem s x"
    by (auto simp: same_bounds_def)
  have "coalesce s bp = Some (bp, s')"
    using nn by (simp add: coalesce_def rp rn layout_reads(1)[OF L t] r(1))
  with r show ?thesis by blast
qed

lemma free_regionI:
  "(q, z) \<in> free_set a bs \<Longrightarrow> q - 4 \<le> x \<Longrightarrow> x < q + z - 4 \<Longrightarrow> x \<in> free_region a bs"
  by (auto simp: free_region_def)

lemma not_free_region:
  "x \<notin> free_region a bs \<Longrightarrow> (q, z, False) \<in> set (bpl a bs) \<Longrightarrow> x < q - 4 \<or> q + z - 4 \<le> x"
  unfolding free_region_def free_set_def by fastforce

lemma put_free_tags:
  assumes r1: "in_heap_range s (bp - 4) 4" and r2: "in_heap_range s (bp + n - 8) 4"
      and c: "uint csz = n" and n: "8 dvd n" "16 \<le> n" "n < 2 ^ 32"
  shows "\<exists>s2 s3. PUT s (HDRP bp) (PACK csz 0) = Some s2 \<and> FTRP s2 bp = Some (bp + n - 8)
           \<and> PUT s2 (bp + n - 8) (PACK csz 0) = Some s3
           \<and> blocks (mem s3) bp [(n, False)] \<and> same_bounds s s3 \<and> freelists s3 = freelists s
           \<and> (\<forall>x. x < bp - 4 \<or> bp + n - 4 \<le> x \<longrightarrow> mem s3 x = mem s x)"
proof -
  let ?t = "mk_tag n False"
  have pk: "(ucast (PACK csz 0) :: 32 word) = ?t" using PACK_tag0[of csz] c by simp
  define s2 where "s2 = s\<lparr>mem := store_le (mem s) (bp - 4) 4 (uint ?t)\<rparr>"
  define s3 where "s3 = s2\<lparr>mem := store_le (mem s2) (bp + n - 8) 4 (uint ?t)\<rparr>"
  have p1: "PUT s (HDRP bp) (PACK csz 0) = Some s2"
    unfolding HDRP_def WSIZE_def s2_def using PUT_spec[OF r1, of "PACK csz 0"] pk by simp
  have t2: "tagw (mem s2) (bp - 4) = ?t" by (simp add: s2_def tagw_store)
  have f: "FTRP s2 bp = Some (bp + n - 8)"
    by (rule FTRP_tag[OF _ t2 n(1)]) (use r1 n in \<open>simp_all add: s2_def\<close>)
  have r2': "in_heap_range s2 (bp + n - 8) 4" using r2 by (simp add: s2_def)
  have p2: "PUT s2 (bp + n - 8) (PACK csz 0) = Some s3"
    unfolding s3_def using PUT_spec[OF r2', of "PACK csz 0"] pk by simp
  have m3: "mem s3 = store_le (store_le (mem s) (bp - 4) 4 (uint ?t)) (bp + n - 8) 4 (uint ?t)"
    by (simp add: s3_def s2_def)
  have d: "bp - 4 + 4 \<le> bp + n - 8 \<or> bp + n - 8 + 4 \<le> bp - 4" using n by simp
  note ta = tags_after_stores[OF m3 d]
  have blk: "blocks (mem s3) bp [(n, False)]" using ta(1,2) n by simp
  have fr: "mem s3 x = mem s x" if "x < bp - 4 \<or> bp + n - 4 \<le> x" for x
    using that n by (intro ta(3)) auto
  have sb: "same_bounds s s3" by (simp add: s3_def s2_def same_bounds_def)
  have fl: "freelists s3 = freelists s" by (simp add: s3_def s2_def)
  show ?thesis using p1 f p2 blk sb fl fr by blast
qed

lemma FLout_remove_next:
  assumes b: "blocks m a (pre @ [(sz, False)] @ (nsz, False) # post')"
  shows "FLout a pre [(sz, False)] ((nsz, False) # post') - {(a + total pre + sz, nsz)}
         = FLout a pre [(sz, False), (nsz, False)] post'"
proof -
  have b': "blocks m a (pre @ [(sz, False), (nsz, False)] @ post')" using b by simp
  have "(a + total pre + sz, nsz) \<notin> FLout a pre [(sz, False), (nsz, False)] post'"
  proof
    assume "(a + total pre + sz, nsz) \<in> FLout a pre [(sz, False), (nsz, False)] post'"
    from FLout_bounds[OF b' this] b show False by (auto simp: blocks_append)
  qed
  then show ?thesis
    by (auto simp: FLout_def free_set_Cons add.assoc)
qed

lemma coalesce_case2:
  assumes H: "heap_at s (pre @ [(sz, False)] @ post) (FLout (mem_start s + 16) pre [(sz, False)] post)"
      and bp: "bp = mem_start s + 16 + total pre"
      and np: "\<not> prev_free pre" and post: "post = (nsz, False) # post'"
  shows "\<exists>s'. coalesce s bp = Some (bp, s')
           \<and> heap_at s' (pre @ [(sz + nsz, False)] @ post')
                (free_set (mem_start s + 16) (pre @ [(sz + nsz, False)] @ post'))
           \<and> same_bounds s s'
           \<and> (\<forall>x. x \<notin> free_region (mem_start s + 16) (pre @ [(sz, False)] @ post)
                  \<longrightarrow> mem s' x = mem s x)"
proof -
  let ?a = "mem_start s + 16"
  let ?bs = "pre @ (sz, False) # post"
  let ?FL = "FLout ?a pre [(sz, False)] post"
  from H have L: "layout s ?bs" and sub: "?FL \<subseteq> free_set ?a ?bs" and lo: "lists_ok s ?FL"
    by (simp_all add: heap_at_def)
  note ld = layoutD[OF L]
  from coalesce_reads_prev[OF L bp] np obtain pb pf where
    rp: "PREV_BLKP s bp = Some pb" "FTRP s pb = Some pf" "GET_ALLOC s pf = Some 1" by auto
  have nf: "next_free post" by (simp add: post next_free_def)
  note rn = coalesce_reads_next[OF L bp]
  have t: "(bp, sz, False) \<in> set (bpl ?a ?bs)" unfolding bp by (rule bpl_mid)
  have tn: "(bp + sz, nsz, False) \<in> set (bpl ?a ?bs)" unfolding bp post by (simp add: bpl_append)
  note lb = layout_block[OF L t] and lbn = layout_block[OF L tn]
  have nFL: "(bp + sz, nsz) \<in> ?FL" unfolding bp post by (simp add: FLout_def free_set_Cons)
  from freelist_remove_spec[OF L sub lo nFL] obtain s1 where
    r1: "freelist_remove s (bp + sz) = Some s1" "layout s1 ?bs"
      "lists_ok s1 (?FL - {(bp + sz, nsz)})" "same_bounds s s1"
      "\<forall>x. (\<forall>q z. (q, z) \<in> ?FL \<longrightarrow> x < q \<or> q + 8 \<le> x) \<longrightarrow> mem s1 x = mem s x" by blast
  have ms1: "mem_start s1 = mem_start s" using r1(4) by (simp add: same_bounds_def)
  have b: "blocks (mem s) ?a (pre @ [(sz, False)] @ (nsz, False) # post')"
    using layout_blocks[OF L] post by simp
  have FL1: "?FL - {(bp + sz, nsz)} = FLout ?a pre [(sz, False), (nsz, False)] post'"
    unfolding bp post by (rule FLout_remove_next[OF b])
  have H1: "heap_at s1 (pre @ [(sz, False), (nsz, False)] @ post')
              (FLout (mem_start s1 + 16) pre [(sz, False), (nsz, False)] post')"
    using r1(2,3) FL1 post FLout_sub[of ?a pre "[(sz, False), (nsz, False)]" post']
    by (simp add: heap_at_def ms1)
  have t1: "(bp, sz, False) \<in> set (bpl (mem_start s1 + 16) ?bs)"
    and tn1: "(bp + sz, nsz, False) \<in> set (bpl (mem_start s1 + 16) ?bs)"
    using t tn by (simp_all add: ms1)
  have rd1: "NEXT_BLKP s1 bp = Some (bp + sz)" by (rule layout_reads(5)[OF r1(2) t1])
  have rd2: "GET_SIZE s1 (HDRP (bp + sz)) = Some (word_of_int nsz)"
    by (rule layout_reads(1)[OF r1(2) tn1])
  define csz where "csz = (ucast (word_of_int sz :: 32 word) :: 64 word) + ucast (word_of_int nsz :: 32 word)"
  have tot: "sz + nsz < 2 ^ 31" using lb lbn ld by simp
  have c: "uint csz = sz + nsz"
    unfolding csz_def using lb lbn tot by (subst uint_add64) (simp_all add: uint_size64)
  have rg0: "in_heap_range s (bp - 4) 4" "in_heap_range s (bp + (sz + nsz) - 8) 4"
    using lb lbn by (simp_all add: in_heap_range_def)
  have rg1: "in_heap_range s1 (bp - 4) 4" "in_heap_range s1 (bp + (sz + nsz) - 8) 4"
    using rg0 by (simp_all only: same_bounds_range[OF r1(4)])
  from put_free_tags[OF rg1 c] lb lbn tot obtain s2 s3 where
    p: "PUT s1 (HDRP bp) (PACK csz 0) = Some s2" "FTRP s2 bp = Some (bp + (sz + nsz) - 8)"
       "PUT s2 (bp + (sz + nsz) - 8) (PACK csz 0) = Some s3"
       "blocks (mem s3) bp [(sz + nsz, False)]" "same_bounds s1 s3" "freelists s3 = freelists s1"
       "\<forall>x. x < bp - 4 \<or> bp + (sz + nsz) - 4 \<le> x \<longrightarrow> mem s3 x = mem s1 x"
    by auto
  have bp1: "bp = mem_start s1 + 16 + total pre" using bp ms1 by simp
  from retag_insert[OF H1 _ bp1 p(4) _ p(5,6)] p(7) obtain s4 where
    r: "freelist_insert s3 bp = Some s4"
       "heap_at s4 (pre @ [(sz + nsz, False)] @ post')
          (free_set (mem_start s1 + 16) (pre @ [(sz + nsz, False)] @ post'))"
       "same_bounds s1 s4"
       "\<forall>x. x < bp - 4 \<or> bp + (sz + nsz) - 4 \<le> x \<longrightarrow> mem s4 x = mem s1 x"
    by auto
  have run: "coalesce s bp = Some (bp, s4)"
    using nf
    by (simp add: coalesce_def rp rn layout_reads(1)[OF L t] r1(1) rd1 rd2 Let_def
        csz_def[symmetric] p(1,2,3) r(1))
  have sb: "same_bounds s s4" using r1(4) r(3) by (rule same_bounds_trans)
  have fr: "mem s4 x = mem s x" if x: "x \<notin> free_region ?a (pre @ [(sz, False)] @ post)" for x
  proof -
    have x': "x \<notin> free_region ?a ?bs" using x by simp
    have o1: "x < bp - 4 \<or> bp + sz - 4 \<le> x"
      using not_free_region[OF x' t] .
    have o2: "x < bp + sz - 4 \<or> bp + sz + nsz - 4 \<le> x"
      using not_free_region[OF x' tn] by simp
    have o3: "x < q \<or> q + 8 \<le> x" if "(q, z) \<in> ?FL" for q z
    proof -
      have "(q, z) \<in> free_set ?a ?bs" using that sub by auto
      then have e: "(q, z, False) \<in> set (bpl ?a ?bs)" by (rule free_setD)
      from layout_block(3)[OF L e] not_free_region[OF x' e] show ?thesis by auto
    qed
    have "mem s4 x = mem s1 x" using o1 o2 r(4) by auto
    also have "\<dots> = mem s x" using o3 r1(5) by blast
    finally show ?thesis .
  qed
  show ?thesis using run r(2) sb fr by (auto simp: ms1)
qed

lemma FLout_remove_prev:
  assumes b: "blocks m a (pre' @ [(psz, False)] @ [(sz, False)] @ post)"
  shows "FLout a (pre' @ [(psz, False)]) [(sz, False)] post - {(a + total pre', psz)}
         = FLout a pre' [(psz, False), (sz, False)] post"
proof -
  have b': "blocks m a (pre' @ [(psz, False), (sz, False)] @ post)" using b by simp
  have "(a + total pre', psz) \<notin> FLout a pre' [(psz, False), (sz, False)] post"
  proof
    assume "(a + total pre', psz) \<in> FLout a pre' [(psz, False), (sz, False)] post"
    from FLout_bounds[OF b' this] b show False by (auto simp: blocks_append)
  qed
  then show ?thesis
    by (auto simp: FLout_def free_set_append free_set_Cons total_append add.assoc)
qed

lemma coalesce_case3:
  assumes H: "heap_at s (pre @ [(sz, False)] @ post) (FLout (mem_start s + 16) pre [(sz, False)] post)"
      and bp: "bp = mem_start s + 16 + total pre"
      and pre: "pre = pre' @ [(psz, False)]" and nn: "\<not> next_free post"
  shows "\<exists>s'. coalesce s bp = Some (bp - psz, s')
           \<and> heap_at s' (pre' @ [(psz + sz, False)] @ post)
                (free_set (mem_start s + 16) (pre' @ [(psz + sz, False)] @ post))
           \<and> same_bounds s s'
           \<and> (\<forall>x. x \<notin> free_region (mem_start s + 16) (pre @ [(sz, False)] @ post)
                  \<longrightarrow> mem s' x = mem s x)"
proof -
  let ?a = "mem_start s + 16"
  let ?bs = "pre @ (sz, False) # post"
  let ?FL = "FLout ?a pre [(sz, False)] post"
  from H have L: "layout s ?bs" and sub: "?FL \<subseteq> free_set ?a ?bs" and lo: "lists_ok s ?FL"
    by (simp_all add: heap_at_def)
  note ld = layoutD[OF L]
  have pf: "prev_free pre" by (simp add: pre prev_free_def)
  from coalesce_reads_prev[OF L bp] pf pre obtain pf0 where
    rp: "PREV_BLKP s bp = Some (bp - psz)" "FTRP s (bp - psz) = Some pf0" "GET_ALLOC s pf0 = Some 0"
    by auto
  note rn = coalesce_reads_next[OF L bp]
  have t: "(bp, sz, False) \<in> set (bpl ?a ?bs)" unfolding bp by (rule bpl_mid)
  have tp: "(bp - psz, psz, False) \<in> set (bpl ?a ?bs)"
    unfolding bp pre by (simp add: bpl_append total_append)
  note lb = layout_block[OF L t] and lbp = layout_block[OF L tp]
  have pFL: "(bp - psz, psz) \<in> ?FL"
    unfolding bp pre by (simp add: FLout_def free_set_append free_set_Cons total_append)
  from freelist_remove_spec[OF L sub lo pFL] obtain s1 where
    r1: "freelist_remove s (bp - psz) = Some s1" "layout s1 ?bs"
      "lists_ok s1 (?FL - {(bp - psz, psz)})" "same_bounds s s1"
      "\<forall>x. (\<forall>q z. (q, z) \<in> ?FL \<longrightarrow> x < q \<or> q + 8 \<le> x) \<longrightarrow> mem s1 x = mem s x" by blast
  have ms1: "mem_start s1 = mem_start s" using r1(4) by (simp add: same_bounds_def)
  have b: "blocks (mem s) ?a (pre' @ [(psz, False)] @ [(sz, False)] @ post)"
    using layout_blocks[OF L] pre by simp
  have e: "bp - psz = ?a + total pre'" using bp pre by (simp add: total_append)
  have FL1: "?FL - {(bp - psz, psz)} = FLout ?a pre' [(psz, False), (sz, False)] post"
    unfolding e pre by (rule FLout_remove_prev[OF b])
  have H1: "heap_at s1 (pre' @ [(psz, False), (sz, False)] @ post)
              (FLout (mem_start s1 + 16) pre' [(psz, False), (sz, False)] post)"
    using r1(2,3) FL1 pre FLout_sub[of ?a pre' "[(psz, False), (sz, False)]" post]
    by (simp add: heap_at_def ms1)
  have t1: "(bp, sz, False) \<in> set (bpl (mem_start s1 + 16) ?bs)"
    and tp1: "(bp - psz, psz, False) \<in> set (bpl (mem_start s1 + 16) ?bs)"
    using t tp by (simp_all add: ms1)
  note lb1 = layout_block[OF r1(2) t1] and lbp1 = layout_block[OF r1(2) tp1]
  have rg0: "in_heap_range s (bp - 8) 4" "in_heap_range s (bp + sz - 8) 4"
    "in_heap_range s (bp - psz - 4) 4"
    using lb lbp by (simp_all add: in_heap_range_def)
  have rg1: "in_heap_range s1 (bp - 8) 4" "in_heap_range s1 (bp + sz - 8) 4"
    "in_heap_range s1 (bp - psz - 4) 4"
    using rg0 by (simp_all only: same_bounds_range[OF r1(4)])
  have ft1: "tagw (mem s1) (bp - 8) = mk_tag psz False" using lbp1(7) by simp
  have psr: "8 dvd psz" "0 \<le> psz" "psz < 2 ^ 32" using lbp by simp_all
  have rd1: "PREV_BLKP s1 bp = Some (bp - psz)"
    by (rule PREV_BLKP_tag[OF rg1(1) ft1 psr])
  have rd2: "GET_SIZE s1 (HDRP (bp - psz)) = Some (word_of_int psz)"
    by (rule layout_reads(1)[OF r1(2) tp1])
  have rd3: "FTRP s1 bp = Some (bp + sz - 8)" by (rule layout_reads(6)[OF r1(2) t1])
  define csz where "csz = (ucast (word_of_int sz :: 32 word) :: 64 word) + ucast (word_of_int psz :: 32 word)"
  have tot: "psz + sz < 2 ^ 31" using lb lbp ld by simp
  have c: "uint csz = psz + sz"
    unfolding csz_def using lb lbp tot by (subst uint_add64) (simp_all add: uint_size64)
  let ?t = "mk_tag (psz + sz) False"
  have pk: "(ucast (PACK csz 0) :: 32 word) = ?t" using PACK_tag0[of csz] c by simp
  define s2 where "s2 = s1\<lparr>mem := store_le (mem s1) (bp + sz - 8) 4 (uint ?t)\<rparr>"
  define s3 where "s3 = s2\<lparr>mem := store_le (mem s2) (bp - psz - 4) 4 (uint ?t)\<rparr>"
  have p1: "PUT s1 (bp + sz - 8) (PACK csz 0) = Some s2"
    unfolding s2_def using PUT_spec[OF rg1(2), of "PACK csz 0"] pk by simp
  have ft2: "tagw (mem s2) (bp - 8) = mk_tag psz False"
    unfolding s2_def using lb ft1 by (simp add: tagw_store_disj)
  have rd4: "PREV_BLKP s2 bp = Some (bp - psz)"
    by (rule PREV_BLKP_tag[OF _ ft2 psr]) (use rg1 in \<open>simp add: s2_def\<close>)
  have p2: "PUT s2 (HDRP (bp - psz)) (PACK csz 0) = Some s3"
    unfolding s3_def HDRP_def WSIZE_def
    using PUT_spec[of s2 "bp - psz - 4" "PACK csz 0"] rg1(3) pk by (simp add: s2_def)
  have ft3: "tagw (mem s3) (bp - 8) = mk_tag psz False"
    unfolding s3_def using lbp ft2 by (simp add: tagw_store_disj)
  have rd5: "PREV_BLKP s3 bp = Some (bp - psz)"
    by (rule PREV_BLKP_tag[OF _ ft3 psr]) (use rg1 in \<open>simp add: s3_def s2_def\<close>)
  have m3: "mem s3 = store_le (store_le (mem s1) (bp + sz - 8) 4 (uint ?t)) (bp - psz - 4) 4 (uint ?t)"
    by (simp add: s3_def s2_def)
  have d: "bp + sz - 8 + 4 \<le> bp - psz - 4 \<or> bp - psz - 4 + 4 \<le> bp + sz - 8" using lb lbp by simp
  note ta = tags_after_stores[OF m3 d]
  have blk: "blocks (mem s3) (bp - psz) [(psz + sz, False)]"
    using ta(1,2) lb lbp by (simp add: algebra_simps)
  have fr3: "mem s3 x = mem s1 x" if "x < bp - psz - 4 \<or> bp - psz + (psz + sz) - 4 \<le> x" for x
    using that lb lbp by (intro ta(3)) auto
  have sb3: "same_bounds s1 s3" by (simp add: s3_def s2_def same_bounds_def)
  have fl3: "freelists s3 = freelists s1" by (simp add: s3_def s2_def)
  have bp1: "bp - psz = mem_start s1 + 16 + total pre'" using e ms1 by simp
  from retag_insert[OF H1 _ bp1 blk fr3 sb3 fl3] obtain s4 where
    r: "freelist_insert s3 (bp - psz) = Some s4"
       "heap_at s4 (pre' @ [(psz + sz, False)] @ post)
          (free_set (mem_start s1 + 16) (pre' @ [(psz + sz, False)] @ post))"
       "same_bounds s1 s4"
       "\<forall>x. x < bp - psz - 4 \<or> bp - psz + (psz + sz) - 4 \<le> x \<longrightarrow> mem s4 x = mem s1 x"
    by auto
  have run: "coalesce s bp = Some (bp - psz, s4)"
    using nn
    by (simp add: coalesce_def rp rn layout_reads(1)[OF L t] r1(1) rd1 rd2 rd3 Let_def
        csz_def[symmetric] p1 rd4 p2 rd5 r(1))
  have sb: "same_bounds s s4" using r1(4) r(3) by (rule same_bounds_trans)
  have fr: "mem s4 x = mem s x" if x: "x \<notin> free_region ?a (pre @ [(sz, False)] @ post)" for x
  proof -
    have x': "x \<notin> free_region ?a ?bs" using x by simp
    have o1: "x < bp - 4 \<or> bp + sz - 4 \<le> x"
      using not_free_region[OF x' t] .
    have o2: "x < bp - psz - 4 \<or> bp - 4 \<le> x"
      using not_free_region[OF x' tp] by simp
    have o3: "x < q \<or> q + 8 \<le> x" if "(q, z) \<in> ?FL" for q z
    proof -
      have "(q, z) \<in> free_set ?a ?bs" using that sub by auto
      then have e: "(q, z, False) \<in> set (bpl ?a ?bs)" by (rule free_setD)
      from layout_block(3)[OF L e] not_free_region[OF x' e] show ?thesis by auto
    qed
    have "mem s4 x = mem s1 x" using o1 o2 r(4) by auto
    also have "\<dots> = mem s x" using o3 r1(5) by blast
    finally show ?thesis .
  qed
  show ?thesis using run r(2) sb fr by (auto simp: ms1)
qed

lemma uint_add32:
  "uint (x :: 32 word) + uint y < 2 ^ 32 \<Longrightarrow> uint (x + y) = uint x + uint y"
  using uint_add_lem[of x y] by simp

lemma coalesce_case4:
  assumes H: "heap_at s (pre @ [(sz, False)] @ post) (FLout (mem_start s + 16) pre [(sz, False)] post)"
      and bp: "bp = mem_start s + 16 + total pre"
      and pre: "pre = pre' @ [(psz, False)]" and post: "post = (nsz, False) # post'"
  shows "\<exists>s'. coalesce s bp = Some (bp - psz, s')
           \<and> heap_at s' (pre' @ [(psz + sz + nsz, False)] @ post')
                (free_set (mem_start s + 16) (pre' @ [(psz + sz + nsz, False)] @ post'))
           \<and> same_bounds s s'
           \<and> (\<forall>x. x \<notin> free_region (mem_start s + 16) (pre @ [(sz, False)] @ post)
                  \<longrightarrow> mem s' x = mem s x)"
proof -
  let ?a = "mem_start s + 16"
  let ?bs = "pre @ (sz, False) # post"
  let ?FL = "FLout ?a pre [(sz, False)] post"
  from H have L: "layout s ?bs" and sub: "?FL \<subseteq> free_set ?a ?bs" and lo: "lists_ok s ?FL"
    by (simp_all add: heap_at_def)
  note ld = layoutD[OF L]
  have pf: "prev_free pre" by (simp add: pre prev_free_def)
  have nf: "next_free post" by (simp add: post next_free_def)
  from coalesce_reads_prev[OF L bp] pf pre obtain pf0 where
    rp: "PREV_BLKP s bp = Some (bp - psz)" "FTRP s (bp - psz) = Some pf0" "GET_ALLOC s pf0 = Some 0"
    by auto
  note rn = coalesce_reads_next[OF L bp]
  have t: "(bp, sz, False) \<in> set (bpl ?a ?bs)" unfolding bp by (rule bpl_mid)
  have tp: "(bp - psz, psz, False) \<in> set (bpl ?a ?bs)"
    unfolding bp pre by (simp add: bpl_append total_append)
  have tn: "(bp + sz, nsz, False) \<in> set (bpl ?a ?bs)" unfolding bp post by (simp add: bpl_append)
  note lb = layout_block[OF L t] and lbp = layout_block[OF L tp] and lbn = layout_block[OF L tn]
  have nFL: "(bp + sz, nsz) \<in> ?FL" unfolding bp post by (simp add: FLout_def free_set_Cons)
  from freelist_remove_spec[OF L sub lo nFL] obtain s1 where
    r1: "freelist_remove s (bp + sz) = Some s1" "layout s1 ?bs"
      "lists_ok s1 (?FL - {(bp + sz, nsz)})" "same_bounds s s1"
      "\<forall>x. (\<forall>q z. (q, z) \<in> ?FL \<longrightarrow> x < q \<or> q + 8 \<le> x) \<longrightarrow> mem s1 x = mem s x" by blast
  have ms1: "mem_start s1 = mem_start s" using r1(4) by (simp add: same_bounds_def)
  let ?FL1 = "?FL - {(bp + sz, nsz)}"
  have sub1: "?FL1 \<subseteq> free_set (mem_start s1 + 16) ?bs" using sub by (auto simp: ms1)
  have pFL1: "(bp - psz, psz) \<in> ?FL1"
    using lb lbp unfolding bp pre
    by (simp add: FLout_def free_set_append free_set_Cons total_append)
  from freelist_remove_spec[OF r1(2) sub1 r1(3) pFL1] obtain s2 where
    r2: "freelist_remove s1 (bp - psz) = Some s2" "layout s2 ?bs"
      "lists_ok s2 (?FL1 - {(bp - psz, psz)})" "same_bounds s1 s2"
      "\<forall>x. (\<forall>q z. (q, z) \<in> ?FL1 \<longrightarrow> x < q \<or> q + 8 \<le> x) \<longrightarrow> mem s2 x = mem s1 x" by blast
  have sb2: "same_bounds s s2" using r1(4) r2(4) by (rule same_bounds_trans)
  have ms2: "mem_start s2 = mem_start s" using sb2 by (simp add: same_bounds_def)
  have e: "bp - psz = ?a + total pre'" using bp pre by (simp add: total_append)
  have b: "blocks (mem s) ?a (pre' @ [(psz, False), (sz, False), (nsz, False)] @ post')"
    using layout_blocks[OF L] pre post by simp
  have n1: "(bp - psz, psz) \<notin> FLout ?a pre' [(psz, False), (sz, False), (nsz, False)] post'"
    and n2: "(bp + sz, nsz) \<notin> FLout ?a pre' [(psz, False), (sz, False), (nsz, False)] post'"
    using FLout_bounds[OF b, of "bp - psz" psz] FLout_bounds[OF b, of "bp + sz" nsz] lb lbp lbn e
    by auto
  have FL2: "?FL1 - {(bp - psz, psz)} = FLout ?a pre' [(psz, False), (sz, False), (nsz, False)] post'"
    using n1 n2 unfolding bp pre post
    by (auto simp: FLout_def free_set_append free_set_Cons total_append add.assoc)
  have H2: "heap_at s2 (pre' @ [(psz, False), (sz, False), (nsz, False)] @ post')
              (FLout (mem_start s2 + 16) pre' [(psz, False), (sz, False), (nsz, False)] post')"
    using r2(2,3) FL2 pre post
      FLout_sub[of ?a pre' "[(psz, False), (sz, False), (nsz, False)]" post']
    by (simp add: heap_at_def ms2)
  have t1: "(bp, sz, False) \<in> set (bpl (mem_start s1 + 16) ?bs)"
    and tp1: "(bp - psz, psz, False) \<in> set (bpl (mem_start s1 + 16) ?bs)"
    using t tp by (simp_all add: ms1)
  have t2: "(bp, sz, False) \<in> set (bpl (mem_start s2 + 16) ?bs)"
    and tp2: "(bp - psz, psz, False) \<in> set (bpl (mem_start s2 + 16) ?bs)"
    and tn2: "(bp + sz, nsz, False) \<in> set (bpl (mem_start s2 + 16) ?bs)"
    using t tp tn by (simp_all add: ms2)
  note lb2 = layout_block[OF r2(2) t2] and lbp2 = layout_block[OF r2(2) tp2]
    and lbn2 = layout_block[OF r2(2) tn2]
  have rg0: "in_heap_range s (bp - 8) 4" "in_heap_range s (bp - 4) 4"
    "in_heap_range s (bp + sz - 4) 4"
    "in_heap_range s (bp - psz - 4) 4" "in_heap_range s (bp + sz + nsz - 8) 4"
    using lb lbp lbn by (simp_all add: in_heap_range_def)
  have rg1: "in_heap_range s1 (bp - 8) 4"
    using rg0 by (simp_all only: same_bounds_range[OF r1(4)])
  have rg2: "in_heap_range s2 (bp - 8) 4" "in_heap_range s2 (bp - 4) 4"
    "in_heap_range s2 (bp + sz - 4) 4"
    "in_heap_range s2 (bp - psz - 4) 4" "in_heap_range s2 (bp + sz + nsz - 8) 4"
    using rg0 by (simp_all only: same_bounds_range[OF sb2])
  have psr: "8 dvd psz" "0 \<le> psz" "psz < 2 ^ 32" using lbp by simp_all
  have szr: "8 dvd sz" "0 \<le> sz" "sz < 2 ^ 32" using lb by simp_all
  have nsr: "8 dvd nsz" "0 \<le> nsz" "nsz < 2 ^ 32" using lbn by simp_all
  have ft1: "tagw (mem s1) (bp - 8) = mk_tag psz False"
    using layout_block(7)[OF r1(2) tp1] by simp
  have rd0: "PREV_BLKP s1 bp = Some (bp - psz)"
    by (rule PREV_BLKP_tag[OF rg1(1) ft1 psr])
  have ft2: "tagw (mem s2) (bp - 8) = mk_tag psz False" using lbp2(7) by simp
  have hd2: "tagw (mem s2) (bp - 4) = mk_tag sz False" using lb2(6) by simp
  have nh2: "tagw (mem s2) (bp + sz - 4) = mk_tag nsz False" using lbn2(6) by simp
  have rd1: "PREV_BLKP s2 bp = Some (bp - psz)"
    by (rule PREV_BLKP_tag[OF rg2(1) ft2 psr])
  have rd2: "GET_SIZE s2 (HDRP (bp - psz)) = Some (word_of_int psz)"
    by (rule layout_reads(1)[OF r2(2) tp2])
  have rd3: "NEXT_BLKP s2 bp = Some (bp + sz)" by (rule layout_reads(5)[OF r2(2) t2])
  have rd4: "FTRP s2 (bp + sz) = Some (bp + sz + nsz - 8)" by (rule layout_reads(6)[OF r2(2) tn2])
  have rd5: "GET_SIZE s2 (bp + sz + nsz - 8) = Some (word_of_int nsz)"
    by (rule layout_reads(3)[OF r2(2) tn2])
  define csz where "csz = (ucast (word_of_int sz :: 32 word) :: 64 word)
      + ucast ((word_of_int psz :: 32 word) + word_of_int nsz)"
  have tot: "psz + sz + nsz < 2 ^ 31" using lb lbp lbn ld by simp
  have c32: "uint ((word_of_int psz :: 32 word) + word_of_int nsz) = psz + nsz"
    using lbp lbn tot by (subst uint_add32) (simp_all add: uint_size_word)
  have u1: "uint (ucast (word_of_int sz :: 32 word) :: 64 word) = sz"
    using szr by (intro uint_size64) simp_all
  have u2: "uint (ucast ((word_of_int psz :: 32 word) + word_of_int nsz) :: 64 word) = psz + nsz"
    by (simp only: uint_ucast_32_64 c32)
  have c: "uint csz = psz + sz + nsz"
    unfolding csz_def using tot szr psr nsr
    by (subst uint_add64) (simp_all only: u1 u2, simp_all)
  let ?n = "psz + sz + nsz"
  let ?t = "mk_tag ?n False"
  have pk: "(ucast (PACK csz 0) :: 32 word) = ?t" using PACK_tag0[of csz] c by simp
  define s3 where "s3 = s2\<lparr>mem := store_le (mem s2) (bp - psz - 4) 4 (uint ?t)\<rparr>"
  define s4 where "s4 = s3\<lparr>mem := store_le (mem s3) (bp + sz + nsz - 8) 4 (uint ?t)\<rparr>"
  have p1: "PUT s2 (HDRP (bp - psz)) (PACK csz 0) = Some s3"
    unfolding s3_def HDRP_def WSIZE_def
    using PUT_spec[OF rg2(4), of "PACK csz 0"] pk by simp
  have hd3: "tagw (mem s3) (bp - 4) = mk_tag sz False"
    unfolding s3_def using lbp hd2 by (simp add: tagw_store_disj)
  have nh3: "tagw (mem s3) (bp + sz - 4) = mk_tag nsz False"
    unfolding s3_def using lb lbp nh2 by (simp add: tagw_store_disj)
  have rd6: "NEXT_BLKP s3 bp = Some (bp + sz)"
    by (rule NEXT_BLKP_tag[OF _ hd3 szr]) (use rg2 in \<open>simp add: s3_def\<close>)
  have rd7: "FTRP s3 (bp + sz) = Some (bp + sz + nsz - 8)"
    by (rule FTRP_tag[OF _ _ nsr]) (use rg2 nh3 in \<open>simp_all add: s3_def\<close>)
  have p2: "PUT s3 (bp + sz + nsz - 8) (PACK csz 0) = Some s4"
    unfolding s4_def
    using PUT_spec[of s3 "bp + sz + nsz - 8" "PACK csz 0"] rg2(5) pk by (simp add: s3_def)
  have ft4: "tagw (mem s4) (bp - 8) = mk_tag psz False"
    unfolding s4_def s3_def using lb lbp lbn ft2 by (simp add: tagw_store_disj)
  have rd8: "PREV_BLKP s4 bp = Some (bp - psz)"
    by (rule PREV_BLKP_tag[OF _ ft4 psr]) (use rg2 in \<open>simp add: s4_def s3_def\<close>)
  have m4: "mem s4 = store_le (store_le (mem s2) (bp - psz - 4) 4 (uint ?t))
                        (bp + sz + nsz - 8) 4 (uint ?t)"
    by (simp add: s4_def s3_def)
  have d: "bp - psz - 4 + 4 \<le> bp + sz + nsz - 8 \<or> bp + sz + nsz - 8 + 4 \<le> bp - psz - 4"
    using lb lbp lbn by simp
  note ta = tags_after_stores[OF m4 d]
  have blk: "blocks (mem s4) (bp - psz) [(?n, False)]"
    using ta(1,2) lb lbp lbn by (simp add: algebra_simps)
  have fr4: "mem s4 x = mem s2 x" if "x < bp - psz - 4 \<or> bp - psz + ?n - 4 \<le> x" for x
    using that lb lbp lbn by (intro ta(3)) auto
  have sb4: "same_bounds s2 s4" by (simp add: s4_def s3_def same_bounds_def)
  have fl4: "freelists s4 = freelists s2" by (simp add: s4_def s3_def)
  have bp2: "bp - psz = mem_start s2 + 16 + total pre'" using e ms2 by simp
  from retag_insert[OF H2 _ bp2 blk fr4 sb4 fl4] obtain s5 where
    r: "freelist_insert s4 (bp - psz) = Some s5"
       "heap_at s5 (pre' @ [(?n, False)] @ post')
          (free_set (mem_start s2 + 16) (pre' @ [(?n, False)] @ post'))"
       "same_bounds s2 s5"
       "\<forall>x. x < bp - psz - 4 \<or> bp - psz + ?n - 4 \<le> x \<longrightarrow> mem s5 x = mem s2 x"
    by auto
  have run: "coalesce s bp = Some (bp - psz, s5)"
    using nf
    by (simp add: coalesce_def rp rn layout_reads(1)[OF L t] r1(1) rd0 r2(1) rd1 rd2 rd3 rd4 rd5
        Let_def csz_def[symmetric] p1 rd6 rd7 p2 rd8 r(1))
  have sb: "same_bounds s s5" using sb2 r(3) by (rule same_bounds_trans)
  have fr: "mem s5 x = mem s x" if x: "x \<notin> free_region ?a (pre @ [(sz, False)] @ post)" for x
  proof -
    have x': "x \<notin> free_region ?a ?bs" using x by simp
    have o1: "x < bp - 4 \<or> bp + sz - 4 \<le> x"
      using not_free_region[OF x' t] .
    have o2: "x < bp - psz - 4 \<or> bp - 4 \<le> x"
      using not_free_region[OF x' tp] by simp
    have o4: "x < bp + sz - 4 \<or> bp + sz + nsz - 4 \<le> x"
      using not_free_region[OF x' tn] by simp
    have o3: "x < q \<or> q + 8 \<le> x" if "(q, z) \<in> ?FL" for q z
    proof -
      have "(q, z) \<in> free_set ?a ?bs" using that sub by auto
      then have e: "(q, z, False) \<in> set (bpl ?a ?bs)" by (rule free_setD)
      from layout_block(3)[OF L e] not_free_region[OF x' e] show ?thesis by auto
    qed
    have "mem s5 x = mem s2 x" using o1 o2 o4 r(4) by auto
    also have "\<dots> = mem s1 x" using o3 r2(5) by blast
    also have "\<dots> = mem s x" using o3 r1(5) by blast
    finally show ?thesis .
  qed
  show ?thesis using run r(2) sb fr by (auto simp: ms2)
qed

lemma prev_free_snoc: "prev_free pre \<Longrightarrow> \<exists>pre' psz. pre = pre' @ [(psz, False)]"
  unfolding prev_free_def
  by (metis append_butlast_last_id prod.collapse)

lemma next_free_cons: "next_free post \<Longrightarrow> \<exists>nsz post'. post = (nsz, False) # post'"
  unfolding next_free_def
  by (metis list.collapse prod.collapse)

lemma coalesce_spec:
  assumes H: "heap_at s (pre @ [(sz, False)] @ post) (FLout (mem_start s + 16) pre [(sz, False)] post)"
      and bp: "bp = mem_start s + 16 + total pre"
  shows "\<exists>s'. coalesce s bp = Some (bp - prev_size pre, s')
           \<and> heap_at s' (coalesced pre sz post) (free_set (mem_start s + 16) (coalesced pre sz post))
           \<and> same_bounds s s'
           \<and> (\<forall>x. x \<notin> free_region (mem_start s + 16) (pre @ [(sz, False)] @ post)
                  \<longrightarrow> mem s' x = mem s x)"
proof (cases "prev_free pre")
  case pf: True
  then obtain pre' psz where pre: "pre = pre' @ [(psz, False)]" by (auto dest: prev_free_snoc)
  show ?thesis
  proof (cases "next_free post")
    case True
    then obtain nsz post' where post: "post = (nsz, False) # post'" by (auto dest: next_free_cons)
    from coalesce_case4[OF H bp pre post] show ?thesis
      using pf True by (simp add: coalesced_def prev_size_def next_size_def pre post)
  next
    case False
    from coalesce_case3[OF H bp pre False] show ?thesis
      using pf False by (simp add: coalesced_def prev_size_def next_size_def pre)
  qed
next
  case np: False
  show ?thesis
  proof (cases "next_free post")
    case True
    then obtain nsz post' where post: "post = (nsz, False) # post'" by (auto dest: next_free_cons)
    from coalesce_case2[OF H bp np post] show ?thesis
      using np True by (simp add: coalesced_def prev_size_def next_size_def post)
  next
    case False
    have t: "(bp, sz, False) \<in> set (bpl (mem_start s + 16) (pre @ [(sz, False)] @ post))"
      unfolding bp by (simp add: bpl_append)
    from coalesce_case1[OF H bp np False] obtain s' where
      r: "coalesce s bp = Some (bp, s')"
         "heap_at s' (pre @ [(sz, False)] @ post)
            (free_set (mem_start s + 16) (pre @ [(sz, False)] @ post))"
         "same_bounds s s'"
         "\<forall>x. x < bp - 4 \<or> bp + sz - 4 \<le> x \<longrightarrow> mem s' x = mem s x" by blast
    have "mem s' x = mem s x"
      if "x \<notin> free_region (mem_start s + 16) (pre @ [(sz, False)] @ post)" for x
      using not_free_region[OF that t] r(4) by blast
    then show ?thesis
      using r(1,2,3) np False by (auto simp: coalesced_def prev_size_def next_size_def)
  qed
qed

lemma naf_append:
  "no_adjacent_free (xs @ ys) \<longleftrightarrow>
     no_adjacent_free xs \<and> no_adjacent_free ys \<and> (xs = [] \<or> ys = [] \<or> snd (last xs) \<or> snd (hd ys))"
proof (induction xs rule: no_adjacent_free.induct)
  case 1
  then show ?case by simp
next
  case (2 b)
  then show ?case by (cases ys; cases b) auto
next
  case (3 s1 a1 s2 a2 bs)
  then show ?case by auto
qed

lemma naf_coalesced:
  assumes "no_adjacent_free pre" "no_adjacent_free post"
  shows "no_adjacent_free (coalesced pre sz post)"
proof -
  let ?P = "if prev_free pre then butlast pre else pre"
  let ?Q = "if next_free post then tl post else post"
  have P: "no_adjacent_free ?P \<and> (?P = [] \<or> snd (last ?P))"
  proof (cases "prev_free pre")
    case True
    then obtain pre' psz where pre: "pre = pre' @ [(psz, False)]" by (auto dest: prev_free_snoc)
    show ?thesis using assms(1) True by (auto simp: pre naf_append)
  next
    case False
    then show ?thesis using assms(1) by (auto simp: prev_free_def)
  qed
  have Q: "no_adjacent_free ?Q \<and> (?Q = [] \<or> snd (hd ?Q))"
  proof (cases "next_free post")
    case True
    then obtain nsz post' where post: "post = (nsz, False) # post'" by (auto dest: next_free_cons)
    have "no_adjacent_free ([(nsz, False)] @ post')" using assms(2) post by simp
    then show ?thesis using True unfolding naf_append by (auto simp: post)
  next
    case False
    then show ?thesis using assms(2) by (auto simp: next_free_def)
  qed
  have "no_adjacent_free ([(prev_size pre + sz + next_size post, False)] @ ?Q)"
    unfolding naf_append using Q by auto
  then show ?thesis
    unfolding coalesced_def naf_append using P by auto
qed

lemma total_coalesced:
  "total (coalesced pre sz post) = total (pre @ [(sz, False)] @ post)"
proof -
  have 1: "total (if prev_free pre then butlast pre else pre) + prev_size pre = total pre"
    by (auto simp: prev_size_def total_append dest!: prev_free_snoc)
  have 2: "next_size post + total (if next_free post then tl post else post) = total post"
    by (auto simp: next_size_def dest!: next_free_cons)
  show ?thesis using 1 2 by (simp add: coalesced_def total_append)
qed

lemma alloc_set_Nil [simp]: "alloc_set a [] = {}"
  by (simp add: alloc_set_def)

lemma alloc_set_Cons:
  "alloc_set a ((sz, al) # bs) = (if al then {(a, sz)} else {}) \<union> alloc_set (a + sz) bs"
  by (auto simp: alloc_set_def)

lemma alloc_set_append:
  "alloc_set a (xs @ ys) = alloc_set a xs \<union> alloc_set (a + total xs) ys"
  by (auto simp: alloc_set_def bpl_append)

lemma alloc_set_coalesced:
  "alloc_set a (coalesced pre sz post) = alloc_set a pre \<union> alloc_set (a + total pre + sz) post"
proof -
  define P where "P = (if prev_free pre then butlast pre else pre)"
  define Q where "Q = (if next_free post then tl post else post)"
  have "\<exists>p. pre = P @ (if prev_free pre then [(p, False)] else [])
           \<and> prev_size pre = (if prev_free pre then p else 0)"
  proof (cases "prev_free pre")
    case True
    then obtain pre' psz where "pre = pre' @ [(psz, False)]" by (auto dest: prev_free_snoc)
    then show ?thesis using True by (auto simp: P_def prev_size_def)
  next
    case False
    then show ?thesis by (simp add: P_def prev_size_def)
  qed
  then obtain p where P: "pre = P @ (if prev_free pre then [(p, False)] else [])"
    "prev_size pre = (if prev_free pre then p else 0)" by blast
  have "\<exists>q. post = (if next_free post then [(q, False)] else []) @ Q
           \<and> next_size post = (if next_free post then q else 0)"
  proof (cases "next_free post")
    case True
    then obtain nsz post' where "post = (nsz, False) # post'" by (auto dest: next_free_cons)
    then show ?thesis using True by (auto simp: Q_def next_size_def)
  next
    case False
    then show ?thesis by (simp add: Q_def next_size_def)
  qed
  then obtain q where Q: "post = (if next_free post then [(q, False)] else []) @ Q"
    "next_size post = (if next_free post then q else 0)" by blast
  have "alloc_set a (coalesced pre sz post)
        = alloc_set a P \<union> alloc_set (a + total P + (prev_size pre + sz + next_size post)) Q"
    unfolding coalesced_def P_def[symmetric] Q_def[symmetric] by (simp add: alloc_set_append alloc_set_Cons add.assoc)
  moreover have "alloc_set a pre = alloc_set a P" "total pre = total P + prev_size pre"
    by (subst P(1), simp add: alloc_set_append alloc_set_Cons total_append P(2))+
  moreover have "alloc_set (a + total pre + sz) post
                 = alloc_set (a + total pre + sz + next_size post) Q"
    by (subst Q(1), simp add: alloc_set_append alloc_set_Cons Q(2))
  ultimately show ?thesis by (simp add: add.assoc)
qed

lemma naf_tl: "no_adjacent_free (b # bs) \<Longrightarrow> no_adjacent_free bs"
  by (cases bs; cases b) auto

lemma put_tags:
  assumes r1: "in_heap_range s (bp - 4) 4" and r2: "in_heap_range s (bp + n - 8) 4"
      and c: "uint csz = n" and n: "8 dvd n" "16 \<le> n" "n < 2 ^ 32"
  shows "\<exists>s2 s3. PUT s (HDRP bp) (PACK csz (if al then 1 else 0)) = Some s2
           \<and> FTRP s2 bp = Some (bp + n - 8)
           \<and> PUT s2 (bp + n - 8) (PACK csz (if al then 1 else 0)) = Some s3
           \<and> blocks (mem s3) bp [(n, al)] \<and> same_bounds s s3 \<and> freelists s3 = freelists s
           \<and> (\<forall>x. \<not> (bp - 4 \<le> x \<and> x < bp) \<and> \<not> (bp + n - 8 \<le> x \<and> x < bp + n - 4)
                  \<longrightarrow> mem s3 x = mem s x)"
proof -
  let ?t = "mk_tag n al"
  let ?v = "PACK csz (if al then 1 else 0)"
  have pk: "(ucast ?v :: 32 word) = ?t"
    using PACK_tag0[of csz] PACK_tag1[of csz] c n by (cases al) simp_all
  define s2 where "s2 = s\<lparr>mem := store_le (mem s) (bp - 4) 4 (uint ?t)\<rparr>"
  define s3 where "s3 = s2\<lparr>mem := store_le (mem s2) (bp + n - 8) 4 (uint ?t)\<rparr>"
  have p1: "PUT s (HDRP bp) ?v = Some s2"
    unfolding HDRP_def WSIZE_def s2_def using PUT_spec[OF r1, of ?v] pk by simp
  have t2: "tagw (mem s2) (bp - 4) = ?t" by (simp add: s2_def tagw_store)
  have f: "FTRP s2 bp = Some (bp + n - 8)"
    by (rule FTRP_tag[OF _ t2 n(1)]) (use r1 n in \<open>simp_all add: s2_def\<close>)
  have r2': "in_heap_range s2 (bp + n - 8) 4" using r2 by (simp add: s2_def)
  have p2: "PUT s2 (bp + n - 8) ?v = Some s3"
    unfolding s3_def using PUT_spec[OF r2', of ?v] pk by simp
  have m3: "mem s3 = store_le (store_le (mem s) (bp - 4) 4 (uint ?t)) (bp + n - 8) 4 (uint ?t)"
    by (simp add: s3_def s2_def)
  have d: "bp - 4 + 4 \<le> bp + n - 8 \<or> bp + n - 8 + 4 \<le> bp - 4" using n by simp
  note ta = tags_after_stores[OF m3 d]
  have blk: "blocks (mem s3) bp [(n, al)]" using ta(1,2) n by simp
  have fr: "mem s3 x = mem s x"
    if "\<not> (bp - 4 \<le> x \<and> x < bp) \<and> \<not> (bp + n - 8 \<le> x \<and> x < bp + n - 4)" for x
    using that n by (intro ta(3)) auto
  have sb: "same_bounds s s3" by (simp add: s3_def s2_def same_bounds_def)
  have fl: "freelists s3 = freelists s" by (simp add: s3_def s2_def)
  show ?thesis using p1 f p2 blk sb fl fr by blast
qed

lemma heap_inv_split:
  assumes "heap_inv s bs" and "(bp, sz, al) \<in> set (bpl (mem_start s + 16) bs)"
  obtains pre post where "bs = pre @ [(sz, al)] @ post" "bp = mem_start s + 16 + total pre"
  using bpl_split[OF assms(2)] by auto

lemma free_spec:
  assumes I: "heap_inv s (pre @ [(sz, True)] @ post)" and bp: "ptr = mem_start s + 16 + total pre"
  shows "\<exists>s'. free s ptr = Some s' \<and> heap_inv s' (coalesced pre sz post) \<and> same_bounds s s'
           \<and> (\<forall>x. x \<notin> free_region (mem_start s + 16) (pre @ [(sz, False)] @ post)
                  \<longrightarrow> mem s' x = mem s x)"
proof -
  let ?a = "mem_start s + 16"
  let ?bs = "pre @ (sz, True) # post"
  let ?bs' = "pre @ (sz, False) # post"
  from I have H: "heap_at s (pre @ [(sz, True)] @ post) (free_set ?a ?bs)"
    and naf: "no_adjacent_free ?bs"
    by (simp_all add: heap_inv_def)
  then have L: "layout s ?bs" by (simp add: heap_at_def)
  note ld = layoutD[OF L]
  have t: "(ptr, sz, True) \<in> set (bpl ?a ?bs)" unfolding bp by (rule bpl_mid)
  note lb = layout_block[OF L t]
  have p0: "0 < ptr" using lb ld by simp
  have rsz: "GET_SIZE s (HDRP ptr) = Some (word_of_int sz)" by (rule layout_reads(1)[OF L t])
  define csz where "csz = (ucast (word_of_int sz :: 32 word) :: 64 word)"
  have c: "uint csz = sz" unfolding csz_def using lb by (intro uint_size64) simp_all
  have rg: "in_heap_range s (ptr - 4) 4" "in_heap_range s (ptr + sz - 8) 4"
    using lb by (simp_all add: in_heap_range_def)
  from put_tags[OF rg c, of False] lb obtain s2 s3 where
    p: "PUT s (HDRP ptr) (PACK csz 0) = Some s2" "FTRP s2 ptr = Some (ptr + sz - 8)"
       "PUT s2 (ptr + sz - 8) (PACK csz 0) = Some s3"
       "blocks (mem s3) ptr [(sz, False)]" "same_bounds s s3" "freelists s3 = freelists s"
       "\<forall>x. \<not> (ptr - 4 \<le> x \<and> x < ptr) \<and> \<not> (ptr + sz - 8 \<le> x \<and> x < ptr + sz - 4)
                  \<longrightarrow> mem s3 x = mem s x"
    by auto
  have ms3: "mem_start s3 = mem_start s" using p(5) by (simp add: same_bounds_def)
  have fs: "free_set ?a ?bs = FLout ?a pre [(sz, False)] post"
    by (simp add: FLout_def free_set_append free_set_Cons add.assoc)
  have H3: "heap_at s3 (pre @ [(sz, False)] @ post) (free_set ?a ?bs)"
  proof (rule heap_at_replace[OF H _ _ _ _ p(5,6)])
    show "free_set ?a ?bs \<inter> free_set (?a + total pre) [(sz, True)] = {}"
      by (simp add: free_set_Cons)
    show "total [(sz, False)] = total [(sz, True)]" by simp
    show "blocks (mem s3) (?a + total pre) [(sz, False)]" using p(4) bp by simp
    fix x assume "x < ?a + total pre - 4 \<or> ?a + total pre + total [(sz, True)] - 4 \<le> x"
    then have "\<not> (ptr - 4 \<le> x \<and> x < ptr) \<and> \<not> (ptr + sz - 8 \<le> x \<and> x < ptr + sz - 4)"
      using bp lb(3) by auto
    then show "mem s3 x = mem s x" using p(7) by blast
  qed
  then have H3': "heap_at s3 (pre @ [(sz, False)] @ post)
                    (FLout (mem_start s3 + 16) pre [(sz, False)] post)"
    by (simp add: fs ms3)
  have bp3: "ptr = mem_start s3 + 16 + total pre" using bp ms3 by simp
  from coalesce_spec[OF H3' bp3] obtain s4 where
    r: "coalesce s3 ptr = Some (ptr - prev_size pre, s4)"
       "heap_at s4 (coalesced pre sz post) (free_set (mem_start s3 + 16) (coalesced pre sz post))"
       "same_bounds s3 s4"
       "\<forall>x. x \<notin> free_region (mem_start s3 + 16) (pre @ [(sz, False)] @ post)
                  \<longrightarrow> mem s4 x = mem s3 x"
    by blast
  have run: "free s ptr = Some s4"
    using p0 by (simp add: free_def rsz Let_def csz_def[symmetric] p(1,2,3) r(1))
  have sb: "same_bounds s s4" using p(5) r(3) by (rule same_bounds_trans)
  have ms4: "mem_start s4 = mem_start s" using sb by (simp add: same_bounds_def)
  have naf': "no_adjacent_free (coalesced pre sz post)"
    using naf by (intro naf_coalesced) (auto simp: naf_append dest: naf_tl)
  have inv: "heap_inv s4 (coalesced pre sz post)"
    using r(2) naf' by (simp add: heap_inv_def ms3 ms4)
  have t': "(ptr, sz, False) \<in> set (bpl ?a ?bs')" unfolding bp by (rule bpl_mid)
  have fr: "mem s4 x = mem s x" if x: "x \<notin> free_region ?a (pre @ [(sz, False)] @ post)" for x
  proof -
    have x': "x \<notin> free_region ?a ?bs'" using x by simp
    from not_free_region[OF x' t']
    have "\<not> (ptr - 4 \<le> x \<and> x < ptr) \<and> \<not> (ptr + sz - 8 \<le> x \<and> x < ptr + sz - 4)"
      using lb(3) by auto
    then have "mem s3 x = mem s x" using p(7) by blast
    moreover have "mem s4 x = mem s3 x" using r(4) x by (simp add: ms3)
    ultimately show ?thesis by simp
  qed
  show ?thesis using run inv sb fr by blast
qed

lemma free_region_mono: "free_set a bs \<subseteq> free_set a bs' \<Longrightarrow> free_region a bs \<subseteq> free_region a bs'"
  unfolding free_region_def by blast

lemma free_region_link:
  assumes "blocks m a bs" "(q, z) \<in> free_set a bs" "q \<le> x" "x < q + 8"
  shows "x \<in> free_region a bs"
proof -
  from assms(2) have "(q, z, False) \<in> set (bpl a bs)" by (rule free_setD)
  from bpl_bounds[OF assms(1) this] have "16 \<le> z" by simp
  then show ?thesis using assms by (intro free_regionI[of q z]) auto
qed

lemma naf_free_hd: "no_adjacent_free ((z, False) # post) \<Longrightarrow> post = [] \<or> snd (hd post)"
  by (cases post) auto

lemma heap_inv_remove:
  assumes I: "heap_inv s (pre @ [(csz, False)] @ post)" and bp: "bp = mem_start s + 16 + total pre"
  shows "\<exists>s1. freelist_remove s bp = Some s1
           \<and> heap_at s1 (pre @ [(csz, False)] @ post) (FLout (mem_start s + 16) pre [(csz, False)] post)
           \<and> same_bounds s s1
           \<and> (\<forall>x. x \<notin> free_region (mem_start s + 16) (pre @ [(csz, False)] @ post)
                  \<longrightarrow> mem s1 x = mem s x)"
proof -
  let ?a = "mem_start s + 16"
  let ?bs = "pre @ [(csz, False)] @ post"
  from I have H: "heap_at s ?bs (free_set ?a ?bs)" by (simp add: heap_inv_def)
  then have L: "layout s ?bs" and lo: "lists_ok s (free_set ?a ?bs)" by (simp_all add: heap_at_def)
  have b: "blocks (mem s) ?a ?bs" by (rule layout_blocks[OF L])
  have t: "(bp, csz, False) \<in> set (bpl ?a ?bs)" unfolding bp using bpl_mid[of ?a pre csz False post] by simp
  then have m: "(bp, csz) \<in> free_set ?a ?bs" by (simp add: free_set_def)
  from freelist_remove_spec[OF L subset_refl lo m] obtain s1 where
    r: "freelist_remove s bp = Some s1" "layout s1 ?bs"
       "lists_ok s1 (free_set ?a ?bs - {(bp, csz)})" "same_bounds s s1"
       "\<forall>x. (\<forall>q z. (q, z) \<in> free_set ?a ?bs \<longrightarrow> x < q \<or> q + 8 \<le> x) \<longrightarrow> mem s1 x = mem s x"
    by blast
  have "(bp, csz) \<notin> FLout ?a pre [(csz, False)] post"
    using FLout_bounds[OF b, of bp csz] bp by auto
  then have fl: "free_set ?a ?bs - {(bp, csz)} = FLout ?a pre [(csz, False)] post"
    unfolding FLout_full bp by auto
  have ms: "mem_start s1 = mem_start s" using r(4) by (simp add: same_bounds_def)
  have H1: "heap_at s1 ?bs (FLout ?a pre [(csz, False)] post)"
    using r(2,3) FLout_sub[of ?a pre "[(csz, False)]" post] fl by (simp add: heap_at_def ms)
  have fr: "mem s1 x = mem s x" if "x \<notin> free_region ?a ?bs" for x
  proof -
    have "x < q \<or> q + 8 \<le> x" if "(q, z) \<in> free_set ?a ?bs" for q z
    proof -
      have "\<not> (q \<le> x \<and> x < q + 8)"
        using free_region_link[OF b that, of x] \<open>x \<notin> free_region ?a ?bs\<close> by blast
      then show ?thesis by linarith
    qed
    then show ?thesis using r(5) by blast
  qed
  show ?thesis using r(1) H1 r(4) fr by blast
qed

lemma place_spec:
  assumes I: "heap_inv s (pre @ [(csz, False)] @ post)" and bp: "bp = mem_start s + 16 + total pre"
      and n: "uint asize = n" "8 dvd n" "16 \<le> n" "n \<le> csz"
  shows "\<exists>s'. place s bp asize = Some s' \<and> heap_inv s' (pre @ placed csz n @ post)
           \<and> same_bounds s s'
           \<and> (\<forall>x. x \<notin> free_region (mem_start s + 16) (pre @ [(csz, False)] @ post)
                  \<longrightarrow> mem s' x = mem s x)"
proof -
  let ?a = "mem_start s + 16"
  let ?bs = "pre @ [(csz, False)] @ post"
  from I have H: "heap_at s ?bs (free_set ?a ?bs)" and naf: "no_adjacent_free ?bs"
    by (simp_all add: heap_inv_def)
  then have L: "layout s ?bs" by (simp add: heap_at_def)
  have t: "(bp, csz, False) \<in> set (bpl ?a ?bs)" unfolding bp using bpl_mid[of ?a pre csz False post] by simp
  note lb = layout_block[OF L t]
  note ld = layoutD[OF L]
  have rsz: "GET_SIZE s (HDRP bp) = Some (word_of_int csz)" by (rule layout_reads(1)[OF L t])
  define csize where "csize = (ucast (word_of_int csz :: 32 word) :: 64 word)"
  have c: "uint csize = csz" unfolding csize_def using lb by (intro uint_size64) simp_all
  have le: "asize \<le> csize" using n c by (simp add: word_le_def)
  have d: "uint (csize - asize) = csz - n" using le n c by (simp add: uint_sub_lem[THEN iffD1] word_le_def)
  have cmp: "csize - asize \<ge> MINSIZE \<longleftrightarrow> 16 \<le> csz - n"
    by (simp add: MINSIZE_def word_le_def d)
  from heap_inv_remove[OF I bp] obtain s1 where
    r: "freelist_remove s bp = Some s1"
       "heap_at s1 ?bs (FLout ?a pre [(csz, False)] post)" "same_bounds s s1"
       "\<forall>x. x \<notin> free_region ?a ?bs \<longrightarrow> mem s1 x = mem s x"
    by blast
  have ms1: "mem_start s1 = mem_start s" using r(3) by (simp add: same_bounds_def)
  have L1: "layout s1 ?bs" using r(2) by (simp add: heap_at_def)
  have b1: "blocks (mem s1) ?a ?bs" using layout_blocks[OF L1] by (simp add: ms1)
  have rg: "in_heap_range s (bp - 4) 4" "in_heap_range s (bp + n - 8) 4"
     "in_heap_range s (bp + n - 4) 4" "in_heap_range s (bp + csz - 8) 4"
    using lb n by (simp_all add: in_heap_range_def)
  have nafp: "no_adjacent_free pre" and nafq: "no_adjacent_free post"
    and nb: "pre = [] \<or> snd (last pre)" "post = [] \<or> snd (hd post)"
    using naf by (auto simp: naf_append dest: naf_tl naf_free_hd)
  have inreg: "x \<in> free_region ?a ?bs" if "bp - 4 \<le> x" "x < bp + csz - 4" for x
    using that t by (intro free_regionI[of bp csz]) (simp_all add: free_set_def)
  have outreg: "x < bp - 4 \<or> bp + csz - 4 \<le> x" if "x \<notin> free_region ?a ?bs" for x
  proof -
    have "\<not> (bp - 4 \<le> x \<and> x < bp + csz - 4)" using inreg[of x] that by blast
    then show ?thesis by linarith
  qed
  show ?thesis
  proof (cases "16 \<le> csz - n")
    case True
    let ?new = "[(n, True), (csz - n, False)]"
    have n32: "n < 2 ^ 32" "csz - n < 2 ^ 32" using lb n by simp_all
    from put_tags[OF rg(1,2)[unfolded same_bounds_range[OF r(3), symmetric]] n(1,2,3) n32(1), of True]
    obtain s2 s3 where
      p: "PUT s1 (HDRP bp) (PACK asize 1) = Some s2" "FTRP s2 bp = Some (bp + n - 8)"
         "PUT s2 (bp + n - 8) (PACK asize 1) = Some s3"
         "blocks (mem s3) bp [(n, True)]" "same_bounds s1 s3" "freelists s3 = freelists s1"
         "\<forall>x. \<not> (bp - 4 \<le> x \<and> x < bp) \<and> \<not> (bp + n - 8 \<le> x \<and> x < bp + n - 4)
                  \<longrightarrow> mem s3 x = mem s1 x"
      by auto
    have sb3: "same_bounds s s3" using r(3) p(5) by (rule same_bounds_trans)
    have nx: "NEXT_BLKP s3 bp = Some (bp + n)"
      by (rule NEXT_BLKP_tag[where al = True])
         (use p(4) rg(1) n n32 in \<open>simp_all add: same_bounds_range[OF sb3]\<close>)
    have rg3: "in_heap_range s3 (bp + n - 4) 4" "in_heap_range s3 (bp + n + (csz - n) - 8) 4"
      using rg(3,4) by (simp_all add: same_bounds_range[OF sb3])
    have dv: "8 dvd csz - n" using n(2) lb(4) by simp
    from put_tags[OF _ rg3(2) d dv True n32(2), of False] rg3(1)
    obtain s4 s5 where
      q: "PUT s3 (HDRP (bp + n)) (PACK (csize - asize) 0) = Some s4"
         "FTRP s4 (bp + n) = Some (bp + n + (csz - n) - 8)"
         "PUT s4 (bp + n + (csz - n) - 8) (PACK (csize - asize) 0) = Some s5"
         "blocks (mem s5) (bp + n) [(csz - n, False)]" "same_bounds s3 s5"
         "freelists s5 = freelists s3"
         "\<forall>x. \<not> (bp + n - 4 \<le> x \<and> x < bp + n)
              \<and> \<not> (bp + n + (csz - n) - 8 \<le> x \<and> x < bp + n + (csz - n) - 4)
                  \<longrightarrow> mem s5 x = mem s3 x"
      by auto
    have sb15: "same_bounds s1 s5" using p(5) q(5) by (rule same_bounds_trans)
    have sb5: "same_bounds s s5" using r(3) sb15 by (rule same_bounds_trans)
    have ms5: "mem_start s5 = mem_start s" using sb5 by (simp add: same_bounds_def)
    have t5: "tagw (mem s5) (bp - 4) = tagw (mem s3) (bp - 4)"
             "tagw (mem s5) (bp + n - 8) = tagw (mem s3) (bp + n - 8)"
      using True n by (auto intro!: tagw_cong q(7)[rule_format])
    have blk5: "blocks (mem s5) bp ?new"
      using p(4) q(4) t5 by simp
    have fr15: "mem s5 x = mem s1 x" if "x < bp - 4 \<or> bp + csz - 4 \<le> x" for x
    proof -
      have "mem s5 x = mem s3 x" using that True n by (intro q(7)[rule_format]) auto
      moreover have "mem s3 x = mem s1 x" using that True n by (intro p(7)[rule_format]) auto
      ultimately show ?thesis by simp
    qed
    have H5: "heap_at s5 (pre @ ?new @ post) (FLout ?a pre [(csz, False)] post)"
    proof (rule heap_at_replace[OF r(2) _ _ _ _ sb15])
      show "FLout ?a pre [(csz, False)] post \<inter> free_set (mem_start s1 + 16 + total pre) [(csz, False)] = {}"
        using FLout_dis[OF b1] by (simp add: ms1)
      show "total ?new = total [(csz, False)]" by simp
      show "blocks (mem s5) (mem_start s1 + 16 + total pre) ?new" using blk5 bp by (simp add: ms1)
      show "freelists s5 = freelists s1" using p(6) q(6) by simp
      fix x assume "x < mem_start s1 + 16 + total pre - 4
           \<or> mem_start s1 + 16 + total pre + total [(csz, False)] - 4 \<le> x"
      then show "mem s5 x = mem s1 x" using fr15[of x] bp by (simp add: ms1)
    qed
    have fs: "FLout ?a pre [(csz, False)] post
             = FLout (mem_start s5 + 16) (pre @ [(n, True)]) [(csz - n, False)] post"
      by (simp add: FLout_def free_set_append free_set_Cons total_append ms5 add.assoc)
    have H5': "heap_at s5 ((pre @ [(n, True)]) @ [(csz - n, False)] @ post)
                 (FLout (mem_start s5 + 16) (pre @ [(n, True)]) [(csz - n, False)] post)"
      using H5 by (simp add: fs)
    have bp5: "bp + n = mem_start s5 + 16 + total (pre @ [(n, True)])"
      using bp by (simp add: total_append ms5)
    have co: "coalesced (pre @ [(n, True)]) (csz - n) post = pre @ ?new @ post"
    proof -
      have "\<not> next_free post" "\<not> prev_free (pre @ [(n, True)])"
        using nb(2) by (auto simp: next_free_def prev_free_def)
      then show ?thesis by (simp add: coalesced_def prev_size_def next_size_def)
    qed
    from coalesce_spec[OF H5' bp5] obtain s6 where
      k: "coalesce s5 (bp + n) = Some (bp + n - prev_size (pre @ [(n, True)]), s6)"
         "heap_at s6 (pre @ ?new @ post) (free_set (mem_start s5 + 16) (pre @ ?new @ post))"
         "same_bounds s5 s6"
         "\<forall>x. x \<notin> free_region (mem_start s5 + 16) ((pre @ [(n, True)]) @ [(csz - n, False)] @ post)
                  \<longrightarrow> mem s6 x = mem s5 x"
      unfolding co by blast
    have sb6: "same_bounds s s6" using sb5 k(3) by (rule same_bounds_trans)
    have ms6: "mem_start s6 = mem_start s" using sb6 by (simp add: same_bounds_def)
    have q': "FTRP s4 (bp + n) = Some (bp + csz - 8)"
      "PUT s4 (bp + csz - 8) (PACK (csize - asize) 0) = Some s5"
      using q(2,3) by simp_all
    have k': "coalesce s5 (bp + n) = Some (bp + n, s6)"
      using k(1) by (simp add: prev_size_def prev_free_def)
    have run: "place s bp asize = Some s6"
      using True cmp
      by (simp add: place_def rsz Let_def csize_def[symmetric] r(1) p(1,2,3) nx q(1) q' k')
    have naf': "no_adjacent_free (pre @ ?new @ post)"
      using nafp nafq nb by (cases post) (auto simp: naf_append)
    have inv: "heap_inv s6 (pre @ placed csz n @ post)"
      using k(2) naf' True by (simp add: heap_inv_def placed_def ms5 ms6)
    have sub: "free_region ?a ((pre @ [(n, True)]) @ [(csz - n, False)] @ post) \<subseteq> free_region ?a ?bs"
    proof
      fix x assume "x \<in> free_region ?a ((pre @ [(n, True)]) @ [(csz - n, False)] @ post)"
      then obtain q z where qz: "(q, z) \<in> free_set ?a ((pre @ [(n, True)]) @ [(csz - n, False)] @ post)"
        "q - 4 \<le> x" "x < q + z - 4" by (auto simp: free_region_def)
      from qz(1) consider "(q, z) \<in> free_set ?a pre" | "q = bp + n \<and> z = csz - n"
        | "(q, z) \<in> free_set (?a + total pre + csz) post"
        by (auto simp: free_set_append free_set_Cons total_append bp add.assoc)
      then show "x \<in> free_region ?a ?bs"
      proof cases
        case 1
        then show ?thesis using qz(2,3) by (intro free_regionI[of q z]) (simp_all add: free_set_append)
      next
        case 2
        then show ?thesis using qz(2,3) n by (intro inreg) auto
      next
        case 3
        then show ?thesis using qz(2,3)
          by (intro free_regionI[of q z]) (simp_all add: free_set_append free_set_Cons add.assoc)
      qed
    qed
    have fr: "mem s6 x = mem s x" if x: "x \<notin> free_region ?a ?bs" for x
    proof -
      have "mem s6 x = mem s5 x" using k(4) x sub by (auto simp: ms5)
      moreover have "mem s5 x = mem s1 x" using outreg[OF x] by (rule fr15)
      moreover have "mem s1 x = mem s x" using r(4) x by blast
      ultimately show ?thesis by simp
    qed
    show ?thesis using run inv sb6 fr by blast
  next
    case False
    have n32: "csz < 2 ^ 32" using lb by simp
    have rg1: "in_heap_range s1 (bp - 4) 4" "in_heap_range s1 (bp + csz - 8) 4"
      using rg by (simp_all add: same_bounds_range[OF r(3)])
    from put_tags[OF rg1 c lb(4,3) n32, of True]
    obtain s2 s3 where
      p: "PUT s1 (HDRP bp) (PACK csize 1) = Some s2" "FTRP s2 bp = Some (bp + csz - 8)"
         "PUT s2 (bp + csz - 8) (PACK csize 1) = Some s3"
         "blocks (mem s3) bp [(csz, True)]" "same_bounds s1 s3" "freelists s3 = freelists s1"
         "\<forall>x. \<not> (bp - 4 \<le> x \<and> x < bp) \<and> \<not> (bp + csz - 8 \<le> x \<and> x < bp + csz - 4)
                  \<longrightarrow> mem s3 x = mem s1 x"
      by auto
    have sb3: "same_bounds s s3" using r(3) p(5) by (rule same_bounds_trans)
    have ms3: "mem_start s3 = mem_start s" using sb3 by (simp add: same_bounds_def)
    have fr13: "mem s3 x = mem s1 x" if "x < bp - 4 \<or> bp + csz - 4 \<le> x" for x
      using that lb(3) by (intro p(7)[rule_format]) auto
    have H3: "heap_at s3 (pre @ [(csz, True)] @ post) (FLout ?a pre [(csz, False)] post)"
    proof (rule heap_at_replace[OF r(2) _ _ _ _ p(5,6)])
      show "FLout ?a pre [(csz, False)] post \<inter> free_set (mem_start s1 + 16 + total pre) [(csz, False)] = {}"
        using FLout_dis[OF b1] by (simp add: ms1)
      show "total [(csz, True)] = total [(csz, False)]" by simp
      show "blocks (mem s3) (mem_start s1 + 16 + total pre) [(csz, True)]"
        using p(4) bp by (simp add: ms1)
      fix x assume "x < mem_start s1 + 16 + total pre - 4
           \<or> mem_start s1 + 16 + total pre + total [(csz, False)] - 4 \<le> x"
      then show "mem s3 x = mem s1 x" using fr13[of x] bp by (simp add: ms1)
    qed
    have fs: "FLout ?a pre [(csz, False)] post = free_set (mem_start s3 + 16) (pre @ [(csz, True)] @ post)"
      by (simp add: FLout_def free_set_append free_set_Cons ms3 add.assoc)
    have run: "place s bp asize = Some s3"
      using False cmp
      by (simp add: place_def rsz Let_def csize_def[symmetric] r(1) p(1,2,3))
    have naf': "no_adjacent_free (pre @ [(csz, True)] @ post)"
      using nafp nafq by (cases post) (auto simp: naf_append)
    have inv: "heap_inv s3 (pre @ placed csz n @ post)"
      using H3 naf' False by (simp add: heap_inv_def placed_def fs)
    have fr: "mem s3 x = mem s x" if x: "x \<notin> free_region ?a ?bs" for x
    proof -
      have "mem s3 x = mem s1 x" using outreg[OF x] by (rule fr13)
      moreover have "mem s1 x = mem s x" using r(4) x by blast
      ultimately show ?thesis by simp
    qed
    show ?thesis using run inv sb3 fr by blast
  qed
qed

lemma extend_heap_fail:
  assumes "0 < mem_brk s" "mem_max_addr s < mem_brk s + uint (extend_size words)"
  shows "extend_heap s words = Some (0, s)"
  using assms by (simp add: extend_heap_def mem_sbrk_def Let_def)

lemma coalesced_last:
  "coalesced bs n [] = (if prev_free bs then butlast bs else bs) @ [(prev_size bs + n, False)] @ []"
  "total (if prev_free bs then butlast bs else bs) = total bs - prev_size bs"
proof -
  show "coalesced bs n [] = (if prev_free bs then butlast bs else bs) @ [(prev_size bs + n, False)] @ []"
    by (simp add: coalesced_def next_size_def next_free_def)
  show "total (if prev_free bs then butlast bs else bs) = total bs - prev_size bs"
  proof (cases "prev_free bs")
    case True
    then obtain pre' psz where "bs = pre' @ [(psz, False)]" by (auto dest: prev_free_snoc)
    then show ?thesis using True by (simp add: prev_size_def total_append)
  next
    case False
    then show ?thesis by (simp add: prev_size_def)
  qed
qed

lemma extend_heap_spec:
  assumes I: "heap_inv s bs" and n: "uint (extend_size words) = n" "8 dvd n" "16 \<le> n"
      and room: "mem_brk s + n \<le> mem_max_addr s"
  shows "\<exists>s'. extend_heap s words = Some (mem_brk s - prev_size bs, s')
           \<and> heap_inv s' (coalesced bs n [])
           \<and> mem_start s' = mem_start s \<and> mem_max_addr s' = mem_max_addr s
           \<and> heap_listp s' = heap_listp s \<and> mem_brk s' = mem_brk s + n
           \<and> (\<forall>x. x \<notin> free_region (mem_start s + 16) bs \<and> x < mem_brk s - 4
                  \<longrightarrow> mem s' x = mem s x)"
proof -
  let ?a = "mem_start s + 16"
  let ?brk = "mem_brk s"
  let ?FL = "free_set ?a bs"
  from I have H: "heap_at s bs ?FL" and naf: "no_adjacent_free bs" by (simp_all add: heap_inv_def)
  then have L: "layout s bs" and lo: "lists_ok s ?FL" by (simp_all add: heap_at_def)
  note ld = layoutD[OF L]
  have b: "blocks (mem s) ?a bs" by (rule layout_blocks[OF L])
  have n32: "n < 2 ^ 32" using room ld by simp
  define s1 where "s1 = s\<lparr>mem_brk := ?brk + n\<rparr>"
  have sbrk: "mem_sbrk s (uint (extend_size words)) = (?brk, s1)"
    using room n by (simp add: mem_sbrk_def s1_def)
  have rg: "in_heap_range s1 (?brk - 4) 4" "in_heap_range s1 (?brk + n - 8) 4"
    using ld n by (simp_all add: in_heap_range_def s1_def)
  from put_tags[OF rg n(1,2,3) n32, of False] obtain s2 s3 where
    p: "PUT s1 (HDRP ?brk) (PACK (extend_size words) 0) = Some s2"
       "FTRP s2 ?brk = Some (?brk + n - 8)"
       "PUT s2 (?brk + n - 8) (PACK (extend_size words) 0) = Some s3"
       "blocks (mem s3) ?brk [(n, False)]" "same_bounds s1 s3" "freelists s3 = freelists s1"
       "\<forall>x. \<not> (?brk - 4 \<le> x \<and> x < ?brk) \<and> \<not> (?brk + n - 8 \<le> x \<and> x < ?brk + n - 4)
                  \<longrightarrow> mem s3 x = mem s1 x"
    by auto
  have b3: "mem_start s3 = mem_start s" "mem_brk s3 = ?brk + n" "mem_max_addr s3 = mem_max_addr s"
    "heap_listp s3 = heap_listp s"
    using p(5) by (simp_all add: same_bounds_def s1_def)
  have rg3: "in_heap_range s3 (?brk - 4) 4" "in_heap_range s3 (?brk + n - 4) 4"
    using ld n by (simp_all add: in_heap_range_def b3)
  have nx: "NEXT_BLKP s3 ?brk = Some (?brk + n)"
    by (rule NEXT_BLKP_tag[where al = False]) (use p(4) rg3 n n32 in simp_all)
  define s4 where "s4 = s3\<lparr>mem := store_le (mem s3) (?brk + n - 4) 4 (uint (mk_tag 0 True))\<rparr>"
  have pk: "(ucast (PACK 0 1 :: 64 word) :: 32 word) = mk_tag 0 True"
    using PACK_tag1[of 0] by simp
  have p4: "PUT s3 (HDRP (?brk + n)) (PACK 0 1) = Some s4"
    unfolding HDRP_def WSIZE_def s4_def using PUT_spec[OF rg3(2), of "PACK 0 1"] pk by simp
  have b4: "mem_start s4 = mem_start s" "mem_brk s4 = ?brk + n" "mem_max_addr s4 = mem_max_addr s"
    "heap_listp s4 = heap_listp s" "freelists s4 = freelists s"
    using b3 p(6) by (simp_all add: s4_def s1_def)
  have fr43: "mem s4 x = mem s3 x" if "x < ?brk + n - 4" for x
    using that by (simp add: s4_def store_le_outside)
  have fr4: "mem s4 x = mem s x" if "x < ?brk - 4" for x
  proof -
    have "mem s4 x = mem s3 x" using that n by (intro fr43) simp
    moreover have "mem s3 x = mem s1 x" using that n by (intro p(7)[rule_format]) auto
    ultimately show ?thesis by (simp add: s1_def)
  qed
  have tg: "tagw (mem s4) (?brk - 4) = mk_tag n False" "tagw (mem s4) (?brk + n - 8) = mk_tag n False"
    using p(4) n by (simp_all add: tagw_cong[of _ "mem s4" "mem s3", OF fr43])
  have L4: "layout s4 (bs @ [(n, False)])"
    unfolding layout_def b4
  proof (intro conjI)
    show "0 < mem_start s" "heap_listp s = mem_start s + 8" "mem_max_addr s - mem_start s < 2 ^ 31"
      "mem_max_addr s < 2 ^ 64" "?brk + n \<le> mem_max_addr s"
      using ld room by simp_all
    show "?brk + n = mem_start s + 16 + total (bs @ [(n, False)])"
      using ld(7) by (simp add: total_append)
    show "tagw (mem s4) (mem_start s + 4) = mk_tag 8 True"
      using ld by (simp add: tagw_cong[of _ "mem s4" "mem s", OF fr4])
    show "tagw (mem s4) (mem_start s + 8) = mk_tag 8 True"
      using ld by (simp add: tagw_cong[of _ "mem s4" "mem s", OF fr4])
    show "tagw (mem s4) (?brk + n - 4) = mk_tag 0 True"
      by (simp add: s4_def tagw_store)
    have "blocks (mem s4) ?a bs"
      by (rule blocks_frame[OF b]) (use ld(7) in \<open>simp add: fr4\<close>)
    moreover have "blocks (mem s4) (?a + total bs) [(n, False)]"
      using tg n ld(7) by simp
    ultimately show "blocks (mem s4) ?a (bs @ [(n, False)])" by (simp add: blocks_append)
  qed
  have lo4: "lists_ok s4 ?FL"
  proof (rule lists_ok_frame[OF lo])
    show "freelists s4 = freelists s" "heap_listp s4 = heap_listp s" by (simp_all add: b4)
    fix q z x assume "(q, z) \<in> ?FL" "q \<le> x" "x < q + 8"
    moreover from this have "(q, z, False) \<in> set (bpl ?a bs)" by (simp add: free_set_def)
    from bpl_bounds[OF b this] have "q + z \<le> ?brk" "16 \<le> z" using ld(7) by simp_all
    ultimately show "mem s4 x = mem s x" by (intro fr4) simp
  qed
  have fs: "FLout (mem_start s4 + 16) bs [(n, False)] [] = ?FL" by (simp add: FLout_def b4)
  have H4: "heap_at s4 (bs @ [(n, False)] @ []) (FLout (mem_start s4 + 16) bs [(n, False)] [])"
    unfolding fs using L4 lo4 by (simp add: heap_at_def b4 free_set_append)
  have bp4: "?brk = mem_start s4 + 16 + total bs" using ld(7) by (simp add: b4)
  from coalesce_spec[OF H4 bp4] obtain s5 where
    k: "coalesce s4 ?brk = Some (?brk - prev_size bs, s5)"
       "heap_at s5 (coalesced bs n []) (free_set (mem_start s4 + 16) (coalesced bs n []))"
       "same_bounds s4 s5"
       "\<forall>x. x \<notin> free_region (mem_start s4 + 16) (bs @ [(n, False)] @ []) \<longrightarrow> mem s5 x = mem s4 x"
    by blast
  have b5: "mem_start s5 = mem_start s" "mem_brk s5 = ?brk + n" "mem_max_addr s5 = mem_max_addr s"
    "heap_listp s5 = heap_listp s"
    using k(3) b4 by (simp_all add: same_bounds_def)
  have brk0: "?brk \<noteq> - 1" using ld by simp
  have run: "extend_heap s words = Some (?brk - prev_size bs, s5)"
    using brk0 by (simp add: extend_heap_def Let_def sbrk p(1,2,3) nx p4 k(1))
  have inv: "heap_inv s5 (coalesced bs n [])"
    using k(2) naf by (simp add: heap_inv_def naf_coalesced b4 b5)
  have fr: "mem s5 x = mem s x" if x: "x \<notin> free_region ?a bs" "x < ?brk - 4" for x
  proof -
    have "x \<notin> free_region ?a (bs @ [(n, False)] @ [])"
    proof
      assume "x \<in> free_region ?a (bs @ [(n, False)] @ [])"
      then obtain q z where qz: "(q, z) \<in> free_set ?a (bs @ [(n, False)])"
        "q - 4 \<le> x" "x < q + z - 4" by (auto simp: free_region_def)
      from qz(1) consider "(q, z) \<in> ?FL" | "q = ?brk"
        using ld(7) by (auto simp: free_set_append free_set_Cons)
      then show False
      proof cases
        case 1
        then show ?thesis using qz(2,3) x(1) by (auto dest: free_regionI)
      next
        case 2
        then show ?thesis using qz(2) x(2) by simp
      qed
    qed
    then have "mem s5 x = mem s4 x" using k(4) by (simp add: b4)
    then show ?thesis using fr4[OF x(2)] by simp
  qed
  show ?thesis using run inv b5 fr by blast
qed

section \<open>The operations on a well-formed heap\<close>

lemma adjust_size_facts:
  "8 dvd uint (adjust_size sz)" "16 \<le> uint (adjust_size sz)"
proof -
  let ?x = "sz + 8 + 7"
  have "uint (ALIGN (sz + 8)) = uint ?x - uint ?x mod 8"
    unfolding ALIGN_def by (rule uint_and_not7)
  then have a: "8 dvd uint (ALIGN (sz + 8))" by presburger
  have m: "uint (MINSIZE) = 16" by (simp add: MINSIZE_def)
  have "adjust_size sz = ALIGN (sz + 8) \<or> adjust_size sz = MINSIZE"
    by (auto simp: adjust_size_def max_def)
  then show "8 dvd uint (adjust_size sz)" using a m by auto
  have "MINSIZE \<le> adjust_size sz" by (simp add: adjust_size_def)
  then show "16 \<le> uint (adjust_size sz)" using m by (simp add: word_le_def)
qed

lemma extend_size_chunk:
  assumes "8 dvd uint (asize :: 64 word)"
  shows "extend_size (max asize CHUNKSIZE div 4) = max asize CHUNKSIZE"
    "uint (max asize CHUNKSIZE) = max (uint asize) 256"
proof -
  let ?m = "max asize CHUNKSIZE"
  have c: "uint CHUNKSIZE = 256" by (simp add: CHUNKSIZE_def)
  show u: "uint ?m = max (uint asize) 256"
    using c by (auto simp: max_def word_le_def)
  then have d8: "8 dvd uint ?m" using assms by (auto simp: max_def)
  then obtain k where k: "uint ?m = 8 * k" by (elim dvdE)
  have d: "uint (?m div 4) = 2 * k" by (simp add: uint_div k)
  have "uint (?m div 4 mod 2) = 0" by (simp add: uint_mod d)
  then have e: "?m div 4 mod 2 = 0" by (simp add: uint_0_iff)
  have "uint (?m div 4 * 4) = (2 * k * 4) mod 2 ^ 64"
    by (simp add: uint_word_ariths d)
  also have "\<dots> = uint ?m mod 2 ^ 64" by (simp add: k)
  also have "\<dots> = uint ?m" using uint_lt2p[of ?m] by simp
  finally have "?m div 4 * 4 = ?m" by (simp add: word_uint_eq_iff)
  then show "extend_size (?m div 4) = ?m" using e by (simp add: extend_size_def)
qed

lemma fpath_chain:
  assumes L: "layout s bs" and sub: "FL \<subseteq> free_set (mem_start s + 16) bs"
  shows "fpath (mem s) p ps (heap_listp s) \<Longrightarrow> set ps \<subseteq> fst ` FL \<Longrightarrow>
         \<exists>B. bucket_chain s p B \<and> (\<forall>(q, w) \<in> set B. \<exists>z. (q, z) \<in> FL \<and> w = word_of_int z)"
proof (induction ps arbitrary: p)
  case Nil
  then have "p = heap_listp s" by simp
  then have "bucket_chain s p []" using prologue_alloc[OF L] by simp
  then show ?case by (intro exI[of _ "[]"]) simp
next
  case (Cons q qs)
  from Cons.prems(1) have p: "p = q" and r: "fpath (mem s) (load_le (mem s) q 8) qs (heap_listp s)"
    by simp_all
  from Cons.prems(2) obtain z where z: "(q, z) \<in> FL" by auto
  then have t: "(q, z, False) \<in> set (bpl (mem_start s + 16) bs)" using sub by (auto dest: free_setD)
  note lb = layout_block[OF L t]
  note ld = layoutD[OF L]
  have rg: "in_heap_range s q 8" using lb ld by (simp add: in_heap_range_def)
  from Cons.IH[OF r] Cons.prems(2) obtain B where
    B: "bucket_chain s (load_le (mem s) q 8) B"
       "\<forall>(q, w) \<in> set B. \<exists>z. (q, z) \<in> FL \<and> w = word_of_int z"
    by auto
  have "bucket_chain s p ((q, word_of_int z) # B)"
    using p B(1) layout_reads(1,2)[OF L t] SUCC_read[OF rg] by simp
  moreover have "\<forall>(q, w) \<in> set ((q, word_of_int z) # B). \<exists>z. (q, z) \<in> FL \<and> w = word_of_int z"
    using B(2) z by auto
  ultimately show ?case by blast
qed

lemma lists_ok_chain:
  assumes L: "layout s bs" and sub: "FL \<subseteq> free_set (mem_start s + 16) bs"
      and lo: "lists_ok s FL"
  shows "\<exists>B. (\<forall>i<NUMLIST. bucket_chain s (freelists s i) (B i))
           \<and> (\<forall>i<NUMLIST. \<forall>(q, w) \<in> set (B i). \<exists>z. (q, z) \<in> FL \<and> w = word_of_int z)"
proof -
  have "\<forall>i. \<exists>C. i < NUMLIST \<longrightarrow> bucket_chain s (freelists s i) C
           \<and> (\<forall>(q, w) \<in> set C. \<exists>z. (q, z) \<in> FL \<and> w = word_of_int z)"
  proof (intro allI)
    fix i
    show "\<exists>C. i < NUMLIST \<longrightarrow> bucket_chain s (freelists s i) C
           \<and> (\<forall>(q, w) \<in> set C. \<exists>z. (q, z) \<in> FL \<and> w = word_of_int z)"
    proof (cases "i < NUMLIST")
      case True
      with lo obtain ps where ps: "fpath (mem s) (freelists s i) ps (heap_listp s)"
        "set ps = {bp. \<exists>sz. (bp, sz) \<in> FL \<and> bucket_of sz = i}"
        by (auto simp: lists_ok_def)
      have "set ps \<subseteq> fst ` FL" unfolding ps(2) by force
      from fpath_chain[OF L sub ps(1) this] show ?thesis by blast
    next
      case False
      then show ?thesis by simp
    qed
  qed
  then have "\<exists>B. \<forall>i. i < NUMLIST \<longrightarrow> bucket_chain s (freelists s i) (B i)
           \<and> (\<forall>(q, w) \<in> set (B i). \<exists>z. (q, z) \<in> FL \<and> w = word_of_int z)"
    by (rule choice)
  then obtain B where "\<forall>i. i < NUMLIST \<longrightarrow> bucket_chain s (freelists s i) (B i)
           \<and> (\<forall>(q, w) \<in> set (B i). \<exists>z. (q, z) \<in> FL \<and> w = word_of_int z)"
    by blast
  then show ?thesis by (intro exI[of _ B]) blast
qed

lemma first_fit_cases:
  "first_fit r xs = 0 \<or> (\<exists>w. (first_fit r xs, w) \<in> set xs \<and> r \<le> ucast w)"
proof (cases "find (\<lambda>(bp, sz). r \<le> ucast sz) xs")
  case None
  then show ?thesis by (simp add: first_fit_def)
next
  case (Some a)
  obtain bp w where a: "a = (bp, w)" by (cases a)
  from Some have "a \<in> set xs \<and> (\<lambda>(bp, sz). r \<le> ucast sz) a"
    by (auto simp: find_Some_iff intro: nth_mem)
  then show ?thesis using Some a by (auto simp: first_fit_def)
qed

lemma find_fit_inv:
  assumes I: "heap_inv s bs"
  shows "\<exists>r. find_fit s asize = Some r
           \<and> (r = 0 \<or> (\<exists>z. (r, z) \<in> free_set (mem_start s + 16) bs \<and> uint asize \<le> z))"
proof -
  let ?FL = "free_set (mem_start s + 16) bs"
  from I have L: "layout s bs" and lo: "lists_ok s ?FL" by (simp_all add: heap_inv_def heap_at_def)
  from lists_ok_chain[OF L subset_refl lo] obtain B where
    B: "\<forall>i<NUMLIST. bucket_chain s (freelists s i) (B i)"
       "\<forall>i<NUMLIST. \<forall>(q, w) \<in> set (B i). \<exists>z. (q, z) \<in> ?FL \<and> w = word_of_int z"
    by blast
  let ?xs = "concat (map B [start_bucket asize..<NUMLIST])"
  have ff: "find_fit s asize = Some (first_fit asize ?xs)"
    using find_fit_chain[OF B(1), of asize] by (simp add: fit_search_def)
  from first_fit_cases[of asize ?xs] show ?thesis
  proof
    assume "first_fit asize ?xs = 0"
    then show ?thesis using ff by simp
  next
    assume "\<exists>w. (first_fit asize ?xs, w) \<in> set ?xs \<and> asize \<le> ucast w"
    then obtain w i where w: "(first_fit asize ?xs, w) \<in> set (B i)" "i < NUMLIST" "asize \<le> ucast w"
      by auto
    with B(2) obtain z where z: "(first_fit asize ?xs, z) \<in> ?FL" "w = word_of_int z" by blast
    then have t: "(first_fit asize ?xs, z, False) \<in> set (bpl (mem_start s + 16) bs)"
      by (auto dest: free_setD)
    note lb = layout_block[OF L t]
    have "uint (ucast w :: 64 word) = z" unfolding z(2) using lb by (intro uint_size64) simp_all
    then have "uint asize \<le> z" using w(3) by (simp add: word_le_def)
    then show ?thesis using ff z(1) by blast
  qed
qed

lemma alloc_set_placed:
  assumes "8 dvd n" "8 dvd csz" "n \<le> csz"
  shows "\<exists>z. alloc_set b (placed csz n) = {(b, z)} \<and> (z = n \<or> z = n + 8) \<and> z \<le> csz"
proof (cases "16 \<le> csz - n")
  case True
  then show ?thesis using assms by (simp add: placed_def alloc_set_Cons)
next
  case False
  from assms(1,2) have "8 dvd csz - n" by simp
  then obtain k where "csz - n = 8 * k" by (elim dvdE)
  then have "csz = n \<or> csz = n + 8" using False assms(3) by presburger
  then show ?thesis using False by (auto simp: placed_def alloc_set_Cons)
qed

lemma alloc_setD: "(bp, sz) \<in> alloc_set a bs \<Longrightarrow> (bp, sz, True) \<in> set (bpl a bs)"
  by (simp add: alloc_set_def)

lemma place_alloc:
  assumes I: "heap_inv s (pre @ [(csz, False)] @ post)" and bp: "bp = mem_start s + 16 + total pre"
      and n: "uint asize = n" "8 dvd n" "16 \<le> n" "n \<le> csz"
  shows "\<exists>s' bs' z. place s bp asize = Some s' \<and> heap_inv s' bs' \<and> same_bounds s s'
           \<and> (\<forall>x. x \<notin> free_region (mem_start s + 16) (pre @ [(csz, False)] @ post)
                  \<longrightarrow> mem s' x = mem s x)
           \<and> (z = n \<or> z = n + 8) \<and> z \<le> csz
           \<and> alloc_set (mem_start s + 16) bs'
              = insert (bp, z) (alloc_set (mem_start s + 16) (pre @ [(csz, False)] @ post))
           \<and> bp \<notin> fst ` alloc_set (mem_start s + 16) (pre @ [(csz, False)] @ post)"
proof -
  let ?a = "mem_start s + 16"
  let ?bs = "pre @ [(csz, False)] @ post"
  from I have L: "layout s ?bs" by (simp add: heap_inv_def heap_at_def)
  have b: "blocks (mem s) ?a ?bs" by (rule layout_blocks[OF L])
  have t: "(bp, csz, False) \<in> set (bpl ?a ?bs)"
    unfolding bp using bpl_mid[of ?a pre csz False post] by simp
  note lb = layout_block[OF L t]
  from place_spec[OF I bp n] obtain s' where
    p: "place s bp asize = Some s'" "heap_inv s' (pre @ placed csz n @ post)" "same_bounds s s'"
       "\<forall>x. x \<notin> free_region ?a ?bs \<longrightarrow> mem s' x = mem s x"
    by blast
  from alloc_set_placed[OF n(2) lb(4) n(4), of bp] obtain z where
    z: "alloc_set bp (placed csz n) = {(bp, z)}" "z = n \<or> z = n + 8" "z \<le> csz" by blast
  have tp: "total (placed csz n) = csz" by (simp add: placed_def)
  have al: "alloc_set ?a (pre @ placed csz n @ post) = insert (bp, z) (alloc_set ?a ?bs)"
    using z(1) by (simp add: alloc_set_append alloc_set_Cons tp bp add.assoc)
  have nin: "bp \<notin> fst ` alloc_set ?a ?bs"
  proof
    assume "bp \<in> fst ` alloc_set ?a ?bs"
    then obtain z' where "(bp, z', True) \<in> set (bpl ?a ?bs)" by (auto dest: alloc_setD)
    from bpl_unique[OF b t this] show False by simp
  qed
  show ?thesis using p z(2,3) al nin by blast
qed

lemma malloc_spec:
  assumes I: "heap_inv s bs" and n: "n = uint (adjust_size sz)"
  shows "\<exists>r s'. malloc s sz = Some (r, s')
           \<and> (r = 0 \<longrightarrow> s' = s \<and> mem_max_addr s < mem_brk s + max n 256)
           \<and> (r \<noteq> 0 \<longrightarrow> (\<exists>bs' z. heap_inv s' bs'
                \<and> alloc_set (mem_start s + 16) bs' = insert (r, z) (alloc_set (mem_start s + 16) bs)
                \<and> r \<notin> fst ` alloc_set (mem_start s + 16) bs
                \<and> (z = n \<or> z = n + 8)
                \<and> mem_start s' = mem_start s \<and> mem_max_addr s' = mem_max_addr s
                \<and> heap_listp s' = heap_listp s \<and> mem_brk s \<le> mem_brk s'
                \<and> (\<forall>x. x \<notin> free_region (mem_start s + 16) bs \<and> x < mem_brk s - 4
                       \<longrightarrow> mem s' x = mem s x)
                \<and> (\<forall>x. r - 4 \<le> x \<and> x < r + z - 4
                       \<longrightarrow> x \<in> free_region (mem_start s + 16) bs \<or> mem_brk s - 4 \<le> x)))"
proof -
  let ?a = "mem_start s + 16"
  let ?asize = "adjust_size sz"
  from I have L: "layout s bs" by (simp add: heap_inv_def heap_at_def)
  note ld = layoutD[OF L]
  have b: "blocks (mem s) ?a bs" by (rule layout_blocks[OF L])
  have nf: "uint ?asize = n" "8 dvd n" "16 \<le> n" using adjust_size_facts[of sz] n by simp_all
  from find_fit_inv[OF I, of ?asize] obtain r where
    r: "find_fit s ?asize = Some r" "r = 0 \<or> (\<exists>z. (r, z) \<in> free_set ?a bs \<and> n \<le> z)"
    using n by auto
  show ?thesis
  proof (cases "r = 0")
    case False
    with r(2) obtain csz where c: "(r, csz, False) \<in> set (bpl ?a bs)" "n \<le> csz"
      by (auto dest: free_setD)
    from bpl_split[OF c(1)] obtain pre post where
      s: "bs = pre @ [(csz, False)] @ post" "r = ?a + total pre" by auto
    note lb = layout_block[OF L c(1)]
    from place_alloc[OF I[unfolded s(1)] s(2) nf c(2)] obtain s' bs' z where
      p: "place s r ?asize = Some s'" "heap_inv s' bs'" "same_bounds s s'"
         "\<forall>x. x \<notin> free_region ?a bs \<longrightarrow> mem s' x = mem s x"
         "z = n \<or> z = n + 8" "z \<le> csz"
         "alloc_set ?a bs' = insert (r, z) (alloc_set ?a bs)"
         "r \<notin> fst ` alloc_set ?a bs"
      unfolding s(1)[symmetric] by blast
    have run: "malloc s sz = Some (r, s')"
      using False by (simp add: malloc_def Let_def r(1) p(1))
    have reg: "x \<in> free_region ?a bs" if "r - 4 \<le> x \<and> x < r + z - 4" for x
      using that p(6) c(1) by (intro free_regionI[of r csz]) (simp_all add: free_set_def)
    show ?thesis
      using run False p(2,3,4,5,7,8) reg unfolding same_bounds_def
      by (intro exI[of _ r] exI[of _ s']) (simp, blast)
  next
    case True
    let ?m = "max n 256"
    have es: "extend_size (max ?asize CHUNKSIZE div 4) = max ?asize CHUNKSIZE"
      "uint (max ?asize CHUNKSIZE) = ?m"
      using extend_size_chunk[of ?asize] nf by simp_all
    show ?thesis
    proof (cases "mem_brk s + ?m \<le> mem_max_addr s")
      case False
      have "extend_heap s (max ?asize CHUNKSIZE div 4) = Some (0, s)"
        using False ld es by (intro extend_heap_fail) simp_all
      then have "malloc s sz = Some (0, s)"
        using True by (simp add: malloc_def Let_def r(1))
      then show ?thesis using False by simp
    next
      case room: True
      have em: "uint (extend_size (max ?asize CHUNKSIZE div 4)) = ?m" using es by simp
      have m8: "8 dvd ?m" "16 \<le> ?m" using nf by (auto simp: max_def)
      define P where "P = (if prev_free bs then butlast bs else bs)"
      let ?bp = "mem_brk s - prev_size bs"
      from extend_heap_spec[OF I em m8 room] obtain s1 where
        e: "extend_heap s (max ?asize CHUNKSIZE div 4) = Some (?bp, s1)"
           "heap_inv s1 (coalesced bs ?m [])"
           "mem_start s1 = mem_start s" "mem_max_addr s1 = mem_max_addr s"
           "heap_listp s1 = heap_listp s" "mem_brk s1 = mem_brk s + ?m"
           "\<forall>x. x \<notin> free_region ?a bs \<and> x < mem_brk s - 4 \<longrightarrow> mem s1 x = mem s x"
        by blast
      note cl = coalesced_last(1)[of bs ?m, folded P_def] coalesced_last(2)[of bs, folded P_def]
      have I1: "heap_inv s1 (P @ [(prev_size bs + ?m, False)] @ [])" using e(2) cl(1) by simp
      have bp1: "?bp = mem_start s1 + 16 + total P" using cl(2) ld(7) by (simp add: e(3))
      have bP: "blocks (mem s) ?a P \<and> 0 \<le> prev_size bs \<and> alloc_set ?a P = alloc_set ?a bs
                \<and> (prev_free bs \<longrightarrow> (?bp, prev_size bs) \<in> free_set ?a bs)"
      proof (cases "prev_free bs")
        case True
        then obtain pre' psz where pp: "bs = pre' @ [(psz, False)]" by (auto dest: prev_free_snoc)
        then show ?thesis using True b ld(7)
          by (auto simp: P_def prev_size_def blocks_append alloc_set_append alloc_set_Cons
              free_set_append free_set_Cons total_append)
      next
        case False
        then show ?thesis using b by (simp add: P_def prev_size_def)
      qed
      have P0: "0 \<le> total P" using bP blocks_total_nonneg by blast
      have bp0: "?bp \<noteq> 0" using bp1 P0 ld(1) by (simp add: e(3))
      have ps0: "0 \<le> prev_size bs" using bP by blast
      have le: "n \<le> prev_size bs + ?m" using ps0 by (simp add: max_def)
      from place_alloc[OF I1 bp1 nf le] obtain s2 bs' z where
        p: "place s1 ?bp ?asize = Some s2" "heap_inv s2 bs'" "same_bounds s1 s2"
           "\<forall>x. x \<notin> free_region (mem_start s1 + 16) (P @ [(prev_size bs + ?m, False)] @ [])
                  \<longrightarrow> mem s2 x = mem s1 x"
           "z = n \<or> z = n + 8" "z \<le> prev_size bs + ?m"
           "alloc_set (mem_start s1 + 16) bs'
              = insert (?bp, z) (alloc_set (mem_start s1 + 16) (P @ [(prev_size bs + ?m, False)] @ []))"
        by blast
      have run: "malloc s sz = Some (?bp, s2)"
        using True bp0 by (simp add: malloc_def Let_def r(1) e(1) p(1))
      have al: "alloc_set ?a bs' = insert (?bp, z) (alloc_set ?a bs)"
        using p(7) bP by (simp add: e(3) alloc_set_append alloc_set_Cons)
      have nin: "?bp \<notin> fst ` alloc_set ?a bs"
      proof
        assume "?bp \<in> fst ` alloc_set ?a bs"
        then have "?bp \<in> fst ` alloc_set ?a P" using bP by simp
        then obtain z' where z': "(?bp, z', True) \<in> set (bpl ?a P)" by (auto dest: alloc_setD)
        have "blocks (mem s) ?a P" using bP by blast
        from bpl_bounds[OF this z'] have "?bp + z' \<le> ?a + total P" "16 \<le> z'" by simp_all
        then show False using bp1 by (simp add: e(3))
      qed
      have inreg: "x \<in> free_region ?a bs \<or> mem_brk s - 4 \<le> x" if "?bp - 4 \<le> x" for x
      proof (cases "prev_free bs")
        case True
        then have "(?bp, prev_size bs) \<in> free_set ?a bs" using bP by simp
        then show ?thesis using that
          by (cases "x < mem_brk s - 4") (auto intro: free_regionI[of ?bp "prev_size bs"])
      next
        case False
        then show ?thesis using that by (simp add: prev_size_def)
      qed
      have fr: "mem s2 x = mem s x" if x: "x \<notin> free_region ?a bs \<and> x < mem_brk s - 4" for x
      proof -
        have "x \<notin> free_region ?a (P @ [(prev_size bs + ?m, False)] @ [])"
        proof
          assume "x \<in> free_region ?a (P @ [(prev_size bs + ?m, False)] @ [])"
          then obtain q w where qw: "(q, w) \<in> free_set ?a (P @ [(prev_size bs + ?m, False)])"
            "q - 4 \<le> x" "x < q + w - 4" by (auto simp: free_region_def)
          from qw(1) consider "(q, w) \<in> free_set ?a P" | "q = ?bp"
            using bp1 by (auto simp: free_set_append free_set_Cons e(3))
          then show False
          proof cases
            case 1
            then have "(q, w) \<in> free_set ?a bs" unfolding P_def
              by (cases "prev_free bs") (auto dest!: prev_free_snoc simp: free_set_append)
            then show ?thesis using qw(2,3) x by (auto dest: free_regionI)
          next
            case 2
            then show ?thesis using inreg[of x] qw(2) x by auto
          qed
        qed
        then have "mem s2 x = mem s1 x" using p(4) by (simp add: e(3))
        then show ?thesis using e(7) x by simp
      qed
      have reg: "x \<in> free_region ?a bs \<or> mem_brk s - 4 \<le> x" if "?bp - 4 \<le> x \<and> x < ?bp + z - 4" for x
        using that by (intro inreg) simp
      have bnd: "mem_start s2 = mem_start s" "mem_max_addr s2 = mem_max_addr s"
        "heap_listp s2 = heap_listp s" "mem_brk s \<le> mem_brk s2"
        using p(3) e(3,4,5,6) by (simp_all add: same_bounds_def)
      show ?thesis
        using run bp0 p(2,5) al nin bnd fr reg
        by (intro exI[of _ ?bp] exI[of _ s2]) (simp, blast)
    qed
  qed
qed

lemma extend_size_init: "extend_size (CHUNKSIZE div 4) = CHUNKSIZE" "uint CHUNKSIZE = 256"
proof -
  have "max 0 CHUNKSIZE = CHUNKSIZE" by (simp add: max_def)
  then show "extend_size (CHUNKSIZE div 4) = CHUNKSIZE"
    using extend_size_chunk(1)[of 0] by simp
  show "uint CHUNKSIZE = 256" by (simp add: CHUNKSIZE_def)
qed

lemma mm_init_no_room:
  assumes P: "provider_ok s0" and small: "mem_max_addr s0 < mem_start s0 + 16"
  shows "\<exists>s. mm_init s0 = Some (- 1, s)"
  using assms by (simp add: mm_init_def mem_sbrk_def provider_ok_def WSIZE_def)

lemma mm_init_run:
  assumes P: "provider_ok s0" and room: "mem_start s0 + 16 \<le> mem_max_addr s0"
  shows "\<exists>s7. mm_init s0 = do { (r, s8) \<leftarrow> extend_heap s7 (CHUNKSIZE div 4);
                                 if r = 0 then Some (- 1, s8) else Some (0, s8) }
           \<and> heap_inv s7 [] \<and> mem_start s7 = mem_start s0 \<and> mem_brk s7 = mem_start s0 + 16
           \<and> mem_max_addr s7 = mem_max_addr s0"
proof -
  let ?st = "mem_start s0"
  from P have p: "0 < ?st" "mem_brk s0 = ?st" "mem_max_addr s0 - ?st < 2 ^ 31"
    "mem_max_addr s0 < 2 ^ 64" by (simp_all add: provider_ok_def)
  have sb: "mem_sbrk s0 16 = (?st, s0\<lparr>mem_brk := ?st + 16\<rparr>)"
    using room p by (simp add: mem_sbrk_def)
  have pk: "(ucast (PACK 8 1 :: 64 word) :: 32 word) = mk_tag 8 True"
    "(ucast (PACK 0 1 :: 64 word) :: 32 word) = mk_tag 0 True"
    using PACK_tag1[of 8] PACK_tag1[of 0] by simp_all
  define m where "m = store_le (store_le (store_le (store_le (mem s0) ?st 4 0)
      (?st + 4) 4 (uint (mk_tag 8 True))) (?st + 8) 4 (uint (mk_tag 8 True)))
      (?st + 12) 4 (uint (mk_tag 0 True))"
  define s7 where "s7 = s0\<lparr>mem_brk := ?st + 16, mem := m, heap_listp := ?st + 8,
      freelists := (\<lambda>i. if i < NUMLIST then ?st + 8 else freelists s0 i)\<rparr>"
  have run: "mm_init s0 = do { (r, s8) \<leftarrow> extend_heap s7 (CHUNKSIZE div 4);
                                if r = 0 then Some (- 1, s8) else Some (0, s8) }"
    using p(1) unfolding mm_init_def
    by (simp add: Let_def sb PUT_def in_heap_range_def WSIZE_def pk s7_def m_def cong: if_cong)
  have t1: "tagw m (?st + 4) = mk_tag 8 True"
    unfolding m_def by (simp add: tagw_store_disj tagw_store)
  have t2: "tagw m (?st + 8) = mk_tag 8 True"
    unfolding m_def by (simp add: tagw_store_disj tagw_store)
  have t3: "tagw m (?st + 12) = mk_tag 0 True"
    unfolding m_def by (simp add: tagw_store)
  have L: "layout s7 []"
    using p room t1 t2 t3 by (simp add: layout_def s7_def add.commute)
  have lo: "lists_ok s7 {}"
    unfolding lists_ok_def
  proof (intro allI impI)
    fix i assume "i < NUMLIST"
    then have "fpath (mem s7) (freelists s7 i) [] (heap_listp s7)" by (simp add: s7_def)
    then show "\<exists>ps. fpath (mem s7) (freelists s7 i) ps (heap_listp s7) \<and> distinct ps
        \<and> set ps = {bp. \<exists>sz. (bp, sz) \<in> {} \<and> bucket_of sz = i}"
      by (intro exI[of _ "[]"]) simp
  qed
  have I7: "heap_inv s7 []" using L lo by (simp add: heap_inv_def heap_at_def)
  have b7: "mem_brk s7 = ?st + 16" "mem_max_addr s7 = mem_max_addr s0" "mem_start s7 = ?st"
    by (simp_all add: s7_def)
  show ?thesis using run I7 b7 by blast
qed

lemma mm_init_fail:
  assumes P: "provider_ok s0" and small: "mem_max_addr s0 < mem_start s0 + 272"
  shows "\<exists>s. mm_init s0 = Some (- 1, s)"
proof (cases "mem_start s0 + 16 \<le> mem_max_addr s0")
  case False
  then show ?thesis using P by (intro mm_init_no_room) simp_all
next
  case True
  from mm_init_run[OF P True] obtain s7 where
    s7: "mm_init s0 = do { (r, s8) \<leftarrow> extend_heap s7 (CHUNKSIZE div 4);
                                if r = 0 then Some (- 1, s8) else Some (0, s8) }"
     "mem_brk s7 = mem_start s0 + 16" "mem_max_addr s7 = mem_max_addr s0" by blast
  from P have p: "0 < mem_start s0" by (simp add: provider_ok_def)
  have "extend_heap s7 (CHUNKSIZE div 4) = Some (0, s7)"
    using s7(2,3) p small by (intro extend_heap_fail) (simp_all add: extend_size_init)
  then show ?thesis using s7(1) by simp
qed

lemma mm_init_spec:
  assumes P: "provider_ok s0" and room: "mem_start s0 + 272 \<le> mem_max_addr s0"
  shows "\<exists>s. mm_init s0 = Some (0, s) \<and> heap_inv s [(256, False)]
           \<and> mem_start s = mem_start s0 \<and> mem_max_addr s = mem_max_addr s0"
proof -
  from room have "mem_start s0 + 16 \<le> mem_max_addr s0" by simp
  from mm_init_run[OF P this] obtain s7 where
    run: "mm_init s0 = do { (r, s8) \<leftarrow> extend_heap s7 (CHUNKSIZE div 4);
                                if r = 0 then Some (- 1, s8) else Some (0, s8) }"
    and I7: "heap_inv s7 []"
    and b7: "mem_start s7 = mem_start s0" "mem_brk s7 = mem_start s0 + 16"
       "mem_max_addr s7 = mem_max_addr s0" by blast
  from P have p: "0 < mem_start s0" by (simp add: provider_ok_def)
  have em: "uint (extend_size (CHUNKSIZE div 4)) = 256" by (simp add: extend_size_init)
  have room7: "mem_brk s7 + 256 \<le> mem_max_addr s7" using room by (simp add: b7)
  from extend_heap_spec[OF I7 em _ _ room7] obtain s8 where
    e: "extend_heap s7 (CHUNKSIZE div 4) = Some (mem_brk s7 - prev_size [], s8)"
       "heap_inv s8 (coalesced [] 256 [])"
       "mem_start s8 = mem_start s7" "mem_max_addr s8 = mem_max_addr s7"
    by auto
  have c: "coalesced [] 256 [] = [(256, False)]"
    by (simp add: coalesced_def prev_free_def next_free_def prev_size_def next_size_def)
  have r0: "mem_brk s7 - prev_size [] \<noteq> 0" using p by (simp add: b7 prev_size_def prev_free_def)
  have "mm_init s0 = Some (0, s8)" using run e(1) r0 by simp
  then show ?thesis using e(2,3,4) c by (simp add: b7)
qed

lemma alloc_not_free_region:
  assumes b: "blocks m a bs" and t: "(q, z) \<in> alloc_set a bs"
      and x: "q - 4 \<le> x" "x < q + z - 4"
  shows "x \<notin> free_region a bs"
proof
  assume "x \<in> free_region a bs"
  then obtain q' z' where f: "(q', z', False) \<in> set (bpl a bs)" "q' - 4 \<le> x" "x < q' + z' - 4"
    by (auto simp: free_region_def free_set_def)
  from t have t': "(q, z, True) \<in> set (bpl a bs)" by (rule alloc_setD)
  from bpl_disjoint[OF b t' f(1)] x f(2,3) show False by auto
qed

lemma heap_inv_payload_write:
  assumes I: "heap_inv s bs" and t: "(q, z) \<in> alloc_set (mem_start s + 16) bs"
      and fr: "\<And>x. x < q \<or> q + z - 8 \<le> x \<Longrightarrow> mem s' x = mem s x"
      and sb: "same_bounds s s'" and fl: "freelists s' = freelists s"
  shows "heap_inv s' bs"
proof -
  let ?a = "mem_start s + 16"
  from I have L: "layout s bs" and lo: "lists_ok s (free_set ?a bs)" and naf: "no_adjacent_free bs"
    by (simp_all add: heap_inv_def heap_at_def)
  have b: "blocks (mem s) ?a bs" by (rule layout_blocks[OF L])
  from t have t': "(q, z, True) \<in> set (bpl ?a bs)" by (rule alloc_setD)
  have L': "layout s' bs" by (rule layout_payload_write[OF L t' fr sb])
  have ms: "mem_start s' = mem_start s" "heap_listp s' = heap_listp s"
    using sb by (simp_all add: same_bounds_def)
  have lo': "lists_ok s' (free_set ?a bs)"
  proof (rule lists_ok_frame[OF lo _ fl ms(2)])
    fix q' z' x assume f: "(q', z') \<in> free_set ?a bs" "q' \<le> x" "x < q' + 8"
    then have f': "(q', z', False) \<in> set (bpl ?a bs)" by (simp add: free_set_def)
    from bpl_bounds[OF b f'] have "16 \<le> z'" by simp
    with bpl_disjoint[OF b t' f'] f(2,3) show "mem s' x = mem s x" by (intro fr) auto
  qed
  show ?thesis using L' lo' naf by (simp add: heap_inv_def heap_at_def ms)
qed

lemma store_le_zero: "a \<le> x \<Longrightarrow> x < a + int n \<Longrightarrow> store_le m a n 0 x = 0"
proof (induction n arbitrary: m a)
  case 0
  then show ?case by simp
next
  case (Suc n)
  show ?case
  proof (cases "x = a")
    case True
    then show ?thesis by (simp add: store_le_outside)
  next
    case False
    then show ?thesis using Suc.prems Suc.IH[of "a + 1"] by simp
  qed
qed

lemma zero_loop_spec:
  assumes "i \<le> n" "4 dvd n - i" "mem_start s \<le> bp + i" "bp + n \<le> mem_brk s"
  shows "\<exists>s'. zero_loop s bp i n = Some s' \<and> same_bounds s s' \<and> freelists s' = freelists s
           \<and> (\<forall>x. x < bp + i \<or> bp + n \<le> x \<longrightarrow> mem s' x = mem s x)
           \<and> (\<forall>x. bp + i \<le> x \<and> x < bp + n \<longrightarrow> mem s' x = 0)"
  using assms
proof (induction "nat (n - i)" arbitrary: s i rule: less_induct)
  case less
  show ?case
  proof (cases "i < n")
    case False
    then have "zero_loop s bp i n = Some s" by (subst zero_loop.simps) simp
    then show ?thesis using False less.prems by (auto simp: same_bounds_def)
  next
    case True
    from less.prems(2) obtain k where k: "n - i = 4 * k" by (elim dvdE)
    with True have k1: "1 \<le> k" by simp
    then have i4: "i + 4 \<le> n" using k by simp
    define s1 where "s1 = s\<lparr>mem := store_le (mem s) (bp + i) 4 0\<rparr>"
    have rg: "in_heap_range s (bp + i) 4" using less.prems i4 by (simp add: in_heap_range_def)
    have p: "PUT s (bp + i) 0 = Some s1" using PUT_spec[OF rg, of 0] by (simp add: s1_def)
    have d: "4 dvd n - (i + 4)" using k by (simp add: dvd_def) (rule exI[of _ "k - 1"], simp)
    have "\<exists>s'. zero_loop s1 bp (i + 4) n = Some s' \<and> same_bounds s1 s' \<and> freelists s' = freelists s1
           \<and> (\<forall>x. x < bp + (i + 4) \<or> bp + n \<le> x \<longrightarrow> mem s' x = mem s1 x)
           \<and> (\<forall>x. bp + (i + 4) \<le> x \<and> x < bp + n \<longrightarrow> mem s' x = 0)"
      by (rule less.hyps) (use True i4 d less.prems in \<open>simp_all add: s1_def\<close>)
    then obtain s' where
      r: "zero_loop s1 bp (i + 4) n = Some s'" "same_bounds s1 s'" "freelists s' = freelists s1"
         "\<forall>x. x < bp + (i + 4) \<or> bp + n \<le> x \<longrightarrow> mem s' x = mem s1 x"
         "\<forall>x. bp + (i + 4) \<le> x \<and> x < bp + n \<longrightarrow> mem s' x = 0"
      by blast
    have run: "zero_loop s bp i n = Some s'"
      using True by (subst zero_loop.simps) (simp add: p r(1) WSIZE_def)
    have sb: "same_bounds s s'" using r(2) by (simp add: same_bounds_def s1_def)
    have fl: "freelists s' = freelists s" using r(3) by (simp add: s1_def)
    have fr: "mem s' x = mem s x" if "x < bp + i \<or> bp + n \<le> x" for x
    proof -
      have "mem s' x = mem s1 x" using that r(4) by auto
      moreover have "store_le (mem s) (bp + i) 4 0 x = mem s x"
        using that i4 by (intro store_le_outside) auto
      ultimately show ?thesis by (simp add: s1_def)
    qed
    have z: "mem s' x = 0" if "bp + i \<le> x \<and> x < bp + n" for x
    proof (cases "x < bp + (i + 4)")
      case True
      then have "mem s' x = mem s1 x" using r(4) by blast
      then show ?thesis using that True by (simp add: s1_def store_le_zero)
    next
      case False
      then show ?thesis using that r(5) by auto
    qed
    show ?thesis using run sb fl fr z by blast
  qed
qed

lemma sint_small: "uint (w :: 32 word) < 2 ^ 31 \<Longrightarrow> sint w = uint w"
proof -
  assume a: "uint w < 2 ^ 31"
  have "sint w = signed_take_bit 31 (uint w)" by (simp add: sint_uint)
  also have "\<dots> = uint w"
  proof (rule signed_take_bit_int_eq_self)
    have "- (2 ^ 31) \<le> (0 :: int)" by simp
    also have "0 \<le> uint w" by simp
    finally show "- (2 ^ 31) \<le> uint w" .
    show "uint w < 2 ^ 31" by (rule a)
  qed
  finally show ?thesis .
qed

lemma adjust_size_ge:
  assumes "uint sz \<le> 2 ^ 64 - 16"
  shows "uint sz + 8 \<le> uint (adjust_size sz)"
proof -
  have 1: "uint (sz + 8 + 7) = uint sz + 15"
    using assms uint_add_lem[of sz 15] by (simp add: add.assoc)
  have "uint (ALIGN (sz + 8)) = uint (sz + 8 + 7) - uint (sz + 8 + 7) mod 8"
    unfolding ALIGN_def by (rule uint_and_not7)
  then have "uint sz + 8 \<le> uint (ALIGN (sz + 8))" unfolding 1 by presburger
  moreover have "ALIGN (sz + 8) \<le> adjust_size sz" by (simp add: adjust_size_def)
  ultimately show ?thesis by (simp add: word_le_def)
qed

lemma alloc_set_remove:
  assumes b: "blocks m a (pre @ [(sz, True)] @ post)"
  shows "alloc_set a (coalesced pre sz post)
         = alloc_set a (pre @ [(sz, True)] @ post) - {(a + total pre, sz)}"
proof -
  have b': "blocks m a (pre @ (sz, True) # post)" using b by simp
  have "(a + total pre, sz) \<notin> alloc_set a pre \<union> alloc_set (a + total pre + sz) post"
  proof
    assume "(a + total pre, sz) \<in> alloc_set a pre \<union> alloc_set (a + total pre + sz) post"
    then have "(a + total pre, sz, True) \<in> set (bpl a pre)
               \<or> (a + total pre, sz, True) \<in> set (bpl (a + total pre + sz) post)"
      by (auto dest: alloc_setD)
    moreover have "blocks m a pre" "blocks m (a + total pre + sz) post" "16 \<le> sz"
      using b by (auto simp: blocks_append)
    ultimately show False using bpl_bounds by fastforce
  qed
  then show ?thesis
    by (auto simp: alloc_set_coalesced alloc_set_append alloc_set_Cons add.assoc)
qed

lemma realloc_spec:
  assumes I: "heap_inv s bs" and t: "(p, osz) \<in> alloc_set (mem_start s + 16) bs"
      and sz: "sz \<noteq> 0" "uint sz \<le> 2 ^ 64 - 16"
  shows "\<exists>r s'. realloc s p sz = Some (r, s')
           \<and> (r = 0 \<longrightarrow> s' = s)
           \<and> (r \<noteq> 0 \<longrightarrow> (\<exists>bs' z. heap_inv s' bs'
                \<and> alloc_set (mem_start s + 16) bs'
                   = insert (r, z) (alloc_set (mem_start s + 16) bs) - {(p, osz)}
                \<and> r \<notin> fst ` alloc_set (mem_start s + 16) bs
                \<and> uint sz + 8 \<le> z
                \<and> mem_start s' = mem_start s \<and> mem_max_addr s' = mem_max_addr s
                \<and> (\<forall>i. 0 \<le> i \<and> i < min (osz - 8) (uint sz) \<longrightarrow> mem s' (r + i) = mem s (p + i))))"
proof -
  let ?a = "mem_start s + 16"
  define n where "n = uint (adjust_size sz)"
  from I have L: "layout s bs" by (simp add: heap_inv_def heap_at_def)
  have b: "blocks (mem s) ?a bs" by (rule layout_blocks[OF L])
  from t have t': "(p, osz, True) \<in> set (bpl ?a bs)" by (rule alloc_setD)
  note lb = layout_block[OF L t']
  note ld = layoutD[OF L]
  have p0: "p \<noteq> 0" using lb ld by simp
  have nge: "uint sz + 8 \<le> n" unfolding n_def by (rule adjust_size_ge[OF sz(2)])
  from malloc_spec[OF I n_def] obtain r s1 where
    m: "malloc s sz = Some (r, s1)" "r = 0 \<longrightarrow> s1 = s"
       "r \<noteq> 0 \<longrightarrow> (\<exists>bs' z. heap_inv s1 bs'
                \<and> alloc_set ?a bs' = insert (r, z) (alloc_set ?a bs)
                \<and> r \<notin> fst ` alloc_set ?a bs
                \<and> (z = n \<or> z = n + 8)
                \<and> mem_start s1 = mem_start s \<and> mem_max_addr s1 = mem_max_addr s
                \<and> heap_listp s1 = heap_listp s \<and> mem_brk s \<le> mem_brk s1
                \<and> (\<forall>x. x \<notin> free_region ?a bs \<and> x < mem_brk s - 4 \<longrightarrow> mem s1 x = mem s x)
                \<and> (\<forall>x. r - 4 \<le> x \<and> x < r + z - 4
                       \<longrightarrow> x \<in> free_region ?a bs \<or> mem_brk s - 4 \<le> x))"
    by blast
  show ?thesis
  proof (cases "r = 0")
    case True
    then have "realloc s p sz = Some (0, s)" using m(1,2) sz(1) p0 by (simp add: realloc_def)
    then show ?thesis by simp
  next
    case False
    with m(3) obtain bs1 z where
      a: "heap_inv s1 bs1" "alloc_set ?a bs1 = insert (r, z) (alloc_set ?a bs)"
         "r \<notin> fst ` alloc_set ?a bs" "z = n \<or> z = n + 8"
         "mem_start s1 = mem_start s" "mem_max_addr s1 = mem_max_addr s"
         "\<forall>x. x \<notin> free_region ?a bs \<and> x < mem_brk s - 4 \<longrightarrow> mem s1 x = mem s x"
      by blast
    from a(1) have L1: "layout s1 bs1" by (simp add: heap_inv_def heap_at_def)
    have b1: "blocks (mem s1) ?a bs1" using layout_blocks[OF L1] by (simp add: a(5))
    have tr: "(r, z) \<in> alloc_set ?a bs1" and tp: "(p, osz) \<in> alloc_set ?a bs1"
      using a(2) t by simp_all
    have tr': "(r, z, True) \<in> set (bpl (mem_start s1 + 16) bs1)"
      and tp': "(p, osz, True) \<in> set (bpl (mem_start s1 + 16) bs1)"
      using tr tp by (simp_all add: alloc_set_def a(5))
    have ne: "r \<noteq> p" using a(3) t by force
    note lr = layout_block[OF L1 tr']
    note lp = layout_block[OF L1 tp']
    note ld1 = layoutD[OF L1]
    have dj: "r + z \<le> p \<or> p + osz \<le> r"
      using bpl_disjoint[OF layout_blocks[OF L1] tr' tp'] ne by auto
    have rsz: "GET_SIZE s1 (HDRP p) = Some (word_of_int osz)" by (rule layout_reads(1)[OF L1 tp'])
    define k where "k = min osz (uint sz)"
    have uo: "uint (ucast (word_of_int osz :: 32 word) :: 64 word) = osz"
      using lp by (intro uint_size64) simp_all
    have uk: "uint (min (ucast (word_of_int osz :: 32 word)) sz) = k"
      unfolding k_def using uo by (auto simp: min_def word_le_def)
    have kz: "0 \<le> k" "k \<le> z - 8" "k \<le> osz" using nge a(4) lp by (auto simp: k_def)
    define s2 where "s2 = s1\<lparr>mem := (\<lambda>x. if r \<le> x \<and> x < r + k then mem s1 (p + (x - r))
                                else mem s1 x)\<rparr>"
    have cp: "memcpy s1 r p k = Some s2"
      unfolding memcpy_def s2_def using kz lr lp ld1 dj by (auto simp: in_heap_range_def)
    have I2: "heap_inv s2 bs1"
    proof (rule heap_inv_payload_write[OF a(1)])
      show "(r, z) \<in> alloc_set (mem_start s1 + 16) bs1" using tr by (simp add: a(5))
      show "same_bounds s1 s2" by (simp add: same_bounds_def s2_def)
      show "freelists s2 = freelists s1" by (simp add: s2_def)
      fix x assume "x < r \<or> r + z - 8 \<le> x"
      then show "mem s2 x = mem s1 x" using kz by (auto simp: s2_def)
    qed
    have ms2: "mem_start s2 = mem_start s" "mem_max_addr s2 = mem_max_addr s"
      by (simp_all add: s2_def a(5,6))
    from bpl_split[OF tp'] obtain pre post where
      sp: "bs1 = pre @ [(osz, True)] @ post" "p = mem_start s2 + 16 + total pre"
      by (auto simp: ms2 a(5))
    from free_spec[OF I2[unfolded sp(1)] sp(2)] obtain s3 where
      f: "free s2 p = Some s3" "heap_inv s3 (coalesced pre osz post)" "same_bounds s2 s3"
         "\<forall>x. x \<notin> free_region (mem_start s2 + 16) (pre @ [(osz, False)] @ post)
                  \<longrightarrow> mem s3 x = mem s2 x"
      by blast
    have run: "realloc s p sz = Some (r, s3)"
      using sz(1) p0 False
      by (simp add: realloc_def m(1) rsz Let_def uk cp f(1))
    have al: "alloc_set ?a (coalesced pre osz post) = insert (r, z) (alloc_set ?a bs) - {(p, osz)}"
      using alloc_set_remove[OF b1[unfolded sp(1)]] a(2) sp by (simp add: ms2)
    have ms3: "mem_start s3 = mem_start s" "mem_max_addr s3 = mem_max_addr s"
      using f(3) ms2 by (simp_all add: same_bounds_def)
    have trn: "(r, z) \<in> alloc_set ?a (pre @ [(osz, False)] @ post)"
    proof -
      have "(r, z) \<in> alloc_set ?a (pre @ [(osz, True)] @ post)" using tr sp(1) by simp
      then show ?thesis using ne sp(2)
        by (auto simp: alloc_set_append alloc_set_Cons ms2)
    qed
    have cont: "mem s3 (r + i) = mem s (p + i)" if i: "0 \<le> i \<and> i < min (osz - 8) (uint sz)" for i
    proof -
      have ik: "i < k" "i < osz - 8" using i by (simp_all add: k_def)
      have nfr: "r + i \<notin> free_region ?a (pre @ [(osz, False)] @ post)"
      proof
        assume "r + i \<in> free_region ?a (pre @ [(osz, False)] @ post)"
        then obtain q w where qw: "(q, w) \<in> free_set ?a (pre @ [(osz, False)] @ post)"
          "q - 4 \<le> r + i" "r + i < q + w - 4" by (auto simp: free_region_def)
        from qw(1) consider "(q, w) \<in> free_set ?a bs1" | "q = p \<and> w = osz"
          unfolding sp(1) using sp(2) by (auto simp: free_set_append free_set_Cons ms2)
        then show False
        proof cases
          case 1
          then have "r + i \<in> free_region ?a bs1" using qw(2,3) by (auto intro: free_regionI)
          moreover have "r + i \<notin> free_region ?a bs1"
            by (rule alloc_not_free_region[OF b1 tr]) (use i ik kz in simp_all)
          ultimately show ?thesis by simp
        next
          case 2
          then show ?thesis using qw(2,3) dj ik kz i by auto
        qed
      qed
      then have "mem s3 (r + i) = mem s2 (r + i)" using f(4) by (simp add: ms2)
      also have "\<dots> = mem s1 (p + i)" using i ik by (simp add: s2_def)
      also have "\<dots> = mem s (p + i)"
      proof -
        have "p + i \<notin> free_region ?a bs"
          by (rule alloc_not_free_region[OF b t]) (use i ik lb in simp_all)
        moreover have "p + i < mem_brk s - 4" using ik lb by simp
        ultimately show ?thesis using a(7) by blast
      qed
      finally show ?thesis .
    qed
    have zge: "uint sz + 8 \<le> z" using nge a(4) by auto
    show ?thesis
      using run False f(2) al a(3) zge ms3 cont
      by (intro exI[of _ r] exI[of _ s3]) (simp, blast)
  qed
qed

lemma calloc_spec:
  assumes I: "heap_inv s bs" and n: "n = uint (adjust_size (nmemb * sz))"
      and r: "malloc s (nmemb * sz) = Some (r, s1)" "r \<noteq> 0"
  shows "\<exists>s' bs' z. calloc s nmemb sz = Some (r, s') \<and> heap_inv s' bs'
           \<and> alloc_set (mem_start s + 16) bs' = insert (r, z) (alloc_set (mem_start s + 16) bs)
           \<and> r \<notin> fst ` alloc_set (mem_start s + 16) bs
           \<and> (z = n \<or> z = n + 8)
           \<and> mem_start s' = mem_start s \<and> mem_max_addr s' = mem_max_addr s
           \<and> (\<forall>x. r \<le> x \<and> x < r + z - 8 \<longrightarrow> mem s' x = 0)"
proof -
  let ?a = "mem_start s + 16"
  from malloc_spec[OF I n] r obtain bs1 z where
    a: "heap_inv s1 bs1" "alloc_set ?a bs1 = insert (r, z) (alloc_set ?a bs)"
       "r \<notin> fst ` alloc_set ?a bs" "z = n \<or> z = n + 8"
       "mem_start s1 = mem_start s" "mem_max_addr s1 = mem_max_addr s"
    by auto
  from a(1) have L1: "layout s1 bs1" by (simp add: heap_inv_def heap_at_def)
  have tr: "(r, z) \<in> alloc_set (mem_start s1 + 16) bs1" using a(2) by (simp add: a(5))
  then have tr': "(r, z, True) \<in> set (bpl (mem_start s1 + 16) bs1)" by (rule alloc_setD)
  note lr = layout_block[OF L1 tr']
  note ld1 = layoutD[OF L1]
  have rsz: "GET_SIZE s1 (HDRP r) = Some (word_of_int z)" by (rule layout_reads(1)[OF L1 tr'])
  have "uint (word_of_int z - 8 :: 32 word) = z - 8"
  proof -
    have "(8 :: 32 word) \<le> word_of_int z"
      using lr by (simp add: word_le_def uint_size_word)
    then have "uint (word_of_int z - 8 :: 32 word) = uint (word_of_int z :: 32 word) - uint (8 :: 32 word)"
      by (simp add: uint_sub_lem[THEN iffD1] word_le_def)
    then show ?thesis using lr by (simp add: uint_size_word)
  qed
  then have ps: "sint (word_of_int z - 8 :: 32 word) = z - 8"
    using lr sint_small[of "word_of_int z - 8"] by simp
  have d4: "4 dvd z - 8 - 0"
  proof -
    from lr(4) obtain k where "z = 8 * k" by (elim dvdE)
    then have "z - 8 - 0 = 4 * (2 * k - 2)" by simp
    then show ?thesis by (rule dvdI)
  qed
  from zero_loop_spec[of 0 "z - 8" s1 r, OF _ d4] lr ld1 obtain s2 where
    zl: "zero_loop s1 r 0 (z - 8) = Some s2" "same_bounds s1 s2" "freelists s2 = freelists s1"
        "\<forall>x. x < r + 0 \<or> r + (z - 8) \<le> x \<longrightarrow> mem s2 x = mem s1 x"
        "\<forall>x. r + 0 \<le> x \<and> x < r + (z - 8) \<longrightarrow> mem s2 x = 0"
    by auto
  have run: "calloc s nmemb sz = Some (r, s2)"
    by (simp add: calloc_def r(1) rsz Let_def ps zl(1))
  have I2: "heap_inv s2 bs1"
    by (rule heap_inv_payload_write[OF a(1) tr _ zl(2,3)]) (use zl(4) in auto)
  have ms2: "mem_start s2 = mem_start s" "mem_max_addr s2 = mem_max_addr s"
    using zl(2) a(5,6) by (simp_all add: same_bounds_def)
  have z0: "\<forall>x. r \<le> x \<and> x < r + z - 8 \<longrightarrow> mem s2 x = 0" using zl(5) by auto
  show ?thesis using run I2 a(2,3,4) ms2 z0 by blast
qed

section \<open>Sequences of requests\<close>

lemma alloc_fst_remove:
  assumes b: "blocks m a bs" and t: "(p, z) \<in> alloc_set a bs"
  shows "fst ` (alloc_set a bs - {(p, z)}) = fst ` alloc_set a bs - {p}"
proof -
  have "z' = z" if "(p, z') \<in> alloc_set a bs" for z'
    using bpl_unique[OF b alloc_setD[OF t] alloc_setD[OF that]] by simp
  then show ?thesis by force
qed

lemma malloc_inv:
  assumes I: "live_inv s L" and r: "malloc s n = Some (r, s')"
  shows "live_inv s' (if r = 0 then L else r # L)"
proof -
  from I obtain bs where bs: "heap_inv s bs" "set L = fst ` alloc_set (mem_start s + 16) bs"
    by (auto simp: live_inv_def)
  from malloc_spec[OF bs(1) refl, of n] r
  have 0: "r = 0 \<longrightarrow> s' = s"
    and 1: "r \<noteq> 0 \<longrightarrow> (\<exists>bs' z. heap_inv s' bs'
          \<and> alloc_set (mem_start s + 16) bs' = insert (r, z) (alloc_set (mem_start s + 16) bs)
          \<and> mem_start s' = mem_start s)"
    by auto
  show ?thesis
  proof (cases "r = 0")
    case True
    then show ?thesis using 0 I by simp
  next
    case False
    with 1 obtain bs' z where "heap_inv s' bs'"
      "alloc_set (mem_start s + 16) bs' = insert (r, z) (alloc_set (mem_start s + 16) bs)"
      "mem_start s' = mem_start s" by blast
    then show ?thesis using False bs(2) unfolding live_inv_def
      by (intro exI[of _ bs']) simp
  qed
qed

lemma live_nonzero:
  assumes I: "live_inv s L"
  shows "0 \<notin> set L"
proof
  assume "0 \<in> set L"
  with I obtain bs z where bs: "heap_inv s bs" "(0, z) \<in> alloc_set (mem_start s + 16) bs"
    by (auto simp: live_inv_def)
  then have L: "layout s bs" by (simp add: heap_inv_def heap_at_def)
  from layout_block(1)[OF L alloc_setD[OF bs(2)]] layoutD(1)[OF L] show False by simp
qed

lemma free_inv:
  assumes I: "live_inv s L" and p: "p = 0 \<or> p \<in> set L" and r: "free s p = Some s'"
  shows "live_inv s' (removeAll p L)"
proof (cases "p = 0")
  case True
  then have "s' = s" using r by (simp add: free_def)
  moreover have "removeAll p L = L" using True live_nonzero[OF I] by simp
  ultimately show ?thesis using I by simp
next
  case False
  let ?a = "mem_start s + 16"
  from I obtain bs where bs: "heap_inv s bs" "set L = fst ` alloc_set ?a bs"
    by (auto simp: live_inv_def)
  from False p bs(2) obtain z where z: "(p, z) \<in> alloc_set ?a bs" by auto
  from bs(1) have L: "layout s bs" by (simp add: heap_inv_def heap_at_def)
  from bpl_split[OF alloc_setD[OF z]] obtain pre post where
    sp: "bs = pre @ [(z, True)] @ post" "p = ?a + total pre" by auto
  from free_spec[OF bs(1)[unfolded sp(1)] sp(2)] r
  have f: "heap_inv s' (coalesced pre z post)" "same_bounds s s'" by auto
  have ms: "mem_start s' = mem_start s" using f(2) by (simp add: same_bounds_def)
  have b: "blocks (mem s) ?a (pre @ [(z, True)] @ post)" using layout_blocks[OF L] sp(1) by simp
  have "alloc_set ?a (coalesced pre z post) = alloc_set ?a bs - {(p, z)}"
    using alloc_set_remove[OF b] sp by simp
  then have "fst ` alloc_set ?a (coalesced pre z post) = set L - {p}"
    using alloc_fst_remove[OF layout_blocks[OF L] z] bs(2) by simp
  then show ?thesis unfolding live_inv_def using f(1) ms
    by (intro exI[of _ "coalesced pre z post"]) simp
qed

lemma realloc_inv:
  assumes I: "live_inv s L" and p: "p = 0 \<or> p \<in> set L" and n: "n \<le> - 16"
      and r: "realloc s p n = Some (r, s')"
  shows "live_inv s' (if n = 0 then removeAll p L else if r = 0 then L else r # removeAll p L)"
proof (cases "n = 0")
  case True
  then obtain s1 where "free s p = Some s1" "s' = s1"
    using r by (auto simp: realloc_def split: bind_splits)
  then show ?thesis using free_inv[OF I p] True by simp
next
  case n0: False
  show ?thesis
  proof (cases "p = 0")
    case True
    then have "malloc s n = Some (r, s')" using r n0 by (simp add: realloc_def)
    from malloc_inv[OF I this] show ?thesis using n0 True live_nonzero[OF I]
      by (cases "r = 0") simp_all
  next
    case False
    let ?a = "mem_start s + 16"
    from I obtain bs where bs: "heap_inv s bs" "set L = fst ` alloc_set ?a bs"
      by (auto simp: live_inv_def)
    from False p bs(2) obtain z where z: "(p, z) \<in> alloc_set ?a bs" by auto
    from bs(1) have L: "layout s bs" by (simp add: heap_inv_def heap_at_def)
    have un: "uint n \<le> 2 ^ 64 - 16" using n by (simp add: word_le_def)
    from realloc_spec[OF bs(1) z n0 un] r
    have 0: "r = 0 \<longrightarrow> s' = s"
      and 1: "r \<noteq> 0 \<longrightarrow> (\<exists>bs' w. heap_inv s' bs'
                \<and> alloc_set ?a bs' = insert (r, w) (alloc_set ?a bs) - {(p, z)}
                \<and> r \<notin> fst ` alloc_set ?a bs \<and> mem_start s' = mem_start s)"
      by auto
    show ?thesis
    proof (cases "r = 0")
      case True
      then show ?thesis using 0 I n0 by simp
    next
      case r0: False
      with 1 obtain bs' w where w: "heap_inv s' bs'"
        "alloc_set ?a bs' = insert (r, w) (alloc_set ?a bs) - {(p, z)}"
        "r \<notin> fst ` alloc_set ?a bs" "mem_start s' = mem_start s" by blast
      have ne: "r \<noteq> p" using w(3) z by force
      have "alloc_set ?a bs' = insert (r, w) (alloc_set ?a bs - {(p, z)})"
        using w(2) ne by auto
      then have "fst ` alloc_set ?a bs' = insert r (set L - {p})"
        using alloc_fst_remove[OF layout_blocks[OF L] z] bs(2) by simp
      then show ?thesis unfolding live_inv_def using w(1,4) n0 r0
        by (intro exI[of _ bs']) simp
    qed
  qed
qed

lemma calloc_inv:
  assumes I: "live_inv s L" and r: "calloc s k n = Some (r, s')"
  shows "live_inv s' (if r = 0 then L else r # L)"
proof -
  let ?a = "mem_start s + 16"
  from I obtain bs where bs: "heap_inv s bs" "set L = fst ` alloc_set ?a bs"
    by (auto simp: live_inv_def)
  from bs(1) have L: "layout s bs" by (simp add: heap_inv_def heap_at_def)
  from malloc_spec[OF bs(1) refl, of "k * n"] obtain r1 s1 where
    m: "malloc s (k * n) = Some (r1, s1)" "r1 = 0 \<longrightarrow> s1 = s" by blast
  have r10: "r1 \<noteq> 0"
  proof
    assume z: "r1 = 0"
    then have "calloc s k n = None"
      using m layoutD(1)[OF L] by (intro calloc_null[of s k n s1]) simp_all
    then show False using r by simp
  qed
  from calloc_spec[OF bs(1) refl m(1) r10] r obtain bs' z where
    c: "heap_inv s' bs'" "alloc_set ?a bs' = insert (r1, z) (alloc_set ?a bs)"
       "mem_start s' = mem_start s" "r = r1"
    by auto
  then show ?thesis unfolding live_inv_def using r10 bs(2)
    by (intro exI[of _ bs']) simp
qed

lemma call_inv:
  assumes I: "live_inv s L" and p: "permitted L q" and b: "size_in_range q"
      and r: "call s q = Some (r, s')"
  shows "live_inv s' (live_after L q r)"
proof (cases q)
  case (Malloc n)
  then show ?thesis using malloc_inv[OF I, of n r s'] r by simp
next
  case (Free a)
  then obtain s1 where "free s a = Some s1" "s' = s1" using r by (auto split: bind_splits)
  then show ?thesis using free_inv[OF I, of a s'] p Free by simp
next
  case (Realloc a n)
  then show ?thesis using realloc_inv[OF I, of a n r s'] p b r by simp
next
  case (Calloc k n)
  then show ?thesis using calloc_inv[OF I, of k n r s'] r by simp
qed

lemma run_inv:
  "live_inv s L \<Longrightarrow> list_all size_in_range qs \<Longrightarrow> run s L qs = Some (s', L') \<Longrightarrow>
   live_inv s' L'"
proof (induction qs arbitrary: s L)
  case Nil
  then show ?case by simp
next
  case (Cons q qs)
  from Cons.prems(2) have b: "size_in_range q" "list_all size_in_range qs" by simp_all
  from Cons.prems(3) obtain r s1 where
    1: "permitted L q" "call s q = Some (r, s1)" "run s1 (live_after L q r) qs = Some (s', L')"
    by (auto split: if_splits bind_splits)
  from call_inv[OF Cons.prems(1) 1(1) b(1) 1(2)] have "live_inv s1 (live_after L q r)" .
  from Cons.IH[OF this b(2) 1(3)] show ?case .
qed

lemma init_inv:
  assumes "provider_ok s0" "mm_init s0 = Some (0, s)"
  shows "live_inv s []"
proof (cases "mem_start s0 + 272 \<le> mem_max_addr s0")
  case True
  from mm_init_spec[OF assms(1) True] assms(2) have "heap_inv s [(256, False)]" by auto
  then show ?thesis unfolding live_inv_def
    by (intro exI[of _ "[(256, False)]"]) (simp add: alloc_set_Cons)
next
  case False
  then have "\<exists>s. mm_init s0 = Some (- 1, s)" using assms(1) by (intro mm_init_fail) simp_all
  then show ?thesis using assms(2) by auto
qed

lemma heap_walk_blocks:
  "layout s (pre @ bs) \<Longrightarrow>
   heap_walk s (mem_start s + 16 + total pre) = Some (map fst (bpl (mem_start s + 16 + total pre) bs))"
proof (induction bs arbitrary: pre)
  case Nil
  note ld = layoutD[OF Nil]
  have "\<not> in_heap s (mem_start s + 16 + total pre)" using ld(7) by (simp add: in_heap_def)
  then show ?case by (subst heap_walk.simps) simp
next
  case (Cons b bs)
  obtain sz al where b: "b = (sz, al)" by (cases b)
  let ?p = "mem_start s + 16 + total pre"
  have L: "layout s (pre @ (sz, al) # bs)" using Cons.prems b by simp
  have t: "(?p, sz, al) \<in> set (bpl (mem_start s + 16) (pre @ (sz, al) # bs))" by (rule bpl_mid)
  note lb = layout_block[OF L t]
  note ld = layoutD[OF L]
  have ih: "in_heap s ?p" using lb ld by (simp add: in_heap_def)
  have nx: "NEXT_BLKP s ?p = Some (?p + sz)" by (rule layout_reads(5)[OF L t])
  have "layout s ((pre @ [(sz, al)]) @ bs)" using L by simp
  from Cons.IH[OF this]
  have r: "heap_walk s (?p + sz) = Some (map fst (bpl (?p + sz) bs))"
    by (simp add: total_append add.assoc)
  show ?case using ih by (subst heap_walk.simps) (simp add: nx r b)
qed

lemma layout_walk:
  assumes L: "layout s bs"
  shows "heap_walk s (heap_listp s + DSIZE) = Some (map fst (bpl (mem_start s + 16) bs))"
proof -
  have "layout s ([] @ bs)" using L by simp
  from heap_walk_blocks[OF this] show ?thesis
    using layoutD(2)[OF L] by (simp add: DSIZE_def add.commute)
qed

lemma layout_header_eq_footer:
  assumes L: "layout s bs" and t: "(bp, sz, al) \<in> set (bpl (mem_start s + 16) bs)"
  shows "header_eq_footer s bp"
proof -
  note lb = layout_block[OF L t]
  note ld = layoutD[OF L]
  have 1: "GET s (HDRP bp) = Some (mk_tag sz al)"
    using lb ld by (simp add: HDRP_def WSIZE_def GET_tag in_heap_range_def)
  have 2: "GET s (bp + sz - 8) = Some (mk_tag sz al)"
    using lb ld by (simp add: GET_tag in_heap_range_def)
  show ?thesis by (simp add: header_eq_footer_def 1 2 layout_reads(6)[OF L t])
qed

lemma layout_prologue_eq:
  assumes L: "layout s bs"
  shows "header_eq_footer s (heap_listp s)"
proof -
  note ld = layoutD[OF L]
  have rg: "in_heap_range s (mem_start s + 4) 4" "in_heap_range s (mem_start s + 8) 4"
    using ld by (simp_all add: in_heap_range_def)
  have h: "HDRP (heap_listp s) = mem_start s + 4" using ld(2) by (simp add: HDRP_def WSIZE_def)
  have 1: "GET s (HDRP (heap_listp s)) = Some (mk_tag 8 True)"
    unfolding h using ld(8) rg(1) by (simp add: GET_tag)
  have 2: "GET s (mem_start s + 8) = Some (mk_tag 8 True)"
    using ld rg by (simp add: GET_tag)
  have "FTRP s (mem_start s + 8) = Some (mem_start s + 8 + 8 - 8)"
    by (rule FTRP_tag[where al = True]) (use ld rg in \<open>simp_all add: add.commute\<close>)
  then have 3: "FTRP s (heap_listp s) = Some (mem_start s + 8)" using ld by simp
  show ?thesis by (simp add: header_eq_footer_def 1 2 3)
qed

lemma layout_headers_match:
  assumes L: "layout s bs"
  shows "headers_match s"
proof -
  have "list_all (header_eq_footer s) (map fst (bpl (mem_start s + 16) bs))"
    using layout_header_eq_footer[OF L] by (auto simp: list_all_iff)
  then show ?thesis
    by (simp add: headers_match_def layout_walk[OF L] layout_prologue_eq[OF L])
qed

lemma no_free_pair_blocks:
  "layout s (pre @ bs) \<Longrightarrow> no_adjacent_free bs \<Longrightarrow>
   no_free_pair s (map fst (bpl (mem_start s + 16 + total pre) bs))"
proof (induction bs arbitrary: pre rule: no_adjacent_free.induct)
  case 1
  then show ?case by simp
next
  case (2 b)
  then show ?case by (cases b) simp
next
  case (3 s1 a1 s2 a2 bs)
  let ?p = "mem_start s + 16 + total pre"
  have L: "layout s (pre @ (s1, a1) # (s2, a2) # bs)" using 3 by simp
  have L': "layout s ((pre @ [(s1, a1)]) @ (s2, a2) # bs)" using 3 by simp
  have t1: "(?p, s1, a1) \<in> set (bpl (mem_start s + 16) (pre @ (s1, a1) # (s2, a2) # bs))"
    by (rule bpl_mid)
  have t2: "(?p + s1, s2, a2) \<in> set (bpl (mem_start s + 16) ((pre @ [(s1, a1)]) @ (s2, a2) # bs))"
    using bpl_mid[of "mem_start s + 16" "pre @ [(s1, a1)]" s2 a2 bs]
    by (simp add: total_append add.assoc)
  have f1: "is_free s ?p \<longleftrightarrow> \<not> a1" by (simp add: is_free_def layout_reads(2)[OF L t1])
  have f2: "is_free s (?p + s1) \<longleftrightarrow> \<not> a2" by (simp add: is_free_def layout_reads(2)[OF L' t2])
  from 3 have n: "a1 \<or> a2" "no_adjacent_free ((s2, a2) # bs)" by simp_all
  from "3.IH"[OF L' n(2)]
  have r: "no_free_pair s (map fst (bpl (?p + s1) ((s2, a2) # bs)))"
    by (simp add: total_append add.assoc)
  show ?case using n(1) f1 f2 r by simp
qed

lemma heap_inv_no_adjacent:
  assumes I: "heap_inv s bs"
  shows "no_adjacent_free_blocks s"
proof -
  from I have L: "layout s bs" and naf: "no_adjacent_free bs"
    by (simp_all add: heap_inv_def heap_at_def)
  have "layout s ([] @ bs)" using L by simp
  from no_free_pair_blocks[OF this naf]
  show ?thesis by (simp add: no_adjacent_free_blocks_def layout_walk[OF L])
qed

lemma run_live_inv:
  assumes "provider_ok s0" "mm_init s0 = Some (0, si)" "list_all size_in_range qs"
    "run si [] qs = Some (s, L)"
  shows "live_inv s L"
  using run_inv[OF init_inv[OF assms(1,2)] assms(3,4)] .

lemma adjust_size_required:
  assumes "sz \<le> - 16"
  shows "uint (adjust_size sz) = required_block_size sz"
proof -
  have u: "uint sz \<le> 2 ^ 64 - 16" using assms by (simp add: word_le_def)
  have 1: "uint (sz + 8 + 7) = uint sz + 15"
    using u uint_add_lem[of sz 15] by (simp add: add.assoc)
  have "uint (ALIGN (sz + 8)) = uint (sz + 8 + 7) - uint (sz + 8 + 7) mod 8"
    unfolding ALIGN_def by (rule uint_and_not7)
  then have a: "uint (ALIGN (sz + 8)) = round_up_to_8 (uint sz + 8)"
    unfolding 1 round_up_to_8_def by presburger
  have "uint (max (ALIGN (sz + 8)) MINSIZE) = max (uint (ALIGN (sz + 8))) 16"
    by (auto simp: max_def word_le_def MINSIZE_def)
  then show ?thesis by (simp add: adjust_size_def required_block_size_def a)
qed

lemma initial_heap_init: "mm_init (fresh_heap 4096 1024) = Some (0, initial_heap)"
proof -
  have "map_option fst (mm_init (fresh_heap 4096 1024)) = Some 0" by code_simp
  then obtain s where "mm_init (fresh_heap 4096 1024) = Some (0, s)" by auto
  then show ?thesis by (simp add: initial_heap_def)
qed

lemma fresh_heap_ok: "provider_ok (fresh_heap 4096 1024)"
  by (simp add: provider_ok_def fresh_heap_def)

lemma served_heap_run:
  "run initial_heap [] [Malloc 16, Malloc 16, Free 4112] = Some (served_heap, [4136])"
proof -
  have "map_option snd (run initial_heap [] [Malloc 16, Malloc 16, Free 4112]) = Some [4136]"
    by code_simp
  then obtain s where "run initial_heap [] [Malloc 16, Malloc 16, Free 4112] = Some (s, [4136])"
    by auto
  then show ?thesis by (simp add: served_heap_def)
qed

lemma resized_heap_run:
  "run initial_heap [] [Malloc 24, Calloc 4 4, Realloc 4112 100, Free 0]
   = Some (resized_heap, [4168, 4144])"
proof -
  have "map_option snd (run initial_heap [] [Malloc 24, Calloc 4 4, Realloc 4112 100, Free 0])
        = Some [4168, 4144]"
    by code_simp
  then obtain s where
    "run initial_heap [] [Malloc 24, Calloc 4 4, Realloc 4112 100, Free 0] = Some (s, [4168, 4144])"
    by auto
  then show ?thesis by (simp add: resized_heap_def)
qed

lemma malloc_beyond_capacity:
  assumes I: "live_inv s L" and big: "mem_max_addr s - mem_start s < uint sz" and sz: "sz \<le> - 16"
  shows "malloc s sz = Some (0, s)"
proof -
  from I obtain bs where bs: "heap_inv s bs" by (auto simp: live_inv_def)
  have u: "uint sz \<le> 2 ^ 64 - 16" using sz by (simp add: word_le_def)
  from malloc_spec[OF bs refl, of sz] obtain r s' where
    m: "malloc s sz = Some (r, s')" "r = 0 \<longrightarrow> s' = s"
       "r \<noteq> 0 \<longrightarrow> (\<exists>bs' z. heap_inv s' bs'
            \<and> alloc_set (mem_start s + 16) bs' = insert (r, z) (alloc_set (mem_start s + 16) bs)
            \<and> (z = uint (adjust_size sz) \<or> z = uint (adjust_size sz) + 8)
            \<and> mem_start s' = mem_start s \<and> mem_max_addr s' = mem_max_addr s)"
    by blast
  have "r = 0"
  proof (rule ccontr)
    assume "r \<noteq> 0"
    with m(3) obtain bs' z where
      z0: "heap_inv s' bs'"
         "alloc_set (mem_start s + 16) bs' = insert (r, z) (alloc_set (mem_start s + 16) bs)"
         "z = uint (adjust_size sz) \<or> z = uint (adjust_size sz) + 8"
         "mem_start s' = mem_start s" "mem_max_addr s' = mem_max_addr s"
      by blast
    have z: "heap_inv s' bs'" "(r, z) \<in> alloc_set (mem_start s' + 16) bs'"
         "z = uint (adjust_size sz) \<or> z = uint (adjust_size sz) + 8"
         "mem_start s' = mem_start s" "mem_max_addr s' = mem_max_addr s"
      using z0 by simp_all
    from z(1) have L: "layout s' bs'" by (simp add: heap_inv_def heap_at_def)
    note lb = layout_block[OF L alloc_setD[OF z(2)]]
    note ld = layoutD[OF L]
    have "z \<le> mem_max_addr s - mem_start s" using lb ld z(4,5) by simp
    moreover have "uint sz + 8 \<le> z" using adjust_size_ge[OF u] z(3) by auto
    ultimately show False using big by simp
  qed
  then show ?thesis using m(1,2) by simp
qed

text \<open>
  From a successfully initialised heap, after any sequence of permitted requests that all
  return and whose \<^verbatim>\<open>realloc\<close> sizes are at most \<open>2^64 - 16\<close>, the walk over the physical
  blocks meets no two neighbouring free blocks.
\<close>

theorem no_adjacent_free_in_range:
  "provider_ok s0 \<Longrightarrow> mm_init s0 = Some (0, si) \<Longrightarrow> list_all size_in_range qs \<Longrightarrow>
   run si [] qs = Some (s, L) \<Longrightarrow> no_adjacent_free_blocks s"
proof -
  assume "provider_ok s0" "mm_init s0 = Some (0, si)" "list_all size_in_range qs"
    "run si [] qs = Some (s, L)"
  then have "live_inv s L" by (rule run_live_inv)
  then obtain bs where "heap_inv s bs" by (auto simp: live_inv_def)
  then show ?thesis by (rule heap_inv_no_adjacent)
qed

theorem no_adjacent_free_in_range_witness:
  "provider_ok (fresh_heap 4096 1024)
   \<and> mm_init (fresh_heap 4096 1024) = Some (0, initial_heap)
   \<and> list_all size_in_range [Malloc 16, Malloc 16, Free 4112]
   \<and> run initial_heap [] [Malloc 16, Malloc 16, Free 4112] = Some (served_heap, [4136])
   \<and> no_adjacent_free_blocks served_heap"
proof -
  have b: "list_all size_in_range [Malloc 16, Malloc 16, Free 4112]" by simp
  show ?thesis
    using no_adjacent_free_in_range[OF fresh_heap_ok initial_heap_init b served_heap_run]
      fresh_heap_ok initial_heap_init served_heap_run
    by simp
qed

text \<open>
  C7. Six blocks are allocated on the initialised heap, at \<open>4112\<close> (24 bytes), \<open>4136\<close>
  (32), \<open>4168\<close> (48), \<open>4216\<close> (24), \<open>4240\<close> (32) and \<open>4272\<close> (24); the blocks at
  \<open>4240\<close>, \<open>4168\<close> and \<open>4112\<close> are released; then \<^verbatim>\<open>realloc\<close> is asked to give the
  live pointer \<open>4216\<close> a size of \<open>2^64 - 1\<close> bytes. Every request is permitted and
  returns. The adjusted size wraps around to 16, the allocation inside \<^verbatim>\<open>realloc\<close> takes
  the 24-byte block at \<open>4112\<close>, and \<^verbatim>\<open>memcpy\<close> of 24 bytes writes the free tag of the
  block at \<open>4240\<close> over the header of the allocated block at \<open>4136\<close>. After the call the
  walk over the heap finds the block at \<open>4136\<close> and its successor at \<open>4168\<close> both free.
\<close>

theorem realloc_overrun_adjacent_free:
  "do { (r0, si) \<leftarrow> mm_init (fresh_heap 4096 1024);
        (s, L) \<leftarrow> run si [] overrun_requests;
        Some (r0, L, heap_walk s (heap_listp s + DSIZE), map (is_free s) [4136, 4168],
              no_adjacent_free_blocks s) }
   = Some (0, [4112, 4272, 4136], Some [4112, 4136, 4168, 4272, 4296], [True, True], False)"
  by code_simp

text \<open>
  From a successfully initialised heap, after any sequence of permitted requests that all
  return and whose \<^verbatim>\<open>realloc\<close> sizes are at most \<open>2^64 - 16\<close>, the prologue and every
  block met by the walk over the physical blocks have a header word equal to the footer
  word.
\<close>

theorem header_equals_footer_in_range:
  "provider_ok s0 \<Longrightarrow> mm_init s0 = Some (0, si) \<Longrightarrow> list_all size_in_range qs \<Longrightarrow>
   run si [] qs = Some (s, L) \<Longrightarrow> headers_match s"
proof -
  assume "provider_ok s0" "mm_init s0 = Some (0, si)" "list_all size_in_range qs"
    "run si [] qs = Some (s, L)"
  then have "live_inv s L" by (rule run_live_inv)
  then obtain bs where "heap_inv s bs" by (auto simp: live_inv_def)
  then have "layout s bs" by (simp add: heap_inv_def heap_at_def)
  then show ?thesis by (rule layout_headers_match)
qed

theorem header_equals_footer_in_range_witness:
  "provider_ok (fresh_heap 4096 1024)
   \<and> mm_init (fresh_heap 4096 1024) = Some (0, initial_heap)
   \<and> list_all size_in_range [Malloc 24, Calloc 4 4, Realloc 4112 100, Free 0]
   \<and> run initial_heap [] [Malloc 24, Calloc 4 4, Realloc 4112 100, Free 0]
       = Some (resized_heap, [4168, 4144])
   \<and> headers_match resized_heap"
proof -
  have b: "list_all size_in_range [Malloc 24, Calloc 4 4, Realloc 4112 100, Free 0]" by simp
  show ?thesis
    using header_equals_footer_in_range[OF fresh_heap_ok initial_heap_init b resized_heap_run]
      fresh_heap_ok initial_heap_init resized_heap_run
    by simp
qed

text \<open>
  C8. After the same requests, all permitted and all returning, the allocated block at
  \<open>4136\<close> has the header word 32, written by the \<^verbatim>\<open>memcpy\<close> inside \<^verbatim>\<open>realloc\<close>, and
  the footer word 33.
\<close>

theorem realloc_overrun_header_differs:
  "do { (r0, si) \<leftarrow> mm_init (fresh_heap 4096 1024);
        (s, L) \<leftarrow> run si [] overrun_requests;
        h \<leftarrow> GET s (HDRP 4136); f \<leftarrow> FTRP s 4136; t \<leftarrow> GET s f;
        Some (r0, L, h, t, headers_match s) }
   = Some (0, [4112, 4272, 4136], 32, 33, False)"
  by code_simp

lemma served_heap_inv: "heap_inv served_heap [(24, False), (24, True), (208, False)]"
proof -
  let ?bs = "[(24, False), (24, True), (208, False)]"
  have L: "layout served_heap ?bs" by code_simp
  have ms: "mem_start served_heap = 4096" by code_simp
  have fl: "list_all (\<lambda>i. fpath (mem served_heap) (freelists served_heap i)
               (if i = 5 then [4112] else if i = 8 then [4160] else []) (heap_listp served_heap))
             [0..<NUMLIST]"
    by code_simp
  then have fl': "\<forall>i<NUMLIST. fpath (mem served_heap) (freelists served_heap i)
               (if i = 5 then [4112] else if i = 8 then [4160] else []) (heap_listp served_heap)"
    by (simp only: all_below_list)
  have b: "bucket_of 24 = 5" "bucket_of 208 = 8" by code_simp+
  have F: "free_set (mem_start served_heap + 16) ?bs = {(4112, 24), (4160, 208)}"
    by (auto simp: free_set_Cons ms)
  have lo: "lists_ok served_heap {(4112, 24), (4160, 208)}"
    unfolding lists_ok_def
  proof (intro allI impI)
    fix i assume i: "i < NUMLIST"
    let ?ps = "if i = 5 then [4112] else if i = 8 then [4160] else []"
    have "fpath (mem served_heap) (freelists served_heap i) ?ps (heap_listp served_heap)"
      using fl' i by blast
    moreover have "distinct ?ps" by simp
    moreover have "set ?ps = {bp. \<exists>sz. (bp, sz) \<in> {(4112, 24), (4160, 208)} \<and> bucket_of sz = i}"
      using b by auto
    ultimately show "\<exists>ps. fpath (mem served_heap) (freelists served_heap i) ps
           (heap_listp served_heap) \<and> distinct ps
         \<and> set ps = {bp. \<exists>sz. (bp, sz) \<in> {(4112, 24), (4160, 208)} \<and> bucket_of sz = i}"
      by blast
  qed
  show ?thesis unfolding heap_inv_def heap_at_def F using L lo by simp
qed

text \<open>
  C4 (as amended). On a well-formed heap (\<open>heap_inv\<close>: prologue and epilogue in place, the
  blocks tile the heap with equal header and footer, every bucket holds exactly the free
  blocks of its size class, no two free blocks are neighbours; the provider spans less
  than \<open>2^31\<close> bytes) and for a request of at most \<open>2^64 - 16\<close> bytes: the adjusted size is
  \<open>max (round_up_to_8 (requested + 8)) 16\<close>, and \<^verbatim>\<open>malloc\<close> returns. It returns null only
  when the provider cannot give \<open>max required 256\<close> more bytes, and then leaves the state
  as it was; otherwise the block it returns is allocated, the size in its header is the
  required size or 8 bytes more, and the heap is well-formed again.
\<close>

theorem malloc_block_size:
  assumes "heap_inv s bs" and "sz \<le> - 16"
  shows "uint (adjust_size sz) = required_block_size sz
         \<and> (\<exists>r s'. malloc s sz = Some (r, s')
              \<and> (r = 0 \<longrightarrow> s' = s \<and> mem_max_addr s < mem_brk s + max (required_block_size sz) 256)
              \<and> (r \<noteq> 0 \<longrightarrow> GET_ALLOC s' (HDRP r) = Some 1
                    \<and> (\<exists>w. GET_SIZE s' (HDRP r) = Some w
                          \<and> (uint w = required_block_size sz \<or> uint w = required_block_size sz + 8))
                    \<and> (\<exists>bs'. heap_inv s' bs')))"
proof -
  let ?n = "required_block_size sz"
  have n: "?n = uint (adjust_size sz)" using adjust_size_required[OF assms(2)] by simp
  from malloc_spec[OF assms(1) n] obtain r s' where
    m: "malloc s sz = Some (r, s')" "r = 0 \<longrightarrow> s' = s \<and> mem_max_addr s < mem_brk s + max ?n 256"
       "r \<noteq> 0 \<longrightarrow> (\<exists>bs' z. heap_inv s' bs'
            \<and> alloc_set (mem_start s + 16) bs' = insert (r, z) (alloc_set (mem_start s + 16) bs)
            \<and> (z = ?n \<or> z = ?n + 8) \<and> mem_start s' = mem_start s)"
    by blast
  have "GET_ALLOC s' (HDRP r) = Some 1
        \<and> (\<exists>w. GET_SIZE s' (HDRP r) = Some w \<and> (uint w = ?n \<or> uint w = ?n + 8))
        \<and> (\<exists>bs'. heap_inv s' bs')"
    if "r \<noteq> 0"
  proof -
    from that m(3) obtain bs' z where
      z0: "heap_inv s' bs'"
         "alloc_set (mem_start s + 16) bs' = insert (r, z) (alloc_set (mem_start s + 16) bs)"
         "z = ?n \<or> z = ?n + 8" "mem_start s' = mem_start s"
      by blast
    have z: "(r, z) \<in> alloc_set (mem_start s' + 16) bs'" using z0 by simp
    from z0(1) have L: "layout s' bs'" by (simp add: heap_inv_def heap_at_def)
    note lb = layout_block[OF L alloc_setD[OF z]]
    have u: "uint (word_of_int z :: 32 word) = z" using lb by (intro uint_size_word) simp_all
    have "GET_SIZE s' (HDRP r) = Some (word_of_int z)" "GET_ALLOC s' (HDRP r) = Some 1"
      using layout_reads(1,2)[OF L alloc_setD[OF z]] by simp_all
    then show ?thesis using u z0(1,3) by auto
  qed
  then show ?thesis using n m(1,2) by auto
qed

theorem malloc_block_size_witness:
  "heap_inv served_heap [(24, False), (24, True), (208, False)]
   \<and> (100 :: 64 word) \<le> - 16
   \<and> uint (adjust_size 100) = required_block_size 100
   \<and> required_block_size 100 = 112
   \<and> do { (r, s') \<leftarrow> malloc served_heap 100;
           a \<leftarrow> GET_ALLOC s' (HDRP r);
           w \<leftarrow> GET_SIZE s' (HDRP r);
           Some (r, a, uint w) } = Some (4160, 1, 112)"
proof -
  have z: "(100 :: 64 word) \<le> - 16" by simp
  have q: "required_block_size 100 = 112"
    by (simp add: required_block_size_def round_up_to_8_def)
  have e: "do { (r, s') \<leftarrow> malloc served_heap 100;
           a \<leftarrow> GET_ALLOC s' (HDRP r);
           w \<leftarrow> GET_SIZE s' (HDRP r);
           Some (r, a, uint w) } = Some (4160, 1, 112)" by code_simp
  from malloc_block_size[OF served_heap_inv z]
  have "uint (adjust_size 100) = required_block_size 100" by simp
  then show ?thesis using served_heap_inv z q e by simp
qed

theorem malloc_zero_whole_block:
  "do { (s, L) \<leftarrow> run initial_heap [] [Malloc 16, Malloc 16, Free 4112];
        (c, s') \<leftarrow> malloc s 0;
        z \<leftarrow> GET_SIZE s' (HDRP c);
        Some (c, z) } = Some (4112, 24)"
  by code_simp

text \<open>
  C1. After \<^verbatim>\<open>malloc(8)\<close>, \<^verbatim>\<open>malloc(16)\<close> and the release of the first block, the
  pointer \<open>4128\<close> is live with a block of 24 bytes. The adjusted size of a request of
  \<open>2^64 - 1\<close> bytes wraps around to 16, so the new allocation succeeds with the released
  block at \<open>4112\<close>; \<^verbatim>\<open>realloc\<close> then copies 24 bytes from \<open>4128\<close> to \<open>4112\<close>, two
  ranges that overlap, and has no defined result. For sizes of at most \<open>2^64 - 16\<close>
  \<open>realloc_spec\<close> gives the new block the first bytes of the old payload.
\<close>

theorem realloc_huge_undefined:
  "do { (s, L) \<leftarrow> run initial_heap [] [Malloc 8, Malloc 16, Free 4112];
        Some (L, GET_SIZE s (HDRP 4128), map_option fst (malloc s (- 1)),
              map_option fst (realloc s 4128 (- 1))) }
   = Some ([4128], Some 24, Some 4112, None)"
  by code_simp

text \<open>
  C3. A heap initialised on a provider of 272 bytes has nothing left to grow by. A request
  of \<open>2^64 - 1\<close> bytes, far more than the provider can supply, still returns a block: its
  adjusted size wraps around to 16 and the fit search finds the initial free block. For
  requests of at most \<open>2^64 - 16\<close> bytes that exceed the provider's capacity
  \<open>malloc_beyond_capacity\<close> gives the null pointer and the unchanged state.
\<close>

theorem malloc_huge_not_null:
  "do { (r, s) \<leftarrow> mm_init (fresh_heap 4096 272);
        Some (r, mem_max_addr s - mem_brk s, map_option fst (malloc s (- 1))) }
   = Some (0, 0, Some 4112)"
  by code_simp

lemma prev_footer_alloc:
  assumes L: "layout s (pre @ (sz, al) # post)" and bp: "bp = mem_start s + 16 + total pre"
  shows "GET_ALLOC s (bp - DSIZE) = Some (if prev_free pre then 0 else 1)"
proof (cases "pre = []")
  case True
  note ld = layoutD[OF L]
  have e: "bp - DSIZE = mem_start s + 8" using bp True by (simp add: DSIZE_def)
  have "in_heap_range s (mem_start s + 8) 4" using ld by (simp add: in_heap_range_def)
  then have g: "GET s (mem_start s + 8) = Some (mk_tag 8 True)"
    by (simp only: GET_tag ld(9))
  have a: "mk_tag 8 True AND 1 = 1" using mk_tag_alloc[of 8 True] by simp
  show ?thesis unfolding e GET_ALLOC_def g using True
    by (simp only: option.map a) (simp add: prev_free_def)
next
  case False
  then obtain pre' psz pal where p: "pre = pre' @ [(psz, pal)]"
    by (metis append_butlast_last_id prod.collapse)
  have L': "layout s (pre' @ (psz, pal) # (sz, al) # post)" using L p by simp
  have t: "(mem_start s + 16 + total pre', psz, pal)
           \<in> set (bpl (mem_start s + 16) (pre' @ (psz, pal) # (sz, al) # post))"
    by (rule bpl_mid)
  have e: "bp - DSIZE = mem_start s + 16 + total pre' + psz - 8"
    using bp p by (simp add: DSIZE_def total_append)
  show ?thesis unfolding e using layout_reads(4)[OF L' t] p by (simp add: prev_free_def)
qed

text \<open>
  C6 (as amended). The block at \<open>bp\<close> has just been given free tags, its neighbours are
  still as they were: \<open>pre\<close> are the blocks before it, \<open>post\<close> the blocks after it, and the
  buckets hold the free blocks among these. Then the allocated bit of the footer before
  \<open>bp\<close> and of the header after the block tell whether the neighbours are free;
  \<^verbatim>\<open>coalesce\<close> returns the address of the previous block if that one is free and \<open>bp\<close>
  otherwise; the block there is free, its size is the sum of the sizes of the block and
  of its free neighbours, header and footer agree, the free neighbours have left their
  buckets, and the merged block is in the bucket of the smallest index \<open>i\<close> with
  \<open>size \<le> 2^i\<close> (the last bucket if there is none).
\<close>

theorem coalesce_four_cases:
  assumes "heap_at s (pre @ [(sz, False)] @ post) (FLout (mem_start s + 16) pre [(sz, False)] post)"
      and "bp = mem_start s + 16 + total pre"
  shows "\<exists>s'. coalesce s bp = Some (bp - prev_size pre, s')
           \<and> GET_ALLOC s (bp - DSIZE) = Some (if prev_free pre then 0 else 1)
           \<and> GET_ALLOC s (HDRP (bp + sz)) = Some (if next_free post then 0 else 1)
           \<and> heap_at s' (coalesced pre sz post)
                (free_set (mem_start s + 16) (coalesced pre sz post))
           \<and> GET s' (HDRP (bp - prev_size pre))
                = Some (mk_tag (prev_size pre + sz + next_size post) False)
           \<and> header_eq_footer s' (bp - prev_size pre)
           \<and> (\<exists>ps. fpath (mem s') (freelists s' (bucket_of (prev_size pre + sz + next_size post)))
                    ps (heap_listp s')
                  \<and> bp - prev_size pre \<in> set ps)"
proof -
  let ?a = "mem_start s + 16"
  let ?m = "prev_size pre + sz + next_size post"
  let ?r = "bp - prev_size pre"
  from assms(1) have L: "layout s (pre @ (sz, False) # post)" by (simp add: heap_at_def)
  from coalesce_spec[OF assms] obtain s' where
    c: "coalesce s bp = Some (?r, s')"
       "heap_at s' (coalesced pre sz post) (free_set ?a (coalesced pre sz post))"
       "same_bounds s s'"
    by blast
  have ms: "mem_start s' = mem_start s" using c(3) by (simp add: same_bounds_def)
  from c(2) have L': "layout s' (coalesced pre sz post)"
    and lo: "lists_ok s' (free_set ?a (coalesced pre sz post))"
    by (simp_all add: heap_at_def)
  define P where "P = (if prev_free pre then butlast pre else pre)"
  define Q where "Q = (if next_free post then tl post else post)"
  have co: "coalesced pre sz post = P @ (?m, False) # Q"
    by (simp add: coalesced_def P_def Q_def)
  have tp: "total P = total pre - prev_size pre"
    unfolding P_def by (rule coalesced_last(2))
  have eq: "?a + total P = ?r" using tp assms(2) by simp
  have "(?a + total P, ?m, False) \<in> set (bpl ?a (P @ (?m, False) # Q))" by (rule bpl_mid)
  then have t: "(?r, ?m, False) \<in> set (bpl (mem_start s' + 16) (coalesced pre sz post))"
    unfolding eq by (simp add: co ms)
  note lb = layout_block[OF L' t]
  note ld = layoutD[OF L']
  have g: "GET s' (HDRP ?r) = Some (mk_tag ?m False)"
    using lb ld by (simp add: HDRP_def WSIZE_def GET_tag in_heap_range_def)
  have hf: "header_eq_footer s' ?r" by (rule layout_header_eq_footer[OF L' t])
  have "bucket_of ?m < NUMLIST" by (rule bucket_of_less)
  with lo obtain ps where
    ps: "fpath (mem s') (freelists s' (bucket_of ?m)) ps (heap_listp s')"
        "set ps = {q. \<exists>z. (q, z) \<in> free_set ?a (coalesced pre sz post) \<and> bucket_of z = bucket_of ?m}"
    by (auto simp: lists_ok_def)
  have "(?r, ?m) \<in> free_set ?a (coalesced pre sz post)" using t by (simp add: free_set_def ms)
  then have "?r \<in> set ps" unfolding ps(2) by blast
  then have b: "\<exists>ps. fpath (mem s') (freelists s' (bucket_of ?m)) ps (heap_listp s') \<and> ?r \<in> set ps"
    using ps(1) by blast
  show ?thesis
    using c(1,2) prev_footer_alloc[OF L assms(2)] coalesce_reads_next(2)[OF L assms(2)] g hf b
    by blast
qed

lemma released_heap_at:
  "heap_at released_heap ([] @ [(24, False)] @ [(232, False)])
     (FLout (mem_start released_heap + 16) [] [(24, False)] [(232, False)])"
proof -
  have L: "layout released_heap [(24, False), (232, False)]" by code_simp
  have ms: "mem_start released_heap = 4096" by code_simp
  have hp: "heap_listp released_heap = 4104" by code_simp
  have fl: "list_all (\<lambda>i. fpath (mem released_heap) (freelists released_heap i)
               (if i = 8 then [4136] else []) (heap_listp released_heap)) [0..<NUMLIST]"
    by code_simp
  then have fl': "\<forall>i<NUMLIST. fpath (mem released_heap) (freelists released_heap i)
               (if i = 8 then [4136] else []) (heap_listp released_heap)"
    by (simp only: all_below_list)
  have b: "bucket_of 232 = 8" by code_simp
  have F: "FLout (mem_start released_heap + 16) [] [(24, False)] [(232, False)] = {(4136, 232)}"
    by (simp add: FLout_def free_set_Cons ms)
  have lo: "lists_ok released_heap {(4136, 232)}"
    unfolding lists_ok_def
  proof (intro allI impI)
    fix i assume i: "i < NUMLIST"
    let ?ps = "if i = 8 then [4136] else []"
    have "fpath (mem released_heap) (freelists released_heap i) ?ps (heap_listp released_heap)"
      using fl' i by blast
    moreover have "distinct ?ps" by simp
    moreover have "set ?ps = {bp. \<exists>sz. (bp, sz) \<in> {(4136, 232)} \<and> bucket_of sz = i}"
      using b by auto
    ultimately show "\<exists>ps. fpath (mem released_heap) (freelists released_heap i) ps
           (heap_listp released_heap) \<and> distinct ps
         \<and> set ps = {bp. \<exists>sz. (bp, sz) \<in> {(4136, 232)} \<and> bucket_of sz = i}"
      by blast
  qed
  show ?thesis unfolding F heap_at_def using L lo by (simp add: free_set_Cons ms)
qed

theorem coalesce_four_cases_witness:
  "heap_at released_heap ([] @ [(24, False)] @ [(232, False)])
     (FLout (mem_start released_heap + 16) [] [(24, False)] [(232, False)])
   \<and> (4112 :: int) = mem_start released_heap + 16 + total []
   \<and> prev_free [] = False \<and> next_free [(232, False)] = True
   \<and> map_option fst (coalesce released_heap 4112) = Some 4112
   \<and> do { (r, s') \<leftarrow> coalesce released_heap 4112; h \<leftarrow> GET s' (HDRP r); Some (header_eq_footer s' r, h) }
       = Some (True, 256)"
proof -
  have bp: "(4112 :: int) = mem_start released_heap + 16 + total []" by code_simp
  have e: "do { (r, s') \<leftarrow> coalesce released_heap 4112; h \<leftarrow> GET s' (HDRP r);
                Some (header_eq_footer s' r, h) } = Some (True, 256)"
    by code_simp
  from coalesce_four_cases[OF released_heap_at bp]
  have "map_option fst (coalesce released_heap 4112) = Some 4112"
    by (auto simp: prev_size_def prev_free_def)
  then show ?thesis using released_heap_at bp e by (simp add: prev_free_def next_free_def)
qed

text \<open>
  The decision of \<^verbatim>\<open>coalesce\<close> does not rest on the footer before the block and the
  header after it alone: \<^verbatim>\<open>FTRP(PREV_BLKP(bp))\<close> finds that footer through the size in
  the header of the previous block. The two states below have the same footer before the
  block at \<open>4136\<close>, the same header after it and the same header of the block itself; in
  the first \<^verbatim>\<open>coalesce\<close> returns \<open>4136\<close>, in the second, where the header of the
  previous block holds another size, it reads outside the heap and has no result.
\<close>

theorem coalesce_prev_header_matters:
  "GET second_released (4136 - DSIZE) = Some 25
   \<and> GET tampered_released (4136 - DSIZE) = Some 25
   \<and> GET second_released (HDRP (4136 + 24)) = Some 208
   \<and> GET tampered_released (HDRP (4136 + 24)) = Some 208
   \<and> GET second_released (HDRP 4136) = Some 24
   \<and> GET tampered_released (HDRP 4136) = Some 24
   \<and> GET second_released (HDRP 4112) = Some 25
   \<and> GET tampered_released (HDRP 4112) = Some 1048577
   \<and> map_option fst (coalesce second_released 4136) = Some 4136
   \<and> map_option fst (coalesce tampered_released 4136) = None"
  by code_simp

end
